(* ===== verification/Prelude.thy ===== *)
theory Prelude
  imports Main "HOL-Library.Word" "HOL-Library.Multiset"
begin

text \<open>
  Shared vocabulary of the development: the model's machine types, the errors a C++ call can
  end with, and generic lemmas on byte arrays, linked chains and words.

  A result of type \<open>'a result\<close> is \<open>Inr\<close> of the value or \<open>Inl\<close> of the way the call fails:
  an exception of the program, an access outside the mapped memory (SIGSEGV or SIGBUS), C++
  undefined behaviour, or an \<open>assert\<close>. A loop that need not end returns \<open>'a result option\<close>,
  with \<open>None\<close> for not returning.
\<close>

unbundle bit_operations_syntax

section \<open>Machine types, errors and results\<close>

type_synonym byte = "8 word"
type_synonym bytes = "8 word list"
type_synonym hash_t = "32 word"
type_synonym size_t = "64 word"

datatype error =
    System_error
  | Runtime_error string
  | Bad_access
  | Undefined
  | Assertion_failed
  | Key_error bytes
  | Stop_iteration

type_synonym 'a result = "error + 'a"

named_theorems result_simps \<open>evaluation of sequenced results\<close>
named_theorems layout_simps \<open>sizes and offsets of the on-disk structures\<close>

definition bind_r :: "'a result \<Rightarrow> ('a \<Rightarrow> 'b result) \<Rightarrow> 'b result" where
  "bind_r m f = (case m of Inl e \<Rightarrow> Inl e | Inr x \<Rightarrow> f x)"

definition bind_o :: "'a result option \<Rightarrow> ('a \<Rightarrow> 'b result option) \<Rightarrow> 'b result option" where
  "bind_o m f = (case m of None \<Rightarrow> None | Some r \<Rightarrow> (case r of Inl e \<Rightarrow> Some (Inl e) | Inr x \<Rightarrow> f x))"

lemma bind_r_simps [simp, result_simps]:
  "bind_r (Inl e) f = Inl e"
  "bind_r (Inr x) f = f x"
  by (simp_all add: bind_r_def)

lemma bind_o_simps [simp, result_simps]:
  "bind_o None f = None"
  "bind_o (Some (Inl e)) f = Some (Inl e)"
  "bind_o (Some (Inr x)) f = f x"
  by (simp_all add: bind_o_def)

lemma bind_r_eq_Inr: "bind_r m f = Inr y \<longleftrightarrow> (\<exists>x. m = Inr x \<and> f x = Inr y)"
  by (cases m) auto

lemma bind_o_eq_Inr: "bind_o m f = Some (Inr y) \<longleftrightarrow> (\<exists>x. m = Some (Inr x) \<and> f x = Some (Inr y))"
  by (auto simp: bind_o_def split: option.splits sum.splits)

lemma bind_o_assoc: "bind_o (bind_o m f) g = bind_o m (\<lambda>x. bind_o (f x) g)"
  by (auto simp: bind_o_def split: option.splits sum.splits)

lemma bind_o_cong: "(\<And>x. f x = g x) \<Longrightarrow> bind_o m f = bind_o m g"
  by (auto simp: bind_o_def split: option.splits sum.splits)

lemma bind_o_return: "bind_o m (\<lambda>x. Some (Inr x)) = m"
  by (auto simp: bind_o_def split: option.splits sum.splits)

text \<open>The constants of \<^verbatim>\<open>size_t\<close> arithmetic: sizes are natural numbers, and where the code's
  arithmetic can leave 64 bits the reduction is written out with \<open>sz\<close>.\<close>

definition sz :: "nat \<Rightarrow> nat" where
  "sz n = n mod 2 ^ 64"

lemma sz_small [simp]: "n < 2 ^ 64 \<Longrightarrow> sz n = n"
  by (simp add: sz_def)

definition sz_sub :: "nat \<Rightarrow> nat \<Rightarrow> nat" where
  "sz_sub a b = (a + 2 ^ 64 - b) mod 2 ^ 64"

lemma sz_sub_eq [simp]: "b \<le> a \<Longrightarrow> a < 2 ^ 64 \<Longrightarrow> sz_sub a b = a - b"
proof -
  assume "b \<le> a" "a < 2 ^ 64"
  then have "a + 2 ^ 64 - b = (a - b) + 2 ^ 64" "a - b < 2 ^ 64" by simp_all
  then show ?thesis unfolding sz_sub_def by (metis mod_add_self2 mod_less)
qed

lemma sz_sub_zero_one: "sz_sub 0 1 = 2 ^ 64 - 1"
  by (simp add: sz_sub_def)

definition INVALID_ID :: nat where
  "INVALID_ID = 2 ^ 64 - 1"

section \<open>Byte arrays\<close>

definition segment :: "nat \<Rightarrow> nat \<Rightarrow> 'a list \<Rightarrow> 'a list" where
  "segment off n xs = take n (drop off xs)"

text \<open>Overwriting a run of an array, as \<^verbatim>\<open>std::copy\<close> into it does.\<close>

definition overwrite :: "nat \<Rightarrow> 'a list \<Rightarrow> 'a list \<Rightarrow> 'a list" where
  "overwrite off ys xs = take off xs @ ys @ drop (off + length ys) xs"

lemma length_overwrite [simp]: "off + length ys \<le> length xs \<Longrightarrow> length (overwrite off ys xs) = length xs"
  by (simp add: overwrite_def)

lemma take_overwrite: "off + length ys \<le> length xs \<Longrightarrow>
    take (off + length ys) (overwrite off ys xs) = take off xs @ ys"
  by (simp add: overwrite_def)

lemma take_overwrite_before: "n \<le> off \<Longrightarrow> off \<le> length xs \<Longrightarrow> take n (overwrite off ys xs) = take n xs"
  by (simp add: overwrite_def min_def)

lemma drop_overwrite: "off + length ys \<le> n \<Longrightarrow> off + length ys \<le> length xs \<Longrightarrow>
    drop n (overwrite off ys xs) = drop n xs"
  by (simp add: overwrite_def)

lemma segment_overwrite: "off + length ys \<le> length xs \<Longrightarrow> segment off (length ys) (overwrite off ys xs) = ys"
  by (simp add: segment_def overwrite_def)

lemma segment_append_at: "drop off xs = ys @ zs \<Longrightarrow> segment off (length ys) xs = ys"
  by (simp add: segment_def)

lemma drop_add_eq: "drop off xs = ys @ zs \<Longrightarrow> drop (off + length ys) xs = zs"
  by (metis add.commute append_eq_conv_conj drop_drop)

lemma drop_eq_append_length: "drop off xs = ys @ zs \<Longrightarrow> off \<le> length xs \<Longrightarrow> off + length ys + length zs = length xs"
  by (metis append_take_drop_id length_append length_take min.absorb2 add.assoc)

lemma drop_prefix: "drop off xs = ys @ zs \<Longrightarrow> k \<le> length ys \<Longrightarrow> drop (off + k) xs = drop k ys @ zs"
  by (metis add.commute append_Nil diff_is_0_eq' drop0 drop_append drop_drop)

section \<open>Linked chains of buckets\<close>

text \<open>
  \<open>chain nxt p ids\<close>: following \<open>nxt\<close> from \<open>p\<close> visits exactly \<open>ids\<close> and ends at
  \<open>INVALID_ID\<close>.
\<close>

fun chain :: "(nat \<Rightarrow> nat) \<Rightarrow> nat \<Rightarrow> nat list \<Rightarrow> bool" where
  "chain nxt p [] \<longleftrightarrow> p = INVALID_ID"
| "chain nxt p (i # is) \<longleftrightarrow> p = i \<and> i \<noteq> INVALID_ID \<and> chain nxt (nxt i) is"

lemma chain_cong: "(\<And>i. i \<in> set ids \<Longrightarrow> nxt i = nxt' i) \<Longrightarrow> chain nxt p ids = chain nxt' p ids"
  by (induction ids arbitrary: p) auto

lemma chain_upd_notin [simp]: "i \<notin> set ids \<Longrightarrow> chain (nxt(i := x)) p ids = chain nxt p ids"
  by (rule chain_cong) auto

lemma chain_INVALID [simp]: "chain nxt INVALID_ID ids \<longleftrightarrow> ids = []"
  by (cases ids) auto

lemma chain_not_INVALID: "chain nxt p ids \<Longrightarrow> p \<noteq> INVALID_ID \<Longrightarrow> \<exists>is. ids = p # is \<and> chain nxt (nxt p) is"
  by (cases ids) auto

lemma chain_unique: "chain nxt p as \<Longrightarrow> chain nxt p bs \<Longrightarrow> as = bs"
proof (induction as arbitrary: p bs)
  case Nil
  then show ?case by simp
next
  case (Cons a as)
  then show ?case by (cases bs) auto
qed

lemma chain_suffix: "chain nxt p (xs @ i # ys) \<Longrightarrow> chain nxt (nxt i) ys"
  by (induction xs arbitrary: p) auto

lemma chain_mid: "chain nxt p (xs @ i # ys) \<Longrightarrow> chain nxt i (i # ys)"
  by (induction xs arbitrary: p) auto

lemma chain_distinct: "chain nxt p ids \<Longrightarrow> distinct ids"
proof (induction ids arbitrary: p)
  case Nil
  then show ?case by simp
next
  case (Cons i ids)
  have "i \<notin> set ids"
  proof
    assume "i \<in> set ids"
    then obtain us vs where ids: "ids = us @ i # vs"
      by (auto simp: in_set_conv_decomp)
    from Cons.prems have "chain nxt (nxt i) ids" by simp
    moreover from Cons.prems ids have "chain nxt (nxt i) vs"
      using chain_suffix [of nxt p "i # us" i vs] by simp
    ultimately have "ids = vs" by (rule chain_unique)
    with ids show False by simp
  qed
  with Cons show ?case by auto
qed

text \<open>Cutting a chain after a bucket, and hanging a fresh bucket behind its last one.\<close>

lemma chain_cut: "chain nxt p (xs @ i # ys) \<Longrightarrow> i \<notin> set xs \<Longrightarrow>
    chain (nxt(i := INVALID_ID)) p (xs @ [i])"
  by (induction xs arbitrary: p) auto

lemma chain_extend: "chain nxt p (xs @ [i]) \<Longrightarrow> n \<noteq> INVALID_ID \<Longrightarrow> n \<noteq> i \<Longrightarrow> i \<notin> set xs \<Longrightarrow>
    n \<notin> set xs \<Longrightarrow> chain (nxt(i := n, n := INVALID_ID)) p (xs @ [i, n])"
  by (induction xs arbitrary: p) auto

lemma chain_hang:
  assumes ch: "chain nxt p ids" and ne: "ids \<noteq> []" and n: "n \<notin> set ids" "n \<noteq> INVALID_ID"
    and nxt': "\<And>i. i \<in> set ids \<Longrightarrow> nxt' i = (if i = last ids then n else nxt i)" "nxt' n = INVALID_ID"
  shows "chain nxt' p (ids @ [n])"
proof -
  define l where "l = last ids"
  have ids: "ids = butlast ids @ [l]" using ne by (simp add: l_def)
  then have l: "l \<in> set ids" by (metis in_set_conv_decomp)
  have "l \<notin> set (butlast ids)" using chain_distinct [OF ch] by (subst (asm) ids) simp
  moreover have "n \<notin> set (butlast ids)" using n(1) by (auto dest: in_set_butlastD)
  moreover have "chain nxt p (butlast ids @ [l])" using ch ids by simp
  moreover have "n \<noteq> l" using n(1) l by auto
  ultimately have "chain (nxt(l := n, n := INVALID_ID)) p (butlast ids @ [l, n])"
    using n(2) by (intro chain_extend)
  moreover have "butlast ids @ [l, n] = ids @ [n]" by (subst (2) ids) simp
  moreover have "chain (nxt(l := n, n := INVALID_ID)) p (ids @ [n]) = chain nxt' p (ids @ [n])"
    using nxt' n l by (intro chain_cong) (auto simp: l_def)
  ultimately show ?thesis by simp
qed

lemma chain_hd: "chain nxt p ids \<Longrightarrow> ids \<noteq> [] \<Longrightarrow> p \<in> set ids"
  by (cases ids) auto

lemma chain_not_INVALID_mem: "chain nxt p ids \<Longrightarrow> i \<in> set ids \<Longrightarrow> i \<noteq> INVALID_ID"
  by (induction ids arbitrary: p) auto

lemma chain_last_next: "chain nxt p (xs @ [i]) \<Longrightarrow> nxt i = INVALID_ID"
  using chain_suffix [of nxt p xs i "[]"] by simp

lemma chain_next_hd: "chain nxt p (xs @ i # j # ys) \<Longrightarrow> nxt i = j"
  using chain_suffix [of nxt p xs i "j # ys"] by simp

section \<open>Words and arithmetic\<close>

lemma div_eq_iff_range:
  assumes "0 < (d :: nat)"
  shows "i div d = q \<longleftrightarrow> q * d \<le> i \<and> i < q * d + d"
proof
  assume "i div d = q"
  then have "i = q * d + i mod d" using div_mult_mod_eq [of i d] by simp
  moreover have "i mod d < d" using assms by simp
  ultimately show "q * d \<le> i \<and> i < q * d + d" by linarith
next
  assume "q * d \<le> i \<and> i < q * d + d"
  then show "i div d = q" by (intro div_nat_eqI) (simp_all add: mult.commute)
qed

lemma unat_exp: "m < LENGTH('a::len) \<Longrightarrow> unat (push_bit m 1 :: 'a word) = 2 ^ m"
proof -
  assume m: "m < LENGTH('a)"
  have "(push_bit m 1 :: 'a word) = of_nat (2 ^ m)" by simp
  moreover have "(2 :: nat) ^ m < 2 ^ LENGTH('a)" using m by (rule power_strict_increasing) simp
  ultimately show ?thesis by (simp only: unat_of_nat) simp
qed

end
