(* ===== verification/Vbe.thy ===== *)
theory Vbe
  imports Prelude
begin

text \<open>
  The variable byte encoding of \<^verbatim>\<open>src/src/vbe.h\<close>: seven data bits per byte, least significant
  group first, the high bit marks every byte but the last. \<open>write\<close>, \<open>read\<close> and \<open>length\<close> are
  templates over an unsigned integer type \<open>T\<close>, here \<open>'a word\<close>; the container uses them at
  \<^verbatim>\<open>size_t\<close>. The lemmas show that \<open>length\<close> is the number of bytes \<open>write\<close> emits and that
  \<open>read\<close> after \<open>write\<close> returns the value and the end of the encoding, for every 32-bit value and
  for every 64-bit value below \<open>2 ^ 31\<close>. The shift of \<open>read\<close> is done in \<^verbatim>\<open>int\<close>, and the last
  part says what becomes of the other 64-bit values.
\<close>

section \<open>Model\<close>

definition MARK_OFFSET :: nat where
  "MARK_OFFSET = 7"

definition MARK_MASK :: byte where
  "MARK_MASK = 128"

definition DATA_MASK :: byte where
  "DATA_MASK = 127"

text \<open>\<open>vbe::write\<close>: the bytes stored from \<open>ptr\<close> on; the pointer returned is \<open>ptr\<close> advanced by
  their number.\<close>

function vbe_write :: "'a::len word \<Rightarrow> bytes" where
  "vbe_write val =
     (if val > ucast DATA_MASK
      then ucast ((val AND ucast DATA_MASK) OR ucast MARK_MASK) # vbe_write (drop_bit MARK_OFFSET val)
      else [ucast val])"
  by pat_completeness auto
termination
proof (relation "measure unat", goal_cases)
  case 1
  then show ?case by simp
next
  case (2 val)
  then have pos: "0 < unat val"
    by (metis not_less_zero unat_eq_0 word_gt_0 word_less_nat_alt zero_less_iff_neq_zero)
  have "unat (drop_bit MARK_OFFSET val) = unat val div 2 ^ 7"
    by (simp only: MARK_OFFSET_def unat_drop_bit_eq) (simp add: drop_bit_eq_div)
  also have "\<dots> < unat val"
    using pos by (intro div_less_dividend) auto
  finally show ?case by simp
qed

declare vbe_write.simps [simp del]

text \<open>\<open>vbe::read\<close>. A byte is promoted to \<^verbatim>\<open>int\<close> before it is shifted: the shift is modulo
  \<open>2 ^ 32\<close> (C++20), undefined from 32 on, and the \<^verbatim>\<open>int\<close> is converted to \<open>T\<close> with its sign.\<close>

definition int_shl :: "byte \<Rightarrow> nat \<Rightarrow> 'a::len word result" where
  "int_shl b offset =
     (if offset < 32 then Inr (scast (push_bit offset (ucast b :: 32 word))) else Inl Undefined)"

function vbe_read_loop :: "bytes \<Rightarrow> nat \<Rightarrow> nat \<Rightarrow> 'a::len word \<Rightarrow> ('a word \<times> nat) result" where
  "vbe_read_loop mem ptr offset val =
     (if ptr < length mem then
        (if mem ! ptr AND MARK_MASK \<noteq> 0 then
           (case int_shl (mem ! ptr AND DATA_MASK) offset of
              Inl e \<Rightarrow> Inl e
            | Inr d \<Rightarrow> vbe_read_loop mem (ptr + 1) (offset + MARK_OFFSET) (val OR d))
         else
           (case int_shl (mem ! ptr) offset of
              Inl e \<Rightarrow> Inl e
            | Inr d \<Rightarrow> Inr (val OR d, ptr + 1)))
      else Inl Bad_access)"
  by pat_completeness auto
termination
  by (relation "measure (\<lambda>(mem, ptr, _, _). length mem - ptr)") auto

declare vbe_read_loop.simps [simp del]

definition vbe_read :: "bytes \<Rightarrow> nat \<Rightarrow> ('a::len word \<times> nat) result" where
  "vbe_read mem ptr = vbe_read_loop mem ptr 0 0"

text \<open>\<open>vbe::length\<close>, with \<^verbatim>\<open>std::bit_width\<close>.\<close>

fun bit_width :: "nat \<Rightarrow> nat" where
  "bit_width n = (if n = 0 then 0 else Suc (bit_width (n div 2)))"

declare bit_width.simps [simp del]

definition vbe_length :: "'a::len word \<Rightarrow> nat" where
  "vbe_length val = (if val = 0 then 1 else (bit_width (unat val) - 1) div MARK_OFFSET + 1)"

section \<open>The length of an encoding\<close>

lemma bit_width_small: "n < 2 ^ k \<Longrightarrow> bit_width n \<le> k"
proof (induction k arbitrary: n)
  case 0
  then show ?case by (simp add: bit_width.simps)
next
  case (Suc k)
  then have "n div 2 < 2 ^ k" by (simp add: less_mult_imp_div_less mult.commute)
  then have "bit_width (n div 2) \<le> k" by (rule Suc.IH)
  then show ?case by (simp add: bit_width.simps [of n])
qed

lemma bit_width_drop: "2 ^ k \<le> n \<Longrightarrow> bit_width n = bit_width (n div 2 ^ k) + k"
proof (induction k arbitrary: n)
  case 0
  then show ?case by simp
next
  case (Suc k)
  then have "2 ^ k \<le> n div 2"
    by (simp add: less_eq_div_iff_mult_less_eq mult.commute)
  then have "bit_width (n div 2) = bit_width (n div 2 div 2 ^ k) + k" by (rule Suc.IH)
  moreover have "bit_width n = Suc (bit_width (n div 2))"
    using Suc.prems by (subst bit_width.simps) (use not_less_eq_eq in fastforce)
  ultimately show ?case by (simp add: div_mult2_eq)
qed

lemma bit_width_pos: "0 < n \<Longrightarrow> 0 < bit_width n"
  by (simp add: bit_width.simps [of n])

lemma unat_DATA_MASK: "8 \<le> LENGTH('a::len) \<Longrightarrow> unat (ucast DATA_MASK :: 'a word) = 127"
proof -
  assume "8 \<le> LENGTH('a)"
  then have "(2::nat) ^ 8 \<le> 2 ^ LENGTH('a)" by (rule power_increasing) simp
  then show ?thesis by (simp add: DATA_MASK_def unsigned_ucast_eq take_bit_nat_eq_self)
qed

lemma above_DATA_MASK: "8 \<le> LENGTH('a::len) \<Longrightarrow> (val > (ucast DATA_MASK :: 'a word)) = (128 \<le> unat val)"
  by (auto simp: word_less_nat_alt unat_DATA_MASK)

lemma length_vbe_write:
  assumes "8 \<le> LENGTH('a::len)"
  shows "length (vbe_write (val :: 'a word)) = vbe_length val"
proof (induction val rule: vbe_write.induct)
  case (1 val)
  show ?case
  proof (cases "128 \<le> unat val")
    case True
    let ?d = "unat val div 2 ^ 7"
    have d: "unat (drop_bit MARK_OFFSET val) = ?d"
      by (simp only: MARK_OFFSET_def unat_drop_bit_eq) (simp add: drop_bit_eq_div)
    have pos: "0 < ?d" using True by (simp add: div_greater_zero_iff)
    then have nz: "drop_bit MARK_OFFSET val \<noteq> 0" using d by (metis less_irrefl unat_0)
    have "bit_width (unat val) = bit_width ?d + 7"
      using bit_width_drop [of 7 "unat val"] True by simp
    moreover have "0 < bit_width ?d" using pos by (rule bit_width_pos)
    ultimately have "vbe_length val = Suc (vbe_length (drop_bit MARK_OFFSET val))"
      using nz d True by (auto simp: vbe_length_def MARK_OFFSET_def)
    with 1 True assms show ?thesis
      by (simp add: vbe_write.simps [of val] above_DATA_MASK)
  next
    case False
    then have "bit_width (unat val) \<le> 7" by (intro bit_width_small) simp
    with False assms show ?thesis
      by (simp add: vbe_write.simps [of val] above_DATA_MASK vbe_length_def MARK_OFFSET_def)
  qed
qed

lemma vbe_write_not_Nil [simp]: "vbe_write val \<noteq> []"
  by (subst vbe_write.simps) simp

section \<open>Reading back what was written\<close>

lemma int_shl_exact:
  assumes "offset < 32" and "\<And>n. bit b n \<Longrightarrow> offset + n < 31 \<or> LENGTH('a::len) \<le> 32"
  shows "int_shl b offset = Inr (push_bit offset (ucast b) :: 'a word)"
proof -
  have "scast (push_bit offset (ucast b :: 32 word)) = (push_bit offset (ucast b) :: 'a word)"
  proof (rule bit_word_eqI)
    fix n assume n: "n < LENGTH('a)"
    show "bit (scast (push_bit offset (ucast b :: 32 word)) :: 'a word) n =
          bit (push_bit offset (ucast b) :: 'a word) n"
    proof (cases "n < 32")
      case True
      then have "min 31 n = n" by simp
      with n True show ?thesis
        by (auto simp: bit_signed_iff bit_push_bit_iff bit_unsigned_iff dest: bit_imp_le_length)
    next
      case False
      then have "\<not> bit b (n - offset)" "\<not> bit b (31 - offset)"
        using assms n by force+
      with False n assms(1) show ?thesis
        by (auto simp: bit_signed_iff bit_push_bit_iff bit_unsigned_iff min_def)
    qed
  qed
  with assms(1) show ?thesis by (simp add: int_shl_def)
qed

text \<open>The values \<open>read\<close> handles: all of a type of at most 32 bits, those below \<open>2 ^ 31\<close> of a
  wider one.\<close>

definition vbe_range :: "'a::len word \<Rightarrow> bool" where
  "vbe_range v \<longleftrightarrow> LENGTH('a) \<le> 32 \<or> unat v < 2 ^ 31"

lemma unat_less_exp_bit:
  assumes "unat (v :: 'a::len word) < 2 ^ k" and "bit v n"
  shows "n < k"
proof (rule ccontr)
  assume "\<not> n < k"
  then have "(2::nat) ^ k \<le> 2 ^ n" by (intro power_increasing) auto
  with assms(1) have "unat v < 2 ^ n" by linarith
  then have "\<not> bit (unat v) n" by (simp add: bit_iff_odd)
  with assms(2) show False by (simp add: bit_unsigned_iff)
qed

lemma vbe_range_bit: "vbe_range (v :: 'a::len word) \<Longrightarrow> bit v n \<Longrightarrow> n < 31 \<or> LENGTH('a) \<le> 32"
  using unat_less_exp_bit [of v 31 n] by (auto simp: vbe_range_def)

lemma bit_masks [simp]: "bit MARK_MASK n \<longleftrightarrow> n = 7" "bit DATA_MASK n \<longleftrightarrow> n < 7"
proof -
  have m: "MARK_MASK = push_bit 7 1" "DATA_MASK = mask 7"
    by (simp_all add: MARK_MASK_def DATA_MASK_def mask_eq_exp_minus_1)
  show "bit MARK_MASK n \<longleftrightarrow> n = 7" by (simp only: m bit_push_bit_iff bit_1_iff) auto
  show "bit DATA_MASK n \<longleftrightarrow> n < 7" by (simp only: m bit_mask_iff) auto
qed

lemma MARK_MASK_test: "b AND MARK_MASK \<noteq> 0 \<longleftrightarrow> bit b 7"
  by (simp add: bit_iff_and_push_bit_not_eq_0 MARK_MASK_def)

lemma marked_byte:
  assumes "8 \<le> LENGTH('a::len)"
  shows "(ucast (((w :: 'a word) AND ucast DATA_MASK) OR ucast MARK_MASK) :: byte) AND MARK_MASK \<noteq> 0"
    and "(ucast ((w AND ucast DATA_MASK) OR ucast MARK_MASK) :: byte) AND DATA_MASK = ucast (take_bit 7 w)"
proof -
  let ?b = "ucast ((w AND ucast DATA_MASK) OR ucast MARK_MASK) :: byte"
  show "?b AND MARK_MASK \<noteq> 0"
    using assms by (simp add: MARK_MASK_test bit_unsigned_iff bit_or_iff)
  show "?b AND DATA_MASK = ucast (take_bit 7 w)"
    by (rule bit_word_eqI)
      (use assms in \<open>auto simp: bit_unsigned_iff bit_or_iff bit_and_iff bit_take_bit_iff\<close>)
qed

lemma unmarked_byte:
  assumes "8 \<le> LENGTH('a::len)" and "\<not> (w :: 'a word) > ucast DATA_MASK"
  shows "(ucast w :: byte) AND MARK_MASK = 0" and "(ucast (ucast w :: byte) :: 'a word) = w"
proof -
  have "unat w < 2 ^ 7" using assms above_DATA_MASK [of w] by simp
  then have hi: "n < 7" if "bit w n" for n
    using that by (rule unat_less_exp_bit)
  then show "(ucast w :: byte) AND MARK_MASK = 0"
    using MARK_MASK_test [of "ucast w"] by (auto simp: bit_unsigned_iff)
  show "(ucast (ucast w :: byte) :: 'a word) = w"
    by (rule bit_word_eqI) (use hi in \<open>force simp: bit_unsigned_iff\<close>)
qed

lemma vbe_range_offset:
  assumes "vbe_range (v :: 'a::len word)" and "8 \<le> LENGTH('a)" and "drop_bit offset v > ucast DATA_MASK"
  shows "offset + 7 < 32"
proof -
  have "128 \<le> unat v div 2 ^ offset"
    using assms(3) above_DATA_MASK [OF assms(2), of "drop_bit offset v"]
    by (simp only: unat_drop_bit_eq) (simp add: drop_bit_eq_div)
  then have "2 ^ (offset + 7) \<le> unat v"
    by (simp add: less_eq_div_iff_mult_less_eq power_add mult.commute)
  moreover have "unat v < 2 ^ 32"
  proof (cases "LENGTH('a) \<le> 32")
    case True
    have "unat v < 2 ^ LENGTH('a)" by (rule unsigned_less)
    also have "\<dots> \<le> 2 ^ 32" using True by (intro power_increasing) auto
    finally show ?thesis .
  next
    case False
    with assms(1) show ?thesis by (simp add: vbe_range_def)
  qed
  ultimately have "(2 :: nat) ^ (offset + 7) < 2 ^ 32" by linarith
  then show ?thesis by (rule power_less_imp_less_exp [rotated]) simp
qed

lemma int_shl_group:
  assumes "vbe_range (v :: 'a::len word)" and "offset < 32"
    and "\<And>n. bit b n \<Longrightarrow> bit (drop_bit offset v) n"
  shows "int_shl b offset = Inr (push_bit offset (ucast b) :: 'a word)"
  using assms(2)
proof (rule int_shl_exact)
  fix n assume "bit b n"
  then have "bit v (offset + n)" using assms(3) by (simp add: bit_drop_bit_eq add.commute)
  with assms(1) show "offset + n < 31 \<or> LENGTH('a) \<le> 32" by (rule vbe_range_bit)
qed

lemma take_bit_OR_group:
  "take_bit offset v OR push_bit offset (take_bit k (drop_bit offset v)) = take_bit (offset + k) (v :: 'a::len word)"
  by (rule bit_word_eqI) (auto simp: bit_take_bit_iff bit_or_iff bit_push_bit_iff bit_drop_bit_eq)

lemma take_bit_OR_rest:
  "take_bit offset v OR push_bit offset (drop_bit offset v) = (v :: 'a::len word)"
proof (rule bit_word_eqI)
  fix n assume "n < LENGTH('a)"
  then show "bit (take_bit offset v OR push_bit offset (drop_bit offset v)) n = bit v n"
    by (cases "n < offset") (auto simp: bit_take_bit_iff bit_or_iff bit_push_bit_iff bit_drop_bit_eq)
qed

lemma vbe_read_loop_write:
  assumes v: "vbe_range (v :: 'a::len word)" and len: "8 \<le> LENGTH('a)" and "offset < 32"
    and "drop ptr mem = vbe_write (drop_bit offset v) @ rest"
  shows "vbe_read_loop mem ptr offset (take_bit offset v) =
         Inr (v, ptr + length (vbe_write (drop_bit offset v)))"
  using assms(3,4)
proof (induction "drop_bit offset v" arbitrary: offset ptr rule: vbe_write.induct)
  case 1
  let ?w = "drop_bit offset v"
  have ptr: "ptr < length mem"
    using "1.prems" by (metis append_is_Nil_conv drop_eq_Nil not_le vbe_write_not_Nil)
  show ?case
  proof (cases "?w > ucast DATA_MASK")
    case True
    let ?b = "ucast ((?w AND ucast DATA_MASK) OR ucast MARK_MASK) :: byte"
    have next_w: "drop_bit MARK_OFFSET ?w = drop_bit (offset + MARK_OFFSET) v"
      by (simp add: add.commute)
    have "drop ptr mem = ?b # vbe_write (drop_bit (offset + MARK_OFFSET) v) @ rest"
      using "1.prems"(2) True by (simp add: vbe_write.simps [of ?w] add.commute)
    then have nth: "mem ! ptr = ?b"
      and rest: "drop (ptr + 1) mem = vbe_write (drop_bit (offset + MARK_OFFSET) v) @ rest"
      using ptr by (simp_all add: Cons_nth_drop_Suc [symmetric])
    have "int_shl (ucast (take_bit 7 ?w)) offset = Inr (push_bit offset (ucast (ucast (take_bit 7 ?w) :: byte)) :: 'a word)"
      by (rule int_shl_group [OF v "1.prems"(1)]) (auto simp: bit_unsigned_iff bit_take_bit_iff)
    also have "ucast (ucast (take_bit 7 ?w) :: byte) = take_bit 7 ?w"
      by (rule bit_word_eqI) (auto simp: bit_unsigned_iff bit_take_bit_iff)
    finally have shl: "int_shl (?b AND DATA_MASK) offset = Inr (push_bit offset (take_bit 7 ?w))"
      using marked_byte(2) [OF len] by simp
    have "vbe_read_loop mem ptr offset (take_bit offset v) =
          vbe_read_loop mem (ptr + 1) (offset + MARK_OFFSET) (take_bit (offset + MARK_OFFSET) v)"
      using ptr marked_byte(1) [OF len, of ?w] shl
      by (simp add: vbe_read_loop.simps [of mem ptr] nth take_bit_OR_group MARK_OFFSET_def)
    also have "\<dots> = Inr (v, ptr + 1 + length (vbe_write (drop_bit (offset + MARK_OFFSET) v)))"
    proof (rule "1.hyps" [OF True next_w])
      show "offset + MARK_OFFSET < 32" using vbe_range_offset [OF v len True] by (simp add: MARK_OFFSET_def)
    qed (rule rest)
    finally show ?thesis using True by (simp add: vbe_write.simps [of ?w] add.commute)
  next
    case False
    have nth: "mem ! ptr = ucast ?w"
      using "1.prems"(2) False ptr by (simp add: vbe_write.simps [of ?w] Cons_nth_drop_Suc [symmetric])
    have "int_shl (ucast ?w) offset = Inr (push_bit offset (ucast (ucast ?w :: byte)) :: 'a word)"
      by (rule int_shl_group [OF v "1.prems"(1)]) (auto simp: bit_unsigned_iff)
    then have "int_shl (ucast ?w) offset = Inr (push_bit offset ?w)"
      using unmarked_byte(2) [OF len False] by simp
    then show ?thesis
      using False ptr nth unmarked_byte(1) [OF len False]
      by (simp add: vbe_read_loop.simps [of mem ptr] vbe_write.simps [of ?w] take_bit_OR_rest)
  qed
qed

lemma vbe_read_write:
  assumes "vbe_range (v :: 'a::len word)" and "8 \<le> LENGTH('a)" and "drop ptr mem = vbe_write v @ rest"
  shows "vbe_read mem ptr = Inr (v, ptr + vbe_length v)"
  using vbe_read_loop_write [of v 0 ptr mem rest] assms by (simp add: vbe_read_def length_vbe_write)

section \<open>Beyond the range\<close>

text \<open>The read of an arbitrary 64-bit length: four groups are read as they were written, the fifth is shifted to the end of an
  \<^verbatim>\<open>int\<close>, and a sixth cannot be shifted.\<close>

lemma bit_sint_shift: "bit (scast (push_bit 28 (ucast b :: 32 word)) :: size_t) n \<longleftrightarrow> n < 64 \<and> 28 \<le> min 31 n \<and> bit b (min 31 n - 28)" for b :: byte
  by (auto simp: bit_signed_iff bit_push_bit_iff bit_unsigned_iff min_def dest: bit_imp_le_length)

lemma low_groups_exact:
  assumes "offset < 28" and "\<And>n. bit b n \<Longrightarrow> n < 7" and "offset mod 7 = 0"
  shows "int_shl b offset = Inr (push_bit offset (ucast b) :: size_t)"
proof (rule int_shl_exact)
  have "offset \<le> 21" using assms(1,3) by presburger
  then show "offset + n < 31 \<or> LENGTH(64) \<le> 32" if "bit b n" for n using assms(2) [OF that] by linarith
qed (use assms(1) in simp)

lemma last_group:
  fixes v :: size_t
  assumes "unat v < 2 ^ 35"
  shows "take_bit 28 v OR scast (push_bit 28 (ucast (ucast (drop_bit 28 v) :: byte) :: 32 word)) = scast (ucast v :: 32 word)"
proof (rule bit_word_eqI)
  fix n assume "n < LENGTH(64)"
  then have n: "n < 64" by simp
  let ?l = "take_bit 28 v OR scast (push_bit 28 (ucast (ucast (drop_bit 28 v) :: byte) :: 32 word))"
  have r: "bit (scast (ucast v :: 32 word) :: size_t) n \<longleftrightarrow> bit v (min 31 n)" using n by (auto simp: bit_signed_iff bit_unsigned_iff min_def)
  show "bit ?l n = bit (scast (ucast v :: 32 word) :: size_t) n"
  proof (cases "n < 28")
    case True
    then have "min 31 n = n" by simp
    then show ?thesis unfolding r using n True by (simp add: bit_or_iff bit_take_bit_iff bit_sint_shift)
  next
    case False
    then have m: "28 \<le> min 31 n" "28 + (min 31 n - 28) = min 31 n" by simp_all
    have "bit (ucast (drop_bit 28 v) :: byte) (min 31 n - 28) \<longleftrightarrow> bit v (28 + (min 31 n - 28))"
      by (auto simp: bit_unsigned_iff bit_drop_bit_eq)
    then show ?thesis unfolding r using n False m by (simp add: bit_or_iff bit_take_bit_iff bit_sint_shift)
  qed
qed

lemma scast_low:
  fixes v :: size_t
  shows "unat v < 2 ^ 31 \<Longrightarrow> v = scast (ucast v :: 32 word)"
    and "v = scast (ucast v :: 32 word) \<Longrightarrow> unat v < 2 ^ 35 \<Longrightarrow> unat v < 2 ^ 31"
proof -
  have b: "bit (scast (ucast v :: 32 word) :: size_t) n \<longleftrightarrow> n < 64 \<and> bit v (min 31 n)" for n
    by (auto simp: bit_signed_iff bit_unsigned_iff)
  show "v = scast (ucast v :: 32 word)" if "unat v < 2 ^ 31"
    by (rule bit_word_eqI) (use unat_less_exp_bit [OF that] in \<open>force simp: b min_def\<close>)
  show "unat v < 2 ^ 31" if "v = scast (ucast v :: 32 word)" "unat v < 2 ^ 35"
  proof -
    have "\<not> bit v 63" using unat_less_exp_bit [OF that(2), of 63] by auto
    then have "\<not> bit v 31" using b [of 63] that(1) by simp
    then have no: "\<not> bit v n" if "31 \<le> n" "n < 64" for n using b [of n] \<open>v = _\<close> that by simp
    have "v = take_bit 31 v"
    proof (rule bit_word_eqI)
      fix n assume "n < LENGTH(64)"
      then show "bit v n = bit (take_bit 31 v) n" using no [of n] by (cases "n < 31") (simp_all add: bit_take_bit_iff)
    qed
    then have "unat v = take_bit 31 (unat v)" by (metis unsigned_take_bit_eq)
    then show ?thesis using take_bit_nat_less_exp [of 31 "unat v"] by simp
  qed
qed

lemma vbe_read_loop_limits:
  fixes v :: size_t
  assumes "offset \<le> 28" and "offset mod 7 = 0" and "drop ptr mem = vbe_write (drop_bit offset v) @ rest"
  shows "vbe_read_loop mem ptr offset (take_bit offset v) =
    (if unat v < 2 ^ 35 then Inr (scast (ucast v :: 32 word), ptr + length (vbe_write (drop_bit offset v))) else Inl Undefined)"
  using assms
proof (induction "drop_bit offset v" arbitrary: offset ptr rule: vbe_write.induct)
  case 1
  let ?w = "drop_bit offset v"
  have len: "8 \<le> LENGTH(64)" by simp
  have ptr: "ptr < length mem"
    using "1.prems" by (metis append_is_Nil_conv drop_eq_Nil not_le vbe_write_not_Nil)
  have above: "?w > ucast DATA_MASK \<longleftrightarrow> 2 ^ (offset + 7) \<le> unat v"
    unfolding above_DATA_MASK [OF len] unat_drop_bit_eq
    by (simp add: drop_bit_eq_div less_eq_div_iff_mult_less_eq power_add mult.commute)
  consider (more) "?w > ucast DATA_MASK" "offset < 28" | (far) "?w > ucast DATA_MASK" "offset = 28" | (fin) "\<not> ?w > ucast DATA_MASK"
    using "1.prems"(1) by linarith
  then show ?case
  proof cases
    case more
    let ?b = "ucast ((?w AND ucast DATA_MASK) OR ucast MARK_MASK) :: byte"
    have next_w: "drop_bit MARK_OFFSET ?w = drop_bit (offset + MARK_OFFSET) v" by (simp add: add.commute)
    have "drop ptr mem = ?b # vbe_write (drop_bit (offset + MARK_OFFSET) v) @ rest"
      using "1.prems"(3) more by (simp add: vbe_write.simps [of ?w] add.commute)
    then have nth: "mem ! ptr = ?b" and rest: "drop (ptr + 1) mem = vbe_write (drop_bit (offset + MARK_OFFSET) v) @ rest"
      using ptr by (simp_all add: Cons_nth_drop_Suc [symmetric])
    have "int_shl (ucast (take_bit 7 ?w)) offset = Inr (push_bit offset (ucast (ucast (take_bit 7 ?w) :: byte)) :: size_t)"
      by (rule low_groups_exact [OF more(2)]) (use "1.prems"(2) in \<open>auto simp: bit_unsigned_iff bit_take_bit_iff\<close>)
    also have "ucast (ucast (take_bit 7 ?w) :: byte) = take_bit 7 ?w"
      by (rule bit_word_eqI) (auto simp: bit_unsigned_iff bit_take_bit_iff)
    finally have shl: "int_shl (?b AND DATA_MASK) offset = Inr (push_bit offset (take_bit 7 ?w))"
      using marked_byte(2) [OF len] by simp
    have "vbe_read_loop mem ptr offset (take_bit offset v) =
          vbe_read_loop mem (ptr + 1) (offset + MARK_OFFSET) (take_bit (offset + MARK_OFFSET) v)"
      using ptr marked_byte(1) [OF len, of ?w] shl
      by (simp add: vbe_read_loop.simps [of mem ptr] nth take_bit_OR_group MARK_OFFSET_def)
    also have "\<dots> = (if unat v < 2 ^ 35 then Inr (scast (ucast v :: 32 word), ptr + 1 + length (vbe_write (drop_bit (offset + MARK_OFFSET) v)))
        else Inl Undefined)"
    proof (rule "1.hyps" [OF more(1) next_w])
      show "offset + MARK_OFFSET \<le> 28" "(offset + MARK_OFFSET) mod 7 = 0"
        using more(2) "1.prems"(2) unfolding MARK_OFFSET_def by presburger+
    qed (rule rest)
    finally show ?thesis using more by (simp add: vbe_write.simps [of ?w] add.commute)
  next
    case far
    let ?b = "ucast ((?w AND ucast DATA_MASK) OR ucast MARK_MASK) :: byte"
    obtain c cs where c: "vbe_write (drop_bit MARK_OFFSET ?w) = c # cs" by (meson neq_Nil_conv vbe_write_not_Nil)
    then have mem: "drop ptr mem = ?b # c # cs @ rest" using "1.prems"(3) far(1) by (simp only: vbe_write.simps [of ?w] if_True append.simps)
    then have nth: "mem ! ptr = ?b" and ptr1: "drop (ptr + 1) mem = c # cs @ rest"
      using ptr by (simp_all add: Cons_nth_drop_Suc [symmetric])
    then have l: "ptr + 1 < length mem" by (metis drop_eq_Nil list.distinct(1) not_le)
    have "int_shl b 28 = Inr (scast (push_bit 28 (ucast b :: 32 word)) :: size_t)" for b by (simp add: int_shl_def)
    moreover have "int_shl b 35 = (Inl Undefined :: size_t result)" for b by (simp add: int_shl_def)
    ultimately have "vbe_read_loop mem ptr 28 (take_bit 28 v) = Inl Undefined"
      using ptr l marked_byte(1) [OF len, of ?w] unfolding vbe_read_loop.simps [of mem ptr]
      by (simp add: nth vbe_read_loop.simps [of mem "Suc ptr"] MARK_OFFSET_def)
    moreover have "\<not> unat v < 2 ^ 35" using far above by simp
    ultimately show ?thesis using far(2) by simp
  next
    case fin
    have small: "unat v < 2 ^ 35"
    proof -
      have "unat v < 2 ^ (offset + 7)" using fin above by simp
      also have "\<dots> \<le> 2 ^ 35" using "1.prems"(1) by (intro power_increasing) auto
      finally show ?thesis .
    qed
    have nth: "mem ! ptr = ucast ?w"
      using "1.prems"(3) fin ptr by (simp add: vbe_write.simps [of ?w] Cons_nth_drop_Suc [symmetric])
    have "\<exists>d. int_shl (ucast ?w) offset = Inr d \<and> take_bit offset v OR d = scast (ucast v :: 32 word)"
    proof (cases "offset < 28")
      case True
      have "int_shl (ucast ?w) offset = Inr (push_bit offset (ucast (ucast ?w :: byte)) :: size_t)"
      proof (rule low_groups_exact [OF True])
        have "unat ?w < 2 ^ 7" using fin above_DATA_MASK [OF len, of ?w] by simp
        then show "n < 7" if "bit (ucast ?w :: byte) n" for n
          using unat_less_exp_bit [of ?w 7 n] that by (simp add: bit_unsigned_iff)
      qed (rule "1.prems"(2))
      then have "int_shl (ucast ?w) offset = Inr (push_bit offset ?w)" using unmarked_byte(2) [OF len fin] by simp
      moreover have "v = scast (ucast v :: 32 word)"
      proof (rule scast_low)
        have "(2 :: nat) ^ (offset + 7) \<le> 2 ^ 28" using True "1.prems"(2) by (intro power_increasing) presburger+
        then show "unat v < 2 ^ 31" using fin above by simp
      qed
      ultimately show ?thesis by (simp add: take_bit_OR_rest)
    next
      case False
      then have "offset = 28" using "1.prems"(1) by simp
      then show ?thesis using last_group [OF small] by (simp add: int_shl_def)
    qed
    then show ?thesis
      using fin ptr nth unmarked_byte(1) [OF len fin] small
      by (auto simp: vbe_read_loop.simps [of mem ptr] vbe_write.simps [of ?w])
  qed
qed

section \<open>Properties\<close>

text \<open>C24. Reading back an encoded length gives the length and the position behind it: for every value
  of a type of up to 32 bits, and for every 64-bit value below \<open>2 ^ 31\<close>.\<close>

theorem vbe_roundtrip:
  assumes "vbe_range (v :: 'a::len word)" and "8 \<le> LENGTH('a)"
  shows "vbe_read (before @ vbe_write v @ rest) (length before) = Inr (v, length before + length (vbe_write v))"
  using vbe_read_write [OF assms, of "length before" "before @ vbe_write v @ rest" rest] assms(2)
  by (simp add: length_vbe_write)

theorem vbe_roundtrip_witness:
  "vbe_read ([1, 2] @ vbe_write (300 :: size_t) @ [9]) 2 = Inr (300 :: size_t, 4)"
proof -
  have "vbe_write (300 :: size_t) = [172, 2]"
    by (simp add: vbe_write.simps DATA_MASK_def MARK_MASK_def MARK_OFFSET_def drop_bit_eq_div)
  moreover have "vbe_range (300 :: size_t)" "8 \<le> LENGTH(64)" by (simp_all add: vbe_range_def)
  ultimately show ?thesis using vbe_roundtrip [of "300 :: size_t" "[1, 2]" "[9]"] by (simp add: eval_nat_numeral)
qed

text \<open>\<open>vbe::length\<close> is the number of bytes \<open>vbe::write\<close> stores, for every \<^verbatim>\<open>size_t\<close>: the space
  \<open>create_record\<close> reserves is the space it fills.\<close>

theorem vbe_length_written: "length (vbe_write (v :: size_t)) = vbe_length v"
  by (rule length_vbe_write) simp

text \<open>C39. What \<open>vbe::read\<close> makes of every 64-bit length that \<open>vbe::write\<close> stores, since it shifts in \<^verbatim>\<open>int\<close>: below \<open>2 ^ 35\<close> the low
  32 bits, sign-extended, so that the length is read back exactly if it is below \<open>2 ^ 31\<close>; from \<open>2 ^ 35\<close> on a shift by 35,
  which is undefined.\<close>

theorem vbe_read_limits:
  fixes v :: size_t
  shows "vbe_read (before @ vbe_write v @ rest) (length before) =
      (if unat v < 2 ^ 35 then Inr (scast (ucast v :: 32 word) :: size_t, length before + length (vbe_write v)) else Inl Undefined)
    \<and> (vbe_read (before @ vbe_write v @ rest) (length before) = Inr (v, length before + length (vbe_write v)) \<longleftrightarrow> unat v < 2 ^ 31)"
proof -
  have read: "vbe_read (before @ vbe_write v @ rest) (length before) =
      (if unat v < 2 ^ 35 then Inr (scast (ucast v :: 32 word) :: size_t, length before + length (vbe_write v)) else Inl Undefined)"
    using vbe_read_loop_limits [of 0 "length before" "before @ vbe_write v @ rest" v rest]
    by (cases "unat v < 2 ^ 35") (simp_all add: vbe_read_def)
  show ?thesis
  proof (cases "unat v < 2 ^ 35")
    case True
    then show ?thesis using read scast_low [of v] by auto
  next
    case False
    then show ?thesis using read by simp
  qed
qed

end
