(* ===== verification/Records.thy ===== *)
theory Records
  imports Vbe
begin

text \<open>
  The records packed into a bucket (\<^verbatim>\<open>src/src/container.cpp\<close>): four bytes of hash in memory order
  (little endian), the two lengths in variable byte encoding, the bytes of the key and of the value.
  \<open>enc\<close> is the packing; \<open>read_header\<close> and the two scans are the parsing loops of \<open>find_value\<close>,
  \<open>remove_record\<close>, \<open>split\<close> and \<open>read_record\<close> over the bytes of one bucket. The lemmas show that
  parsing a packed bucket visits exactly its records.
\<close>

section \<open>Model\<close>

text \<open>\<open>record_view\<close> of \<^verbatim>\<open>container.h\<close>, with the bytes the two views cover.\<close>

record record_view =
  rv_hash :: hash_t
  rv_key :: bytes
  rv_value :: bytes

definition hash_bytes :: "hash_t \<Rightarrow> bytes" where
  "hash_bytes h = [ucast h, ucast (drop_bit 8 h), ucast (drop_bit 16 h), ucast (drop_bit 24 h)]"

fun bytes_hash :: "bytes \<Rightarrow> hash_t" where
  "bytes_hash [] = 0"
| "bytes_hash (b # bs) = ucast b OR push_bit 8 (bytes_hash bs)"

definition size_word :: "bytes \<Rightarrow> size_t" where
  "size_word xs = of_nat (length xs)"

text \<open>The bytes \<open>create_record\<close> copies behind the used part of a bucket.\<close>

definition enc_header :: "hash_t \<Rightarrow> bytes \<Rightarrow> bytes \<Rightarrow> bytes" where
  "enc_header hash key value = hash_bytes hash @ vbe_write (size_word key) @ vbe_write (size_word value)"

definition enc :: "record_view \<Rightarrow> bytes" where
  "enc r = enc_header (rv_hash r) (rv_key r) (rv_value r) @ rv_key r @ rv_value r"

text \<open>\<open>bytes_required\<close> of \<open>create_record\<close>.\<close>

definition bytes_required :: "bytes \<Rightarrow> bytes \<Rightarrow> nat" where
  "bytes_required key value =
     4 + vbe_length (size_word key) + length key + vbe_length (size_word value) + length value"

text \<open>The head of each parsing loop: the hash, the two lengths, and the cursor behind them.\<close>

definition read_header :: "bytes \<Rightarrow> nat \<Rightarrow> (hash_t \<times> nat \<times> nat \<times> nat) result" where
  "read_header mem cur =
     (if cur + 4 \<le> length mem then
        bind_r (vbe_read mem (cur + 4)) (\<lambda>(key_length :: size_t, c1).
        bind_r (vbe_read mem c1) (\<lambda>(value_length :: size_t, c2).
        Inr (bytes_hash (segment cur 4 mem), unat key_length, unat value_length, c2)))
      else Inl Bad_access)"

lemma vbe_read_loop_progress: "vbe_read_loop mem ptr offset val = Inr (v, p) \<Longrightarrow> ptr < p \<and> p \<le> length mem"
proof (induction mem ptr offset val rule: vbe_read_loop.induct)
  case (1 mem ptr offset val)
  from "1.prems" have ptr: "ptr < length mem"
    by (subst (asm) vbe_read_loop.simps) (auto split: if_splits)
  show ?case
  proof (cases "mem ! ptr AND MARK_MASK \<noteq> 0")
    case True
    with "1.prems" ptr obtain d where d: "int_shl (mem ! ptr AND DATA_MASK) offset = Inr d"
      and rec: "vbe_read_loop mem (ptr + 1) (offset + MARK_OFFSET) (val OR d) = Inr (v, p)"
      by (subst (asm) vbe_read_loop.simps) (auto split: sum.splits)
    from "1.IH" [OF ptr True d rec] show ?thesis by simp
  next
    case False
    with "1.prems" ptr show ?thesis
      by (subst (asm) vbe_read_loop.simps) (auto split: sum.splits)
  qed
qed

lemma read_header_progress:
  assumes "read_header mem cur = Inr (h, kl, vl, c)"
  shows "cur < c" and "c \<le> length mem"
  using assms
  by (auto simp: read_header_def bind_r_eq_Inr vbe_read_def split: if_splits dest!: vbe_read_loop_progress)

text \<open>The inner loop of \<open>find_value\<close>: the offset and the size of the value of the first record with
  this hash and key.\<close>

function find_scan :: "bytes \<Rightarrow> nat \<Rightarrow> nat \<Rightarrow> hash_t \<Rightarrow> bytes \<Rightarrow> (nat \<times> nat) option result" where
  "find_scan mem cur used hash key =
     (if cur = used then Inr None
      else case read_header mem cur of
        Inl e \<Rightarrow> Inl e
      | Inr (record_hash, key_length, value_length, c) \<Rightarrow>
          if record_hash = hash \<and> length key = key_length \<and> length mem < c + key_length then Inl Bad_access
          else if record_hash = hash \<and> length key = key_length \<and> segment c key_length mem = key
          then Inr (Some (c + key_length, value_length))
          else if used < c + key_length + value_length then Inl Assertion_failed
          else find_scan mem (c + key_length + value_length) used hash key)"
  by pat_completeness auto
termination
proof (relation "measure (\<lambda>(_, cur, used, _, _). used - cur)", goal_cases)
  case (2 mem cur used hash key rd record_hash pr key_length pr' value_length c)
  then have "cur < c" by (auto dest: read_header_progress)
  with 2 show ?case by simp
qed simp

text \<open>The inner loop of \<open>remove_record\<close>: the start and the length of the record itself.\<close>

function remove_scan :: "bytes \<Rightarrow> nat \<Rightarrow> nat \<Rightarrow> hash_t \<Rightarrow> bytes \<Rightarrow> (nat \<times> nat) option result" where
  "remove_scan mem cur used hash key =
     (if cur = used then Inr None
      else case read_header mem cur of
        Inl e \<Rightarrow> Inl e
      | Inr (record_hash, key_length, value_length, c) \<Rightarrow>
          if record_hash = hash \<and> length key = key_length \<and> length mem < c + key_length then Inl Bad_access
          else if record_hash = hash \<and> length key = key_length \<and> segment c key_length mem = key
          then Inr (Some (cur, (c - cur) + key_length + value_length))
          else if used < c + key_length + value_length then Inl Assertion_failed
          else remove_scan mem (c + key_length + value_length) used hash key)"
  by pat_completeness auto
termination
proof (relation "measure (\<lambda>(_, cur, used, _, _). used - cur)", goal_cases)
  case (2 mem cur used hash key rd record_hash pr key_length pr' value_length c)
  then have "cur < c" by (auto dest: read_header_progress)
  with 2 show ?case by simp
qed simp

declare find_scan.simps [simp del] remove_scan.simps [simp del]

section \<open>Reading a packed record\<close>

lemma bytes_hash_hash_bytes: "bytes_hash (hash_bytes h) = h"
proof (rule bit_word_eqI)
  fix n assume n: "n < LENGTH(32)"
  then consider "n < 8" | "8 \<le> n" "n < 16" | "16 \<le> n" "n < 24" | "24 \<le> n" by fastforce
  then show "bit (bytes_hash (hash_bytes h)) n = bit h n"
    using n
    by cases (auto simp: hash_bytes_def bit_or_iff bit_push_bit_iff bit_unsigned_iff bit_drop_bit_eq dest: bit_imp_le_length)
qed

lemma length_hash_bytes [simp]: "length (hash_bytes h) = 4"
  by (simp add: hash_bytes_def)

lemma length_enc_header: "length (enc_header h k v) = 4 + vbe_length (size_word k) + vbe_length (size_word v)"
  by (simp add: enc_header_def length_vbe_write)

lemma length_enc: "length (enc r) = bytes_required (rv_key r) (rv_value r)"
  by (simp add: enc_def length_enc_header bytes_required_def)

lemma enc_nonempty: "6 \<le> length (enc r)"
  by (simp add: length_enc bytes_required_def vbe_length_def)

lemma unat_size_word: "length k < 2 ^ 64 \<Longrightarrow> unat (size_word k) = length k"
  by (simp add: size_word_def unat_of_nat)

lemma read_header_enc:
  assumes mem: "drop cur mem = enc r @ rest" and fits: "length (enc r) < 2 ^ 31"
  shows "read_header mem cur = Inr (rv_hash r, length (rv_key r), length (rv_value r),
    cur + length (enc_header (rv_hash r) (rv_key r) (rv_value r)))"
proof -
  let ?k = "size_word (rv_key r)" and ?v = "size_word (rv_value r)"
  let ?body = "rv_key r @ rv_value r @ rest"
  have lens: "length (rv_key r) < 2 ^ 31" "length (rv_value r) < 2 ^ 31"
    using fits by (simp_all add: enc_def)
  then have u: "unat ?k = length (rv_key r)" "unat ?v = length (rv_value r)"
    by (simp_all add: unat_size_word)
  with lens have range: "vbe_range ?k" "vbe_range ?v" by (simp_all add: vbe_range_def)
  have m0: "drop cur mem = hash_bytes (rv_hash r) @ vbe_write ?k @ vbe_write ?v @ ?body"
    using mem by (simp add: enc_def enc_header_def)
  then have hash: "segment cur 4 mem = hash_bytes (rv_hash r)"
    using segment_append_at [OF m0] by simp
  have m1: "drop (cur + 4) mem = vbe_write ?k @ vbe_write ?v @ ?body"
    using drop_add_eq [OF m0] by simp
  then have r1: "vbe_read mem (cur + 4) = Inr (?k, cur + 4 + vbe_length ?k)"
    using range by (intro vbe_read_write) auto
  have m2: "drop (cur + 4 + vbe_length ?k) mem = vbe_write ?v @ ?body"
    using drop_add_eq [OF m1] by (simp add: length_vbe_write)
  then have r2: "vbe_read mem (cur + 4 + vbe_length ?k) = Inr (?v, cur + 4 + vbe_length ?k + vbe_length ?v)"
    using range by (intro vbe_read_write) auto
  have "cur + 4 \<le> length mem"
    using m1 by (metis append_is_Nil_conv drop_eq_Nil nat_le_linear vbe_write_not_Nil)
  then show ?thesis
    using r1 r2 u hash by (simp add: read_header_def bytes_hash_hash_bytes length_enc_header)
qed

section \<open>Scanning a packed bucket\<close>

definition encs :: "record_view list \<Rightarrow> bytes" where
  "encs rs = concat (map enc rs)"

lemma encs_simps [simp]: "encs [] = []" "encs (r # rs) = enc r @ encs rs" "encs (as @ bs) = encs as @ encs bs"
  by (simp_all add: encs_def)

definition matches :: "hash_t \<Rightarrow> bytes \<Rightarrow> record_view \<Rightarrow> bool" where
  "matches h k r \<longleftrightarrow> rv_hash r = h \<and> rv_key r = k"

definition value_offset :: "record_view \<Rightarrow> nat" where
  "value_offset r = length (enc_header (rv_hash r) (rv_key r) (rv_value r)) + length (rv_key r)"

lemma value_offset_enc: "value_offset r + length (rv_value r) = length (enc r)"
  by (simp add: value_offset_def enc_def)

lemma segment_value:
  assumes "drop cur mem = enc r @ rest"
  shows "segment (cur + value_offset r) (length (rv_value r)) mem = rv_value r"
proof -
  let ?h = "enc_header (rv_hash r) (rv_key r) (rv_value r) @ rv_key r"
  have "drop cur mem = ?h @ rv_value r @ rest" using assms by (simp add: enc_def)
  then have "drop (cur + value_offset r) mem = rv_value r @ rest"
    using drop_add_eq [of cur mem ?h] by (simp add: value_offset_def)
  then show ?thesis by (rule segment_append_at)
qed

lemma segment_key:
  assumes "drop cur mem = enc r @ rest"
  shows "segment (cur + length (enc_header (rv_hash r) (rv_key r) (rv_value r))) (length (rv_key r)) mem = rv_key r"
proof -
  let ?h = "enc_header (rv_hash r) (rv_key r) (rv_value r)"
  have "drop cur mem = ?h @ rv_key r @ rv_value r @ rest" using assms by (simp add: enc_def)
  then have "drop (cur + length ?h) mem = rv_key r @ rv_value r @ rest"
    by (rule drop_add_eq)
  then show ?thesis by (rule segment_append_at)
qed

lemma key_in_range:
  assumes "drop cur mem = enc r @ rest"
  shows "cur + length (enc_header (rv_hash r) (rv_key r) (rv_value r)) + length (rv_key r) \<le> length mem"
proof -
  have "cur \<le> length mem" using assms enc_nonempty [of r] by (cases "cur \<le> length mem") auto
  then have "cur + length (enc r) + length rest = length mem"
    by (rule drop_eq_append_length [OF assms])
  then show ?thesis by (simp add: enc_def)
qed

text \<open>One turn of each loop: a record that does not match is skipped, one that does ends it.\<close>

lemma scan_step_skip:
  assumes mem: "drop cur mem = enc r @ rest" and fits: "length (enc r) < 2 ^ 31"
    and used: "cur + length (enc r) \<le> used" and other: "\<not> matches h k r"
  shows "find_scan mem cur used h k = find_scan mem (cur + length (enc r)) used h k"
    and "remove_scan mem cur used h k = remove_scan mem (cur + length (enc r)) used h k"
proof -
  let ?c = "cur + length (enc_header (rv_hash r) (rv_key r) (rv_value r))"
  have next_cur: "?c + length (rv_key r) + length (rv_value r) = cur + length (enc r)"
    by (simp add: enc_def)
  have key: "\<not> (rv_hash r = h \<and> length k = length (rv_key r) \<and> length mem < ?c + length (rv_key r))"
    using key_in_range [OF mem] by simp
  have no: "\<not> (rv_hash r = h \<and> length k = length (rv_key r) \<and> segment ?c (length (rv_key r)) mem = k)"
    using other segment_key [OF mem] by (auto simp: matches_def)
  have ne: "cur \<noteq> used" using used enc_nonempty [of r] by simp
  show "find_scan mem cur used h k = find_scan mem (cur + length (enc r)) used h k"
    unfolding find_scan.simps [of mem cur used h k] read_header_enc [OF mem fits] if_not_P [OF ne]
      sum.case prod.case if_not_P [OF key] if_not_P [OF no] next_cur
    using used by simp
  show "remove_scan mem cur used h k = remove_scan mem (cur + length (enc r)) used h k"
    unfolding remove_scan.simps [of mem cur used h k] read_header_enc [OF mem fits] if_not_P [OF ne]
      sum.case prod.case if_not_P [OF key] if_not_P [OF no] next_cur
    using used by simp
qed

lemma scan_step_found:
  assumes mem: "drop cur mem = enc r @ rest" and fits: "length (enc r) < 2 ^ 31"
    and used: "cur + length (enc r) \<le> used" and found: "matches h k r"
  shows "find_scan mem cur used h k = Inr (Some (cur + value_offset r, length (rv_value r)))"
    and "remove_scan mem cur used h k = Inr (Some (cur, length (enc r)))"
proof -
  have ne: "cur \<noteq> used" using used enc_nonempty [of r] by simp
  note facts = read_header_enc [OF mem fits] segment_key [OF mem] key_in_range [OF mem] ne found
  show "find_scan mem cur used h k = Inr (Some (cur + value_offset r, length (rv_value r)))"
    using facts by (simp add: find_scan.simps [of mem cur used] matches_def value_offset_def)
  show "remove_scan mem cur used h k = Inr (Some (cur, length (enc r)))"
    using facts by (simp add: remove_scan.simps [of mem cur used] matches_def enc_def)
qed

lemma scan_skip:
  assumes "drop cur mem = encs as @ rest" and "\<forall>r \<in> set as. \<not> matches h k r"
    and "length (encs as) < 2 ^ 31" and "cur + length (encs as) \<le> used"
  shows "find_scan mem cur used h k = find_scan mem (cur + length (encs as)) used h k"
    and "remove_scan mem cur used h k = remove_scan mem (cur + length (encs as)) used h k"
  using assms
proof (induction as arbitrary: cur)
  case (Cons r as)
  {
    case 1
    have d: "drop cur mem = enc r @ encs as @ rest" using 1 by simp
    have "find_scan mem cur used h k = find_scan mem (cur + length (enc r)) used h k"
      using 1 by (intro scan_step_skip [OF d]) auto
    also have "\<dots> = find_scan mem (cur + length (enc r) + length (encs as)) used h k"
      using 1 drop_add_eq [OF d] by (intro Cons.IH) auto
    finally show ?case by (simp add: add.assoc)
  next
    case 2
    have d: "drop cur mem = enc r @ encs as @ rest" using 2 by simp
    have "remove_scan mem cur used h k = remove_scan mem (cur + length (enc r)) used h k"
      using 2 by (intro scan_step_skip [OF d]) auto
    also have "\<dots> = remove_scan mem (cur + length (enc r) + length (encs as)) used h k"
      using 2 drop_add_eq [OF d] by (intro Cons.IH) auto
    finally show ?case by (simp add: add.assoc)
  }
qed simp_all

lemma scan_none:
  assumes "drop 0 mem = encs rs @ rest" and "\<forall>r \<in> set rs. \<not> matches h k r" and "length (encs rs) < 2 ^ 31"
  shows "find_scan mem 0 (length (encs rs)) h k = Inr None"
    and "remove_scan mem 0 (length (encs rs)) h k = Inr None"
  using scan_skip [OF assms, of "length (encs rs)"]
  by (simp_all add: find_scan.simps [of mem "length (encs rs)"] remove_scan.simps [of mem "length (encs rs)"])

lemma scan_found:
  assumes mem: "drop 0 mem = encs rs @ rest" and rs: "rs = as @ r # bs" and "\<forall>r \<in> set as. \<not> matches h k r"
    and m: "matches h k r" and fits: "length (encs rs) < 2 ^ 31"
  shows "find_scan mem 0 (length (encs rs)) h k =
         Inr (Some (length (encs as) + value_offset r, length (rv_value r)))"
    and "remove_scan mem 0 (length (encs rs)) h k = Inr (Some (length (encs as), length (enc r)))"
proof -
  have d: "drop 0 mem = encs as @ (enc r @ encs bs @ rest)" using mem rs by simp
  then have d': "drop (0 + length (encs as)) mem = enc r @ encs bs @ rest" by (rule drop_add_eq)
  have "length (encs as) < 2 ^ 31" "length (enc r) < 2 ^ 31" using fits rs by simp_all
  note skip = scan_skip [OF d assms(3) this(1), of "length (encs rs)"]
    and found = scan_step_found [OF d' this(2) _ m, of "length (encs rs)"]
  show "find_scan mem 0 (length (encs rs)) h k =
      Inr (Some (length (encs as) + value_offset r, length (rv_value r)))"
    and "remove_scan mem 0 (length (encs rs)) h k = Inr (Some (length (encs as), length (enc r)))"
    using skip found rs by simp_all
qed

section \<open>Properties\<close>

text \<open>C25. A record that was packed into memory is parsed back: the header gives the hash and the two
  lengths, the key and the value are where it says, and the record ends after \<open>bytes_required\<close> bytes.\<close>

theorem record_roundtrip:
  assumes "bytes_required (rv_key r) (rv_value r) < 2 ^ 31"
  shows "\<exists>cur. read_header (before @ enc r @ rest) (length before) = Inr (rv_hash r, length (rv_key r), length (rv_value r), cur)
    \<and> segment cur (length (rv_key r)) (before @ enc r @ rest) = rv_key r
    \<and> segment (cur + length (rv_key r)) (length (rv_value r)) (before @ enc r @ rest) = rv_value r
    \<and> cur + length (rv_key r) + length (rv_value r) = length before + bytes_required (rv_key r) (rv_value r)"
proof -
  let ?mem = "before @ enc r @ rest" and ?h = "length (enc_header (rv_hash r) (rv_key r) (rv_value r))"
  have mem: "drop (length before) ?mem = enc r @ rest" by simp
  have fits: "length (enc r) < 2 ^ 31" using assms by (simp add: length_enc)
  have "length (enc r) = ?h + length (rv_key r) + length (rv_value r)" by (simp add: enc_def)
  then show ?thesis
    using read_header_enc [OF mem fits] segment_key [OF mem] segment_value [OF mem] length_enc [of r]
    by (intro exI [of _ "length before + ?h"]) (simp add: value_offset_def add.assoc)
qed

theorem record_roundtrip_witness:
  "\<exists>cur. read_header ([9] @ enc \<lparr>rv_hash = 5, rv_key = [1, 2], rv_value = [3]\<rparr> @ [8]) 1 = Inr (5, 2, 1, cur)
    \<and> segment cur 2 ([9] @ enc \<lparr>rv_hash = 5, rv_key = [1, 2], rv_value = [3]\<rparr> @ [8]) = [1, 2]"
proof -
  have "bytes_required [1, 2] [3] = 9" by code_simp
  then have "bytes_required [1, 2] [3] < 2 ^ 31" by simp
  then show ?thesis using record_roundtrip [of "\<lparr>rv_hash = 5, rv_key = [1, 2], rv_value = [3]\<rparr>" "[9]" "[8]"]
    by (auto simp: numeral_2_eq_2)
qed

end
