(* ===== verification/File_Map.thy ===== *)
theory File_Map
  imports Prelude
begin

text \<open>
  The memory-mapped file of \<^verbatim>\<open>src/src/linux/file_map.cpp\<close>, \<^verbatim>\<open>src/src/macos/file_map.cpp\<close> and
  \<^verbatim>\<open>src/src/windows/file_map.cpp\<close>, one of which \<^verbatim>\<open>src/src/file_map.h\<close> selects. The operating
  system is a parameter: a record of the calls the three files make, each giving the outcome of a
  call with these arguments. The contents of the file belong to the classes that lay their
  structures over it; here is what the class itself keeps (descriptor, mapping, length), and with it
  two facts about the mapping that no field holds: whether it is writable (\<open>fm_read_only\<close>, which
  Linux only passes to \<^verbatim>\<open>mmap\<close>) and how many bytes can be reached through it (\<open>fm_extent\<close>: a mapping
  covers whole pages).
\<close>

section \<open>Model\<close>

datatype platform = Linux | MacOS | Windows

record os_env =
  os_platform :: platform
  os_page_size :: nat
  os_open :: "string \<Rightarrow> bool \<Rightarrow> int"
  os_fstat :: "int \<Rightarrow> nat option"
  os_lseek :: "int \<Rightarrow> nat \<Rightarrow> int"
  os_write :: "int \<Rightarrow> nat \<Rightarrow> int"
  os_mmap :: "int \<Rightarrow> nat \<Rightarrow> bool \<Rightarrow> nat option"
  os_mremap :: "nat \<Rightarrow> nat \<Rightarrow> nat \<Rightarrow> nat option"
  os_munmap :: "nat \<Rightarrow> nat \<Rightarrow> int"
  os_close :: "int \<Rightarrow> int"
  os_CreateFile :: "string \<Rightarrow> bool \<Rightarrow> bool \<Rightarrow> int"
  os_CreateFileMapping :: "int \<Rightarrow> bool \<Rightarrow> nat \<Rightarrow> int"
  os_MapViewOfFile :: "int \<Rightarrow> bool \<Rightarrow> nat \<Rightarrow> nat"
  os_UnmapViewOfFile :: "nat \<Rightarrow> bool"
  os_CloseHandle :: "int \<Rightarrow> bool"

record file_map =
  fm_read_only :: bool
  fm_fd :: int
  fm_mapping_handle :: int
  fm_start :: nat
  fm_length :: nat
  fm_extent :: nat

definition INVALID_HANDLE_VALUE :: int where
  "INVALID_HANDLE_VALUE = -1"

text \<open>A mapping of \<open>n\<close> bytes reaches to the end of its last page.\<close>

definition page_ceil :: "os_env \<Rightarrow> nat \<Rightarrow> nat" where
  "page_ceil os n = (n + os_page_size os - 1) div os_page_size os * os_page_size os"

subsection \<open>Linux\<close>

definition linux_open :: "os_env \<Rightarrow> string \<Rightarrow> bool \<Rightarrow> nat \<Rightarrow> file_map result" where
  "linux_open os filename read_only len =
     (let fd = os_open os filename read_only in
      if fd < 0 then Inl System_error
      else case os_fstat os fd of
        None \<Rightarrow> Inl System_error
      | Some st_size \<Rightarrow>
          if len \<noteq> 0 \<and> len > st_size \<and> os_lseek os fd len < 0 then Inl System_error
          else if len \<noteq> 0 \<and> len > st_size \<and> os_write os fd len \<noteq> 1 then Inl System_error
          else
            let n = (if len = 0 then st_size else len) in
            case os_mmap os fd n (\<not> read_only) of
              None \<Rightarrow> Inl System_error
            | Some start \<Rightarrow>
                Inr \<lparr>fm_read_only = read_only, fm_fd = fd, fm_mapping_handle = INVALID_HANDLE_VALUE,
                     fm_start = start, fm_length = n, fm_extent = page_ceil os n\<rparr>)"

definition linux_resize :: "os_env \<Rightarrow> file_map \<Rightarrow> nat \<Rightarrow> file_map result" where
  "linux_resize os fm len =
     (if len = fm_length fm then Inr fm
      else if len > fm_length fm \<and> os_lseek os (fm_fd fm) len < 0 then Inl System_error
      else if len > fm_length fm \<and> os_write os (fm_fd fm) len \<noteq> 1 then Inl System_error
      else case os_mremap os (fm_start fm) (fm_length fm) len of
        None \<Rightarrow> Inl System_error
      | Some start \<Rightarrow> Inr (fm\<lparr>fm_start := start, fm_length := len, fm_extent := page_ceil os len\<rparr>))"

text \<open>\<open>close\<close> is the same text in the Linux and the macOS file. It undoes what it can: a call that
  fails leaves the mapping or the descriptor in place.\<close>

definition unix_close :: "os_env \<Rightarrow> file_map \<Rightarrow> file_map \<times> unit result" where
  "unix_close os fm =
     (if fm_start fm \<noteq> 0 \<and> os_munmap os (fm_start fm) (fm_length fm) < 0 then (fm, Inl System_error)
      else
        let fm = fm\<lparr>fm_start := 0\<rparr> in
        if fm_fd fm \<noteq> -1 \<and> os_close os (fm_fd fm) < 0 then (fm, Inl System_error)
        else (fm\<lparr>fm_fd := -1\<rparr>, Inr ()))"

subsection \<open>macOS\<close>

text \<open>The constructor and \<open>close\<close> make the calls of the Linux ones, in the same order; the constructor keeps
  \<open>fm_read_only\<close> in a member. \<open>resize\<close> unmaps and maps again: when the second call fails, \<open>start_\<close> and \<open>length_\<close> are as they
  were, but nothing can be reached through them any more. So \<open>resize\<close> is given with the object it leaves.\<close>

definition macos_open :: "os_env \<Rightarrow> string \<Rightarrow> bool \<Rightarrow> nat \<Rightarrow> file_map result" where
  "macos_open = linux_open"

definition macos_close :: "os_env \<Rightarrow> file_map \<Rightarrow> file_map \<times> unit result" where
  "macos_close = unix_close"

declare macos_open_def [simp] macos_close_def [simp]

definition x_macos_resize :: "os_env \<Rightarrow> file_map \<Rightarrow> nat \<Rightarrow> file_map \<times> unit result" where
  "x_macos_resize os fm len =
     (if len = fm_length fm then (fm, Inr ())
      else if len > fm_length fm \<and> os_lseek os (fm_fd fm) len < 0 then (fm, Inl System_error)
      else if len > fm_length fm \<and> os_write os (fm_fd fm) len \<noteq> 1 then (fm, Inl System_error)
      else if os_munmap os (fm_start fm) (fm_length fm) < 0 then (fm, Inl System_error)
      else case os_mmap os (fm_fd fm) len (\<not> fm_read_only fm) of
        None \<Rightarrow> (fm\<lparr>fm_extent := 0\<rparr>, Inl System_error)
      | Some start \<Rightarrow> (fm\<lparr>fm_start := start, fm_length := len, fm_extent := page_ceil os len\<rparr>, Inr ()))"

text \<open>The result alone, for the theories that do not follow the state after an exception.\<close>

definition macos_resize :: "os_env \<Rightarrow> file_map \<Rightarrow> nat \<Rightarrow> file_map result" where
  "macos_resize os fm len = (case x_macos_resize os fm len of (_, Inl e) \<Rightarrow> Inl e | (fm, Inr _) \<Rightarrow> Inr fm)"

subsection \<open>Windows\<close>

text \<open>The size of the mapping object is passed as a 32-bit \<^verbatim>\<open>DWORD\<close>. The file handle is kept in
  \<open>fm_fd\<close>. The old view and mapping object are released without a look at the outcome.\<close>

definition windows_resize :: "os_env \<Rightarrow> file_map \<Rightarrow> nat \<Rightarrow> file_map result" where
  "windows_resize os fm new_length =
     (let mapping_handle = os_CreateFileMapping os (fm_fd fm) (\<not> fm_read_only fm) (new_length mod 2 ^ 32) in
      if mapping_handle = INVALID_HANDLE_VALUE then Inl System_error
      else
        let start = os_MapViewOfFile os mapping_handle (\<not> fm_read_only fm) new_length in
        if start = 0 then Inl System_error
        else Inr (fm\<lparr>fm_mapping_handle := mapping_handle, fm_start := start, fm_length := new_length,
                     fm_extent := page_ceil os new_length\<rparr>))"

definition windows_open :: "os_env \<Rightarrow> string \<Rightarrow> bool \<Rightarrow> nat \<Rightarrow> file_map result" where
  "windows_open os file_name read_only len =
     (let h0 = os_CreateFile os file_name (\<not> read_only) False in
      if h0 = INVALID_HANDLE_VALUE \<and> read_only then Inl System_error
      else
        let h = (if h0 = INVALID_HANDLE_VALUE then os_CreateFile os file_name True True else h0) in
        if h = INVALID_HANDLE_VALUE then Inl System_error
        else windows_resize os
               \<lparr>fm_read_only = read_only, fm_fd = h, fm_mapping_handle = INVALID_HANDLE_VALUE,
                fm_start = 0, fm_length = 0, fm_extent = 0\<rparr> len)"

definition windows_close :: "os_env \<Rightarrow> file_map \<Rightarrow> file_map \<times> unit result" where
  "windows_close os fm =
     (if fm_start fm \<noteq> 0 \<and> \<not> os_UnmapViewOfFile os (fm_start fm) then (fm, Inl System_error)
      else
        let fm = fm\<lparr>fm_start := 0\<rparr> in
        if fm_mapping_handle fm \<noteq> INVALID_HANDLE_VALUE \<and> \<not> os_CloseHandle os (fm_mapping_handle fm)
        then (fm, Inl System_error)
        else
          let fm = fm\<lparr>fm_mapping_handle := INVALID_HANDLE_VALUE\<rparr> in
          if fm_fd fm \<noteq> INVALID_HANDLE_VALUE \<and> \<not> os_CloseHandle os (fm_fd fm) then (fm, Inl System_error)
          else (fm\<lparr>fm_fd := INVALID_HANDLE_VALUE\<rparr>, Inr ()))"

subsection \<open>The platform selected at build time\<close>

definition fm_open :: "os_env \<Rightarrow> string \<Rightarrow> bool \<Rightarrow> nat \<Rightarrow> file_map result" where
  "fm_open os filename read_only len =
     (case os_platform os of
        Linux \<Rightarrow> linux_open os filename read_only len
      | MacOS \<Rightarrow> macos_open os filename read_only len
      | Windows \<Rightarrow> windows_open os filename read_only len)"

definition fm_resize :: "os_env \<Rightarrow> file_map \<Rightarrow> nat \<Rightarrow> file_map result" where
  "fm_resize os fm len =
     (case os_platform os of
        Linux \<Rightarrow> linux_resize os fm len
      | MacOS \<Rightarrow> macos_resize os fm len
      | Windows \<Rightarrow> windows_resize os fm len)"

text \<open>\<open>resize\<close> with the object an exception leaves: on Linux and Windows the one it was called on.\<close>

definition x_fm_resize :: "os_env \<Rightarrow> file_map \<Rightarrow> nat \<Rightarrow> file_map \<times> unit result" where
  "x_fm_resize os fm len =
     (case os_platform os of
        Linux \<Rightarrow> (case linux_resize os fm len of Inl e \<Rightarrow> (fm, Inl e) | Inr fm \<Rightarrow> (fm, Inr ()))
      | MacOS \<Rightarrow> x_macos_resize os fm len
      | Windows \<Rightarrow> (case windows_resize os fm len of Inl e \<Rightarrow> (fm, Inl e) | Inr fm \<Rightarrow> (fm, Inr ())))"

definition fm_close :: "os_env \<Rightarrow> file_map \<Rightarrow> file_map \<times> unit result" where
  "fm_close os fm =
     (case os_platform os of
        Linux \<Rightarrow> unix_close os fm
      | MacOS \<Rightarrow> macos_close os fm
      | Windows \<Rightarrow> windows_close os fm)"

text \<open>The destructor closes a map that was not closed; what \<open>close\<close> throws is swallowed (the messages
  on \<^verbatim>\<open>std::cerr\<close> are left out). On Windows the invalid handle is -1 too.\<close>

definition fm_destroy :: "os_env \<Rightarrow> file_map \<Rightarrow> file_map" where
  "fm_destroy os fm = (if fm_start fm \<noteq> 0 \<or> fm_fd fm \<noteq> -1 then fst (fm_close os fm) else fm)"

text \<open>Reading the first \<open>n\<close> bytes of the mapping, and writing them.\<close>

definition readable :: "file_map \<Rightarrow> nat \<Rightarrow> bool" where
  "readable fm n \<longleftrightarrow> fm_start fm \<noteq> 0 \<and> n \<le> fm_extent fm"

definition writable :: "file_map \<Rightarrow> nat \<Rightarrow> bool" where
  "writable fm n \<longleftrightarrow> readable fm n \<and> \<not> fm_read_only fm"

section \<open>What the rest of the program relies on\<close>

text \<open>
  A system that serves every request: the calls succeed, a mapping is never at address 0, and pages
  are not empty. A Windows mapping object is as large as its 32-bit size says, so there the
  requests that succeed are those below \<open>2 ^ 32\<close> bytes.
\<close>

definition os_limit :: "os_env \<Rightarrow> nat" where
  "os_limit os = (case os_platform os of Linux \<Rightarrow> 2 ^ 63 | MacOS \<Rightarrow> 2 ^ 63 | Windows \<Rightarrow> 2 ^ 32)"

definition os_serves :: "os_env \<Rightarrow> bool" where
  "os_serves os \<longleftrightarrow> 0 < os_page_size os
     \<and> (\<forall>fd n. 0 \<le> os_lseek os fd n) \<and> (\<forall>fd n. os_write os fd n = 1)
     \<and> (\<forall>fd n w. n < os_limit os \<longrightarrow> (\<exists>a. a \<noteq> 0 \<and> os_mmap os fd n w = Some a))
     \<and> (\<forall>p l n. n < os_limit os \<longrightarrow> (\<exists>a. a \<noteq> 0 \<and> os_mremap os p l n = Some a))
     \<and> (\<forall>p l. 0 \<le> os_munmap os p l)
     \<and> (\<forall>h w n. os_CreateFileMapping os h w n \<noteq> INVALID_HANDLE_VALUE)
     \<and> (\<forall>h w n. n < os_limit os \<longrightarrow> os_MapViewOfFile os h w n \<noteq> 0)"

lemma page_ceil_ge: "0 < os_page_size os \<Longrightarrow> n \<le> page_ceil os n"
proof -
  let ?p = "os_page_size os"
  assume p: "0 < ?p"
  have "(n + ?p - 1) div ?p * ?p = n + ?p - 1 - (n + ?p - 1) mod ?p"
    by (simp add: minus_mod_eq_div_mult)
  moreover have "(n + ?p - 1) mod ?p < ?p" using p by simp
  ultimately show ?thesis using p unfolding page_ceil_def by linarith
qed

text \<open>
  The contract of \<open>resize\<close> the container and the catalogue are written against: a mapped, served
  resize gives a mapping of the requested length, keeps the protection, and reaches at least that
  many bytes.
\<close>

locale resizable_map =
  fixes serves :: "os_env \<Rightarrow> bool"
    and resize :: "os_env \<Rightarrow> file_map \<Rightarrow> nat \<Rightarrow> file_map result"
  assumes resize_served: "serves os \<Longrightarrow> n < os_limit os \<Longrightarrow> fm_start fm \<noteq> 0 \<Longrightarrow> fm_length fm \<le> fm_extent fm \<Longrightarrow>
    \<exists>fm'. resize os fm n = Inr fm' \<and> fm_start fm' \<noteq> 0 \<and> fm_length fm' = n \<and> n \<le> fm_extent fm'
      \<and> fm_read_only fm' = fm_read_only fm"
begin

lemma resize_readable:
  assumes "serves os" and "n < os_limit os" and "readable fm (fm_length fm)"
  obtains fm' where "resize os fm n = Inr fm'" and "readable fm' n" and "fm_length fm' = n"
    and "fm_read_only fm' = fm_read_only fm"
  using resize_served [of os n fm] assms by (auto simp: readable_def)

lemma resize_writable:
  assumes "serves os" and "n < os_limit os" and "writable fm (fm_length fm)"
  obtains fm' where "resize os fm n = Inr fm'" and "writable fm' n" and "fm_length fm' = n"
proof -
  have "readable fm (fm_length fm)" and ro: "\<not> fm_read_only fm" using assms(3) by (auto simp: writable_def)
  from this(1) obtain fm' where "resize os fm n = Inr fm'" "readable fm' n" "fm_length fm' = n"
      "fm_read_only fm' = fm_read_only fm"
    by (rule resize_readable [OF assms(1,2)])
  then show ?thesis using that ro by (auto simp: writable_def)
qed

end

interpretation linux_map: resizable_map os_serves linux_resize
proof
  fix os :: os_env and n :: nat and fm :: file_map
  assume s: "os_serves os" "n < os_limit os" "fm_start fm \<noteq> 0" "fm_length fm \<le> fm_extent fm"
  then obtain a where a: "a \<noteq> 0" "os_mremap os (fm_start fm) (fm_length fm) n = Some a"
    by (meson os_serves_def)
  from s have "\<not> os_lseek os (fm_fd fm) n < 0" "os_write os (fm_fd fm) n = 1" "n \<le> page_ceil os n"
    by (auto simp: os_serves_def page_ceil_ge not_less)
  with a s show "\<exists>fm'. linux_resize os fm n = Inr fm' \<and> fm_start fm' \<noteq> 0 \<and> fm_length fm' = n
      \<and> n \<le> fm_extent fm' \<and> fm_read_only fm' = fm_read_only fm"
    by (auto simp: linux_resize_def)
qed

interpretation macos_map: resizable_map os_serves macos_resize
proof
  fix os :: os_env and n :: nat and fm :: file_map
  assume s: "os_serves os" "n < os_limit os" "fm_start fm \<noteq> 0" "fm_length fm \<le> fm_extent fm"
  then obtain a where a: "a \<noteq> 0" "os_mmap os (fm_fd fm) n (\<not> fm_read_only fm) = Some a"
    by (meson os_serves_def)
  from s have "\<not> os_lseek os (fm_fd fm) n < 0" "os_write os (fm_fd fm) n = 1"
      "\<not> os_munmap os (fm_start fm) (fm_length fm) < 0" "n \<le> page_ceil os n"
    by (auto simp: os_serves_def page_ceil_ge not_less)
  with a s show "\<exists>fm'. macos_resize os fm n = Inr fm' \<and> fm_start fm' \<noteq> 0 \<and> fm_length fm' = n
      \<and> n \<le> fm_extent fm' \<and> fm_read_only fm' = fm_read_only fm"
    by (auto simp: macos_resize_def x_macos_resize_def)
qed

interpretation windows_map: resizable_map os_serves windows_resize
  by unfold_locales (auto simp: windows_resize_def os_serves_def Let_def page_ceil_ge)

interpretation fm: resizable_map os_serves fm_resize
proof
  fix os :: os_env and n :: nat and fm :: file_map
  assume s: "os_serves os" "n < os_limit os" "fm_start fm \<noteq> 0" "fm_length fm \<le> fm_extent fm"
  note s' = linux_map.resize_served [OF s] macos_map.resize_served [OF s] windows_map.resize_served [OF s]
  show "\<exists>fm'. fm_resize os fm n = Inr fm' \<and> fm_start fm' \<noteq> 0 \<and> fm_length fm' = n
      \<and> n \<le> fm_extent fm' \<and> fm_read_only fm' = fm_read_only fm"
    using s' by (cases "os_platform os") (simp_all add: fm_resize_def)
qed

lemma x_fm_resize_cases:
  obtains (throws) fm' where "x_fm_resize os fm n = (fm', Inl System_error)" "fm_resize os fm n = Inl System_error"
  | (returns) fm' where "x_fm_resize os fm n = (fm', Inr ())" "fm_resize os fm n = Inr fm'"
proof (cases "fm_resize os fm n")
  case (Inl e)
  moreover have "e = System_error" using Inl
    by (auto simp: fm_resize_def linux_resize_def macos_resize_def x_macos_resize_def windows_resize_def Let_def
        split: platform.split_asm if_split_asm option.split_asm)
  moreover have "\<exists>fm'. x_fm_resize os fm n = (fm', Inl e)" using Inl
    by (auto simp: x_fm_resize_def fm_resize_def macos_resize_def split: platform.split_asm prod.split_asm sum.split_asm)
  ultimately show ?thesis using that by blast
next
  case (Inr fm')
  moreover have "x_fm_resize os fm n = (fm', Inr ())" using Inr
    by (auto simp: x_fm_resize_def fm_resize_def macos_resize_def split: platform.split_asm prod.split_asm sum.split_asm)
  ultimately show ?thesis using that by blast
qed

text \<open>What a \<open>resize\<close> that throws leaves: the object as it was, or, on macOS only, the object without its mapping.\<close>

definition resize_leaves :: "os_env \<Rightarrow> file_map \<Rightarrow> file_map \<Rightarrow> bool" where
  "resize_leaves os fm fm' \<longleftrightarrow> fm' = fm \<or> os_platform os = MacOS \<and> fm' = fm\<lparr>fm_extent := 0\<rparr>"

lemma x_fm_resize_leaves: "x_fm_resize os fm n = (fm', Inl e) \<Longrightarrow> resize_leaves os fm fm'"
  by (auto simp: x_fm_resize_def x_macos_resize_def resize_leaves_def
      split: platform.splits sum.splits if_splits option.splits)

lemma unmapped_not_readable: "0 < n \<Longrightarrow> \<not> readable (fm\<lparr>fm_extent := 0\<rparr>) n"
  by (simp add: readable_def)

lemma readable_mono: "readable fm n \<Longrightarrow> m \<le> n \<Longrightarrow> readable fm m"
  by (simp add: readable_def)

lemma writable_mono: "writable fm n \<Longrightarrow> m \<le> n \<Longrightarrow> writable fm m"
  by (auto simp: writable_def intro: readable_mono)

lemma writable_readable: "writable fm n \<Longrightarrow> readable fm n"
  by (simp add: writable_def)

text \<open>A file that can be opened or created for writing, whatever its size.\<close>

definition fm_closed :: "os_env \<Rightarrow> file_map \<Rightarrow> bool" where
  "fm_closed os fm \<longleftrightarrow> fm_start fm = 0 \<and> fm_fd fm = -1
     \<and> (os_platform os = Windows \<longrightarrow> fm_mapping_handle fm = INVALID_HANDLE_VALUE)"

lemma fm_close_done:
  assumes "fm_close os fm = (fm', Inr ())"
  shows "fm_closed os fm'"
proof (cases "os_platform os = Windows")
  case True
  then have "fm' = fm\<lparr>fm_start := 0, fm_mapping_handle := INVALID_HANDLE_VALUE, fm_fd := INVALID_HANDLE_VALUE\<rparr>"
    using assms by (simp add: fm_close_def windows_close_def Let_def split: if_split_asm)
  then show ?thesis by (simp add: fm_closed_def INVALID_HANDLE_VALUE_def)
next
  case False
  then have "fm_close os fm = unix_close os fm" by (cases "os_platform os") (simp_all add: fm_close_def)
  then have "fm' = fm\<lparr>fm_start := 0, fm_fd := -1\<rparr>"
    using assms by (simp add: unix_close_def Let_def split: if_split_asm)
  then show ?thesis using False by (simp add: fm_closed_def)
qed

lemma fm_close_closed:
  assumes "fm_closed os fm"
  shows "fm_close os fm = (fm, Inr ())"
proof -
  obtain ro fd mh st len ext where fm: "fm = \<lparr>fm_read_only = ro, fm_fd = fd, fm_mapping_handle = mh, fm_start = st, fm_length = len, fm_extent = ext\<rparr>"
    by (cases fm) blast
  then show ?thesis using assms
    by (cases "os_platform os") (simp_all add: fm_closed_def fm_close_def unix_close_def windows_close_def INVALID_HANDLE_VALUE_def)
qed

lemma fm_close_twice: "fm_close os fm = (fm', Inr ()) \<Longrightarrow> fm_close os fm' = (fm', Inr ())"
  by (rule fm_close_closed [OF fm_close_done])

definition os_opens :: "os_env \<Rightarrow> string \<Rightarrow> bool" where
  "os_opens os f \<longleftrightarrow>
     (case os_platform os of
        Linux \<Rightarrow> 0 \<le> os_open os f False \<and> os_fstat os (os_open os f False) \<noteq> None
      | MacOS \<Rightarrow> 0 \<le> os_open os f False \<and> os_fstat os (os_open os f False) \<noteq> None
      | Windows \<Rightarrow> os_CreateFile os f True False \<noteq> INVALID_HANDLE_VALUE
                  \<or> os_CreateFile os f True True \<noteq> INVALID_HANDLE_VALUE)"

lemma linux_open_served:
  assumes s: "os_serves os" and f: "0 \<le> os_open os f False" "os_fstat os (os_open os f False) \<noteq> None"
    and n: "0 < n" "n < os_limit os"
  shows "\<exists>fm. linux_open os f False n = Inr fm \<and> writable fm n \<and> fm_length fm = n"
proof -
  from s n(2) obtain a where a: "a \<noteq> 0" "os_mmap os (os_open os f False) n True = Some a" by (meson os_serves_def)
  have "\<not> os_lseek os fd n < 0" "os_write os fd n = 1" "n \<le> page_ceil os n" for fd
    using s by (auto simp: os_serves_def page_ceil_ge not_less)
  then show ?thesis using f n(1) a by (auto simp: linux_open_def Let_def writable_def readable_def)
qed

lemma fm_open_served:
  assumes s: "os_serves os" "os_opens os f" and n: "0 < n" "n < os_limit os"
  shows "\<exists>fm. fm_open os f False n = Inr fm \<and> writable fm n \<and> fm_length fm = n"
proof (cases "os_platform os")
  case Windows
  have m: "os_CreateFileMapping os h w l \<noteq> INVALID_HANDLE_VALUE" "os_MapViewOfFile os h w n \<noteq> 0" "n \<le> page_ceil os n" for h w l
    using s(1) n(2) by (auto simp: os_serves_def page_ceil_ge)
  have "\<exists>fm. windows_resize os \<lparr>fm_read_only = False, fm_fd = h, fm_mapping_handle = INVALID_HANDLE_VALUE,
          fm_start = 0, fm_length = 0, fm_extent = 0\<rparr> n = Inr fm \<and> writable fm n \<and> fm_length fm = n" for h
    using m by (simp add: windows_resize_def Let_def writable_def readable_def)
  then show ?thesis
    using Windows s(2) by (auto simp: fm_open_def windows_open_def os_opens_def Let_def)
qed (use linux_open_served [OF s(1) _ _ n] s(2) in \<open>simp_all add: fm_open_def os_opens_def\<close>)

section \<open>Properties\<close>

text \<open>A system to evaluate examples on: Linux, one page size, every call succeeds.\<close>

definition demo_os :: os_env where
  "demo_os = \<lparr>os_platform = Linux, os_page_size = 4096, os_open = (\<lambda>_ _. 3), os_fstat = (\<lambda>_. Some 0),
     os_lseek = (\<lambda>_ n. int n), os_write = (\<lambda>_ _. 1), os_mmap = (\<lambda>_ _ _. Some 4096),
     os_mremap = (\<lambda>_ _ _. Some 8192), os_munmap = (\<lambda>_ _. 0), os_close = (\<lambda>_. 0),
     os_CreateFile = (\<lambda>_ _ _. 5), os_CreateFileMapping = (\<lambda>_ _ _. 6), os_MapViewOfFile = (\<lambda>_ _ _. 4096),
     os_UnmapViewOfFile = (\<lambda>_. True), os_CloseHandle = (\<lambda>_. True)\<rparr>"

definition demo_fm :: file_map where
  "demo_fm = \<lparr>fm_read_only = False, fm_fd = 3, fm_mapping_handle = INVALID_HANDLE_VALUE, fm_start = 4096,
     fm_length = 100, fm_extent = 4096\<rparr>"

lemma demo_os_serves: "os_serves demo_os" "os_opens demo_os f" "os_limit demo_os = 2 ^ 63"
  by (simp_all add: os_serves_def os_opens_def demo_os_def INVALID_HANDLE_VALUE_def os_limit_def)

lemma demo_os_close: "fm_close demo_os fm = (fm\<lparr>fm_start := 0, fm_fd := -1\<rparr>, Inr ())"
  by (cases fm) (simp add: fm_close_def unix_close_def demo_os_def)

text \<open>On every platform, resizing a writable mapping to any length the system serves gives a
  writable mapping of exactly that length; the first \<open>n\<close> bytes can be written.\<close>

theorem resize_maps:
  assumes "os_serves os" and "n < os_limit os" and "writable fm (fm_length fm)"
  shows "\<exists>fm'. fm_resize os fm n = Inr fm' \<and> fm_length fm' = n \<and> writable fm' n"
  using fm.resize_writable [OF assms] by metis

theorem resize_maps_witness:
  "\<exists>fm'. fm_resize demo_os demo_fm 5000 = Inr fm' \<and> fm_length fm' = 5000 \<and> writable fm' 5000"
proof (rule resize_maps)
  show "os_serves demo_os" by (rule demo_os_serves)
  show "5000 < os_limit demo_os" by (simp add: demo_os_serves(3))
  show "writable demo_fm (fm_length demo_fm)" by (simp add: demo_fm_def writable_def readable_def)
qed

text \<open>A \<open>close\<close> that returns leaves nothing mapped and no handle open, and closing again is
  harmless; the destructor of a closed map does nothing.\<close>

theorem close_releases:
  assumes "fm_close os fm = (fm', Inr ())"
  shows "\<not> readable fm' n \<and> fm_fd fm' = -1 \<and> fm_close os fm' = (fm', Inr ()) \<and> fm_destroy os fm' = fm'"
  using fm_close_done [OF assms] fm_close_twice [OF assms] by (simp add: fm_closed_def readable_def fm_destroy_def)

theorem close_releases_witness:
  "fm_close demo_os demo_fm = (demo_fm\<lparr>fm_start := 0, fm_fd := -1\<rparr>, Inr ())
   \<and> \<not> readable (demo_fm\<lparr>fm_start := 0, fm_fd := -1\<rparr>) 1"
  using close_releases [OF demo_os_close, of demo_fm 1] by (simp add: demo_os_close)

text \<open>The first call that fails in \<open>close\<close> is reported and leaves the map as it was up to there:
  when unmapping fails nothing changes, when closing the descriptor fails the mapping is gone but the
  descriptor is kept, so that the call can be repeated.\<close>

theorem unix_close_failure:
  assumes "os_platform os \<noteq> Windows" and "fm_start fm \<noteq> 0" and "fm_fd fm \<noteq> -1"
  shows "fm_close os fm =
    (if os_munmap os (fm_start fm) (fm_length fm) < 0 then (fm, Inl System_error)
     else if os_close os (fm_fd fm) < 0 then (fm\<lparr>fm_start := 0\<rparr>, Inl System_error)
     else (fm\<lparr>fm_start := 0, fm_fd := -1\<rparr>, Inr ()))"
  using assms by (cases "os_platform os") (simp_all add: fm_close_def unix_close_def Let_def)

theorem unix_close_failure_witness:
  "fm_close (demo_os\<lparr>os_close := (\<lambda>_. -1)\<rparr>) demo_fm = (demo_fm\<lparr>fm_start := 0\<rparr>, Inl System_error)"
  using unix_close_failure [of "demo_os\<lparr>os_close := (\<lambda>_. -1)\<rparr>" demo_fm] by (simp add: demo_os_def demo_fm_def)

end
