(* ===== verification/Catalogue.thy ===== *)
theory Catalogue
  imports File_Map
begin

text \<open>
  The directory of the extensible hash table, \<^verbatim>\<open>src/src/catalogue.h\<close> and \<^verbatim>\<open>src/src/catalogue.cpp\<close>:
  an array of bucket ids indexed by the first \<open>prefix_bits\<close> bits of a hash, laid over a mapped file.
  The array is the function \<open>buffer\<close> from indices to entries (what is not written yet is zero);
  every access is checked against the mapping.
\<close>

section \<open>Model\<close>

definition HASH_BITS :: nat where
  "HASH_BITS = 32"

definition INVALID_BLOCK_ID :: nat where
  "INVALID_BLOCK_ID = INVALID_ID"

definition CAT_SIGNATURE :: "32 word" where
  "CAT_SIGNATURE = 0x99fa7e8e"

text \<open>\<open>catalogue::layout_t\<close>, packed: the contents of the file.\<close>

record cat_layout =
  cat_signature :: "32 word"
  cat_prefix_bits :: nat
  cat_prefix_shift :: nat
  cat_prefix_mask :: hash_t
  cat_buffer_size :: nat
  cat_buffer :: "nat \<Rightarrow> nat"

record catalogue = cat_layout +
  cat_file_map :: file_map

definition empty_cat_layout :: cat_layout where
  "empty_cat_layout = \<lparr>cat_signature = 0, cat_prefix_bits = 0, cat_prefix_shift = 0,
     cat_prefix_mask = 0, cat_buffer_size = 0, cat_buffer = (\<lambda>_. 0)\<rparr>"

definition cat_header_size :: nat where
  "cat_header_size = 32"

definition cat_layout_size :: nat where
  "cat_layout_size = 40"

text \<open>A shift of a 32-bit operand, undefined from 32 on, and of a 64-bit one, undefined from 64 on.\<close>

definition shl32 :: "32 word \<Rightarrow> nat \<Rightarrow> 32 word result" where
  "shl32 x n = (if n < 32 then Inr (push_bit n x) else Inl Undefined)"

definition shr32 :: "32 word \<Rightarrow> nat \<Rightarrow> 32 word result" where
  "shr32 x n = (if n < 32 then Inr (drop_bit n x) else Inl Undefined)"

definition shl64 :: "64 word \<Rightarrow> nat \<Rightarrow> 64 word result" where
  "shl64 x n = (if n < 64 then Inr (push_bit n x) else Inl Undefined)"

text \<open>Element \<open>i\<close> of \<open>buffer\<close>, read and written.\<close>

definition cat_get :: "catalogue \<Rightarrow> nat \<Rightarrow> nat result" where
  "cat_get c i =
     (if readable (cat_file_map c) (cat_header_size + 8 * (i + 1)) then Inr (cat_buffer c i)
      else Inl Bad_access)"

definition cat_put :: "catalogue \<Rightarrow> nat \<Rightarrow> nat \<Rightarrow> catalogue result" where
  "cat_put c i v =
     (if writable (cat_file_map c) (cat_header_size + 8 * (i + 1))
      then Inr (c\<lparr>cat_buffer := (cat_buffer c)(i := v)\<rparr>)
      else Inl Bad_access)"

text \<open>The constructor, on a file whose contents are \<open>disk\<close>.\<close>

primrec cat_fill :: "nat \<Rightarrow> nat \<Rightarrow> catalogue \<Rightarrow> catalogue result" where
  "cat_fill 0 i c = Inr c"
| "cat_fill (Suc n) i c = bind_r (cat_put c i INVALID_BLOCK_ID) (cat_fill n (i + 1))"

definition cat_open :: "os_env \<Rightarrow> string \<Rightarrow> nat \<Rightarrow> bool \<Rightarrow> cat_layout \<Rightarrow> catalogue result" where
  "cat_open os filename prefix_bits read_only disk =
     bind_r (fm_open os filename read_only cat_layout_size) (\<lambda>fm.
     let c = cat_layout.extend disk \<lparr>cat_file_map = fm\<rparr> in
     if \<not> readable fm cat_layout_size then Inl Bad_access
     else if cat_signature c = 0 then
       bind_r (shl64 1 prefix_bits) (\<lambda>entries.
       bind_r (fm_resize os fm (sz (cat_layout_size + sz_sub (unat entries) 1 * 8))) (\<lambda>fm.
       if \<not> writable fm cat_layout_size then Inl Bad_access
       else
         let shift = sz_sub HASH_BITS prefix_bits in
         bind_r (shl32 1 prefix_bits) (\<lambda>top.
         bind_r (shl32 (top - 1) shift) (\<lambda>mask.
         cat_fill (unat entries) 0
           (c\<lparr>cat_file_map := fm, cat_signature := CAT_SIGNATURE, cat_prefix_bits := prefix_bits,
              cat_prefix_shift := shift, cat_prefix_mask := mask, cat_buffer_size := unat entries\<rparr>)))))
     else if cat_signature c \<noteq> CAT_SIGNATURE then
       Inl (Runtime_error (''invalid hash catalogue signature in file '' @ filename))
     else Inr c)"

definition cat_index :: "catalogue \<Rightarrow> hash_t \<Rightarrow> nat result" where
  "cat_index c hash = bind_r (shr32 (hash AND cat_prefix_mask c) (cat_prefix_shift c)) (\<lambda>i. Inr (unat i))"

definition cat_find :: "catalogue \<Rightarrow> hash_t \<Rightarrow> nat result" where
  "cat_find c hash = bind_r (cat_index c hash) (cat_get c)"

text \<open>Assigning through the reference that the other overload of \<open>find\<close> returns.\<close>

definition cat_find_assign :: "catalogue \<Rightarrow> hash_t \<Rightarrow> nat \<Rightarrow> catalogue result" where
  "cat_find_assign c hash v = bind_r (cat_index c hash) (\<lambda>i. cat_put c i v)"

primrec cat_set_loop :: "nat \<Rightarrow> nat \<Rightarrow> nat \<Rightarrow> catalogue \<Rightarrow> catalogue result" where
  "cat_set_loop 0 put value c = Inr c"
| "cat_set_loop (Suc n) put value c = bind_r (cat_put c put value) (cat_set_loop n (put + 1) value)"

definition cat_set :: "catalogue \<Rightarrow> hash_t \<Rightarrow> nat \<Rightarrow> nat \<Rightarrow> catalogue result" where
  "cat_set c hash offset value =
     bind_r (shl64 1 (sz_sub HASH_BITS offset)) (\<lambda>low.
     let hash_copy = hash AND ucast (NOT (low - 1)) in
     bind_r (cat_index c hash_copy) (\<lambda>put.
     bind_r (shl64 1 (sz_sub (cat_prefix_bits c) offset)) (\<lambda>count.
     cat_set_loop (unat count) put value c)))"

text \<open>\<open>split\<close> doubles the array in place, from the back.\<close>

primrec cat_split_loop :: "nat \<Rightarrow> nat \<Rightarrow> nat \<Rightarrow> catalogue \<Rightarrow> catalogue result" where
  "cat_split_loop 0 get put c = Inr c"
| "cat_split_loop (Suc n) get put c =
     bind_r (cat_get c get) (\<lambda>v.
     bind_r (cat_put c put v) (\<lambda>c.
     bind_r (cat_get c get) (\<lambda>v.
     bind_r (cat_put c (put - 1) v) (\<lambda>c.
     cat_split_loop n (get - 1) (put - 2) c))))"

definition cat_split :: "os_env \<Rightarrow> catalogue \<Rightarrow> catalogue result" where
  "cat_split os c =
     (let old_buffer_size = cat_buffer_size c;
          shift = sz_sub (cat_prefix_shift c) 1;
          new_size = sz (2 * old_buffer_size) in
      if \<not> writable (cat_file_map c) cat_header_size then Inl Bad_access
      else
        bind_r (shl32 1 shift) (\<lambda>bit.
        bind_r (fm_resize os (cat_file_map c) (sz (cat_layout_size + sz_sub new_size 1 * 8))) (\<lambda>fm.
        cat_split_loop old_buffer_size (old_buffer_size - 1) (new_size - 1)
          (c\<lparr>cat_prefix_bits := cat_prefix_bits c + 1, cat_prefix_shift := shift,
             cat_prefix_mask := cat_prefix_mask c OR bit, cat_buffer_size := new_size,
             cat_file_map := fm\<rparr>))))"

definition cat_bytes_allocated :: "catalogue \<Rightarrow> nat" where
  "cat_bytes_allocated c = fm_length (cat_file_map c)"

definition cat_close :: "os_env \<Rightarrow> catalogue \<Rightarrow> catalogue \<times> unit result" where
  "cat_close os c = (let (fm, r) = fm_close os (cat_file_map c) in (c\<lparr>cat_file_map := fm\<rparr>, r))"

section \<open>Prefixes of a hash\<close>

definition prefix_of :: "nat \<Rightarrow> hash_t \<Rightarrow> nat" where
  "prefix_of n h = unat h div 2 ^ (32 - n)"

lemma unat_drop_bit_div: "unat (drop_bit n (w :: 'a::len word)) = unat w div 2 ^ n"
  by (simp only: unat_drop_bit_eq) (simp add: drop_bit_eq_div)

lemma prefix_of_less: "n \<le> 32 \<Longrightarrow> prefix_of n h < 2 ^ n"
proof -
  assume n: "n \<le> 32"
  have "unat h < 2 ^ (32 - n) * 2 ^ n"
    using unsigned_less [of h, where 'a = nat] n by (simp flip: power_add)
  then show ?thesis by (simp add: prefix_of_def less_mult_imp_div_less mult.commute)
qed

lemma prefix_of_shorter: "m \<le> n \<Longrightarrow> n \<le> 32 \<Longrightarrow> prefix_of m h = prefix_of n h div 2 ^ (n - m)"
proof -
  assume "m \<le> n" "n \<le> 32"
  then have "32 - m = (32 - n) + (n - m)" by simp
  then show ?thesis by (simp add: prefix_of_def div_mult2_eq power_add)
qed

text \<open>The bit a split tests is the last one of the longer prefix.\<close>

lemma prefix_of_Suc:
  assumes "n < 32"
  shows "prefix_of (Suc n) h = 2 * prefix_of n h + of_bool (bit h (31 - n))"
proof -
  have d: "prefix_of n h = prefix_of (Suc n) h div 2"
    using prefix_of_shorter [of n "Suc n" h] assms by simp
  have "bit h (31 - n) \<longleftrightarrow> bit (unat h) (31 - n)" by (simp add: bit_unsigned_iff)
  then have "bit h (31 - n) \<longleftrightarrow> odd (prefix_of (Suc n) h)"
    by (simp add: prefix_of_def bit_iff_odd)
  then show ?thesis using d by (auto simp: odd_two_times_div_two_succ [symmetric])
qed

lemma prefix_of_OR_bit:
  assumes "n < 32"
  shows "prefix_of (Suc n) (h OR push_bit (31 - n) 1) = 2 * prefix_of n h + 1"
proof -
  have "prefix_of n (h OR push_bit (31 - n) 1) = prefix_of n h"
  proof -
    have "drop_bit (32 - n) (h OR push_bit (31 - n) 1) = drop_bit (32 - n) h"
      using assms by (intro bit_word_eqI) (auto simp: bit_drop_bit_eq bit_or_iff bit_push_bit_iff bit_1_iff simp del: push_bit_of_1)
    then show ?thesis by (simp only: prefix_of_def flip: unat_drop_bit_div)
  qed
  moreover have "bit (h OR push_bit (31 - n) 1) (31 - n)"
    using less_imp_diff_less [of 31 32 n] by (simp add: bit_or_iff bit_push_bit_iff del: push_bit_of_1)
  ultimately show ?thesis using assms by (simp add: prefix_of_Suc)
qed

section \<open>Invariant\<close>

definition cat_inv :: "catalogue \<Rightarrow> bool" where
  "cat_inv c \<longleftrightarrow> 1 \<le> cat_prefix_bits c \<and> cat_prefix_bits c \<le> 32
     \<and> cat_prefix_shift c = 32 - cat_prefix_bits c
     \<and> cat_prefix_mask c = push_bit (32 - cat_prefix_bits c) (mask (cat_prefix_bits c))
     \<and> cat_buffer_size c = 2 ^ cat_prefix_bits c
     \<and> readable (cat_file_map c) (fm_length (cat_file_map c))
     \<and> readable (cat_file_map c) (cat_header_size + 8 * 2 ^ cat_prefix_bits c)"

lemma masked_index:
  assumes "1 \<le> n" "n \<le> 32"
  shows "unat (drop_bit (32 - n) (h AND push_bit (32 - n) (mask n))) = prefix_of n h"
proof -
  have "drop_bit (32 - n) (h AND push_bit (32 - n) (mask n)) = drop_bit (32 - n) h"
    using assms by (intro bit_word_eqI) (auto simp: bit_drop_bit_eq bit_and_iff bit_push_bit_iff bit_mask_iff dest: bit_imp_le_length)
  then show ?thesis by (simp add: prefix_of_def unat_drop_bit_div)
qed

lemma cat_index_eq:
  assumes "cat_inv c"
  shows "cat_index c h = Inr (prefix_of (cat_prefix_bits c) h)"
  using assms masked_index [of "cat_prefix_bits c" h]
  by (auto simp: cat_inv_def cat_index_def shr32_def)

lemma cat_get_eq:
  assumes "cat_inv c" and "i < 2 ^ cat_prefix_bits c"
  shows "cat_get c i = Inr (cat_buffer c i)"
proof -
  have "i + 1 \<le> 2 ^ cat_prefix_bits c" using assms(2) by simp
  then have "8 * (i + 1) \<le> 8 * 2 ^ cat_prefix_bits c" by (rule mult_le_mono2)
  then show ?thesis
    using assms(1) readable_mono [of "cat_file_map c" "cat_header_size + 8 * 2 ^ cat_prefix_bits c"]
    by (auto simp: cat_get_def cat_inv_def)
qed

lemma cat_put_eq:
  assumes "cat_inv c" and "\<not> fm_read_only (cat_file_map c)" and "i < 2 ^ cat_prefix_bits c"
  shows "cat_put c i v = Inr (c\<lparr>cat_buffer := (cat_buffer c)(i := v)\<rparr>)"
  using cat_get_eq [OF assms(1,3)] assms(2)
  by (auto simp: cat_put_def cat_get_def writable_def split: if_splits)

lemma cat_find_eq:
  assumes "cat_inv c"
  shows "cat_find c h = Inr (cat_buffer c (prefix_of (cat_prefix_bits c) h))"
proof -
  have "prefix_of (cat_prefix_bits c) h < 2 ^ cat_prefix_bits c"
    using assms by (intro prefix_of_less) (simp add: cat_inv_def)
  with assms show ?thesis by (simp add: cat_find_def cat_index_eq cat_get_eq)
qed

lemma cat_inv_buffer [simp]: "cat_inv (c\<lparr>cat_buffer := b\<rparr>) = cat_inv c"
  by (simp add: cat_inv_def)

section \<open>Setting a run of entries\<close>

lemma cat_set_loop_eq:
  assumes "cat_inv c" and "\<not> fm_read_only (cat_file_map c)" and "put + n \<le> 2 ^ cat_prefix_bits c"
  shows "cat_set_loop n put v c =
         Inr (c\<lparr>cat_buffer := (\<lambda>i. if put \<le> i \<and> i < put + n then v else cat_buffer c i)\<rparr>)"
  using assms
proof (induction n arbitrary: put c)
  case 0
  have "(\<lambda>i. if put \<le> i \<and> i < put then v else cat_buffer c i) = cat_buffer c" by auto
  then show ?case by simp
next
  case (Suc n)
  let ?c = "c\<lparr>cat_buffer := (cat_buffer c)(put := v)\<rparr>"
  have "cat_set_loop n (put + 1) v ?c = Inr (?c\<lparr>cat_buffer :=
      (\<lambda>i. if put + 1 \<le> i \<and> i < put + 1 + n then v else cat_buffer ?c i)\<rparr>)"
    using Suc.prems by (intro Suc.IH) auto
  moreover have "(\<lambda>i. if put + 1 \<le> i \<and> i < put + 1 + n then v else cat_buffer ?c i) =
      (\<lambda>i. if put \<le> i \<and> i < put + Suc n then v else cat_buffer c i)"
    by (auto simp: fun_eq_iff)
  ultimately show ?case
    using Suc.prems cat_put_eq [of c put v] by (simp cong: if_cong)
qed

lemma clear_low_bits: "(h :: hash_t) AND ucast (NOT (push_bit k 1 - 1 :: size_t)) = push_bit k (drop_bit k h)" if "k < 64"
proof (rule bit_word_eqI)
  fix n assume "n < LENGTH(32)"
  have "push_bit k 1 - 1 = (mask k :: size_t)" by (simp add: mask_eq_exp_minus_1)
  then show "bit (h AND ucast (NOT (push_bit k 1 - 1 :: size_t))) n = bit (push_bit k (drop_bit k h)) n"
    using \<open>n < LENGTH(32)\<close>
    by (cases "k \<le> n") (auto simp: bit_and_iff bit_unsigned_iff bit_not_iff bit_mask_iff bit_push_bit_iff bit_drop_bit_eq)
qed

lemma prefix_of_cleared:
  assumes "off \<le> n" and "n \<le> 32"
  shows "prefix_of n (push_bit (32 - off) (drop_bit (32 - off) h)) = prefix_of off h * 2 ^ (n - off)"
proof -
  let ?x = "push_bit (32 - off) (drop_bit (32 - off) h)"
  have "drop_bit (32 - off) ?x = drop_bit (32 - off) h"
    by (rule bit_word_eqI) (auto simp: bit_drop_bit_eq bit_push_bit_iff dest: bit_imp_le_length)
  then have "prefix_of off ?x = prefix_of off h"
    by (simp only: prefix_of_def flip: unat_drop_bit_div)
  then have d: "prefix_of n ?x div 2 ^ (n - off) = prefix_of off h"
    using prefix_of_shorter [OF assms, of ?x] by simp
  have "take_bit (n - off) (drop_bit (32 - n) ?x) = 0"
    using assms by (intro bit_word_eqI) (auto simp: bit_take_bit_iff bit_drop_bit_eq bit_push_bit_iff)
  then have "take_bit (n - off) (unat (drop_bit (32 - n) ?x)) = 0"
    by (metis unsigned_0 unsigned_take_bit_eq)
  then have "prefix_of n ?x mod 2 ^ (n - off) = 0"
    by (simp add: prefix_of_def take_bit_eq_mod unat_drop_bit_div)
  then show ?thesis using d by (metis add.right_neutral div_mult_mod_eq)
qed

lemma cat_set_eq:
  assumes "cat_inv c" and "\<not> fm_read_only (cat_file_map c)" and "1 \<le> off" and "off \<le> cat_prefix_bits c"
  shows "cat_set c h off v = Inr (c\<lparr>cat_buffer :=
    (\<lambda>i. if i div 2 ^ (cat_prefix_bits c - off) = prefix_of off h then v else cat_buffer c i)\<rparr>)"
proof -
  let ?n = "cat_prefix_bits c" and ?m = "cat_prefix_bits c - off"
  let ?p = "prefix_of off h * 2 ^ ?m"
  have n: "?n \<le> 32" using assms(1) by (simp add: cat_inv_def)
  have shifts: "sz_sub HASH_BITS off = 32 - off" "sz_sub ?n off = ?m"
    using assms(3,4) n by (simp_all add: HASH_BITS_def)
  have cnt: "unat (push_bit ?m 1 :: size_t) = 2 ^ ?m"
    using n by (intro unat_exp) simp
  have idx: "cat_index c (h AND ucast (NOT (push_bit (32 - off) 1 - 1 :: size_t))) = Inr ?p"
    using assms n prefix_of_cleared [of off ?n h] by (simp only: clear_low_bits cat_index_eq)
  have "prefix_of off h < 2 ^ off" using assms(4) n by (intro prefix_of_less) simp
  then have "(prefix_of off h + 1) * 2 ^ ?m \<le> 2 ^ off * 2 ^ ?m" by (intro mult_le_mono1) simp
  then have "?p + 2 ^ ?m \<le> 2 ^ ?n" using assms(4) by (simp flip: power_add)
  from cat_set_loop_eq [OF assms(1,2) this, of v]
  have "cat_set c h off v = Inr (c\<lparr>cat_buffer := (\<lambda>i. if ?p \<le> i \<and> i < ?p + 2 ^ ?m then v else cat_buffer c i)\<rparr>)"
    using n by (simp add: cat_set_def shifts shl64_def idx cnt less_imp_diff_less del: push_bit_of_1)
  moreover have "?p \<le> i \<and> i < ?p + 2 ^ ?m \<longleftrightarrow> i div 2 ^ ?m = prefix_of off h" for i
    by (simp add: div_eq_iff_range)
  ultimately show ?thesis by (simp cong: if_cong)
qed

section \<open>Doubling\<close>

lemma cat_split_loop_eq:
  assumes "cat_inv c" and "\<not> fm_read_only (cat_file_map c)" and "2 * n \<le> 2 ^ cat_prefix_bits c"
  shows "cat_split_loop n (n - 1) (2 * n - 1) c =
         Inr (c\<lparr>cat_buffer := (\<lambda>i. cat_buffer c (if i < 2 * n then i div 2 else i))\<rparr>)"
  using assms
proof (induction n arbitrary: c)
  case 0
  then show ?case by simp
next
  case (Suc n)
  let ?v = "cat_buffer c n"
  let ?c1 = "c\<lparr>cat_buffer := (cat_buffer c)(2 * n + 1 := ?v)\<rparr>"
  let ?c = "c\<lparr>cat_buffer := (cat_buffer c)(2 * n + 1 := ?v, 2 * n := ?v)\<rparr>"
  have bounds: "n < 2 ^ cat_prefix_bits c" "2 * n + 1 < 2 ^ cat_prefix_bits c"
    using Suc.prems(3) by simp_all
  have "cat_split_loop (Suc n) (Suc n - 1) (2 * Suc n - 1) c = cat_split_loop n (n - 1) (2 * n - 1) ?c"
    using cat_get_eq [OF Suc.prems(1) bounds(1)] cat_put_eq [OF Suc.prems(1,2) bounds(2)]
      cat_get_eq [of ?c1 n] cat_put_eq [of ?c1 "2 * n"] Suc.prems bounds
    by simp
  also have "\<dots> = Inr (?c\<lparr>cat_buffer := (\<lambda>i. cat_buffer ?c (if i < 2 * n then i div 2 else i))\<rparr>)"
    using Suc.prems by (intro Suc.IH) auto
  also have "(\<lambda>i. cat_buffer ?c (if i < 2 * n then i div 2 else i)) =
      (\<lambda>i. cat_buffer c (if i < 2 * Suc n then i div 2 else i))"
  proof
    fix i
    show "cat_buffer ?c (if i < 2 * n then i div 2 else i) = cat_buffer c (if i < 2 * Suc n then i div 2 else i)"
      by (cases "i < 2 * n"; cases "i = 2 * n"; cases "i = 2 * n + 1") auto
  qed
  finally show ?case by simp
qed

lemma grow_mask:
  assumes "n < 32"
  shows "push_bit (32 - n) (mask n) OR push_bit (31 - n) 1 = (push_bit (31 - n) (mask (Suc n)) :: hash_t)"
  using assms
  by (intro bit_word_eqI) (auto simp: bit_or_iff bit_push_bit_iff bit_mask_iff bit_1_iff simp del: push_bit_of_1)

lemma cat_split_eq:
  assumes inv: "cat_inv c" and rw: "\<not> fm_read_only (cat_file_map c)" and n: "cat_prefix_bits c < 32"
    and os: "os_serves os" "cat_header_size + 8 * 2 ^ Suc (cat_prefix_bits c) < os_limit os"
  shows "\<exists>c'. cat_split os c = Inr c' \<and> cat_inv c' \<and> \<not> fm_read_only (cat_file_map c')
    \<and> cat_prefix_bits c' = Suc (cat_prefix_bits c)
    \<and> (\<forall>i < 2 ^ Suc (cat_prefix_bits c). cat_buffer c' i = cat_buffer c (i div 2))"
proof -
  let ?n = "cat_prefix_bits c"
  have "(2::nat) ^ Suc ?n \<le> 2 ^ 32" using n by (intro power_increasing) auto
  then have small: "(2::nat) ^ Suc ?n < 2 ^ 64" "8 * (2::nat) ^ Suc ?n + 32 < 2 ^ 64" by simp_all
  have pos: "1 \<le> (2::nat) ^ Suc ?n" by simp
  have size: "sz (cat_layout_size + sz_sub (2 ^ Suc ?n) 1 * 8) = cat_header_size + 8 * 2 ^ Suc ?n"
    using small pos by (simp add: cat_layout_size_def cat_header_size_def algebra_simps)
  have "writable (cat_file_map c) (fm_length (cat_file_map c))"
    using inv rw by (simp add: cat_inv_def writable_def)
  then obtain fm where fm: "fm_resize os (cat_file_map c) (cat_header_size + 8 * 2 ^ Suc ?n) = Inr fm"
    "writable fm (cat_header_size + 8 * 2 ^ Suc ?n)" "fm_length fm = cat_header_size + 8 * 2 ^ Suc ?n"
    by (rule fm.resize_writable [OF os])
  let ?c = "c\<lparr>cat_prefix_bits := ?n + 1, cat_prefix_shift := 31 - ?n,
     cat_prefix_mask := cat_prefix_mask c OR push_bit (31 - ?n) 1, cat_buffer_size := 2 ^ Suc ?n, cat_file_map := fm\<rparr>"
  have inv': "cat_inv ?c" and rw': "\<not> fm_read_only (cat_file_map ?c)"
    using inv n fm grow_mask [OF n] by (auto simp: cat_inv_def writable_def simp del: push_bit_of_1)
  have "cat_split os c = cat_split_loop (2 ^ ?n) (2 ^ ?n - 1) (2 * 2 ^ ?n - 1) ?c"
    using inv rw n fm(1) small size
    by (simp add: cat_split_def cat_inv_def Let_def shl32_def writable_def readable_def less_imp_diff_less del: push_bit_of_1)
  with cat_split_loop_eq [OF inv' rw', of "2 ^ ?n"]
  have "cat_split os c = Inr (?c\<lparr>cat_buffer := (\<lambda>i. cat_buffer ?c (if i < 2 * 2 ^ ?n then i div 2 else i))\<rparr>)"
    by simp
  with inv' rw' show ?thesis by simp
qed

section \<open>Opening\<close>

lemma cat_fill_eq:
  assumes "cat_inv c" and "\<not> fm_read_only (cat_file_map c)" and "i + n \<le> 2 ^ cat_prefix_bits c"
  shows "cat_fill n i c =
         Inr (c\<lparr>cat_buffer := (\<lambda>j. if i \<le> j \<and> j < i + n then INVALID_BLOCK_ID else cat_buffer c j)\<rparr>)"
proof -
  have "cat_fill n i c = cat_set_loop n i INVALID_BLOCK_ID c"
  proof (induction n arbitrary: i c)
    case (Suc n)
    then have "cat_fill n (i + 1) = cat_set_loop n (i + 1) INVALID_BLOCK_ID" by (simp add: fun_eq_iff)
    then show ?case by simp
  qed simp
  with cat_set_loop_eq [OF assms] show ?thesis by simp
qed

lemma cat_open_fresh:
  assumes os: "os_serves os" and fm: "fm_open os f False cat_layout_size = Inr fm" "writable fm cat_layout_size"
      "fm_length fm = cat_layout_size"
    and n: "1 \<le> n" "n < 32" and lim: "cat_header_size + 8 * 2 ^ n < os_limit os"
  shows "\<exists>c. cat_open os f n False empty_cat_layout = Inr c \<and> cat_inv c \<and> cat_prefix_bits c = n
    \<and> \<not> fm_read_only (cat_file_map c) \<and> cat_signature c = CAT_SIGNATURE
    \<and> (\<forall>i < 2 ^ n. cat_buffer c i = INVALID_BLOCK_ID)"
proof -
  have "(2::nat) ^ n \<le> 2 ^ 32" using n by (intro power_increasing) auto
  then have small: "(2::nat) ^ n < 2 ^ 64" "8 * (2::nat) ^ n + 32 < 2 ^ 64" by simp_all
  have pos: "1 \<le> (2::nat) ^ n" by simp
  have size: "sz (cat_layout_size + sz_sub (2 ^ n) 1 * 8) = cat_header_size + 8 * 2 ^ n"
    using small pos by (simp add: cat_layout_size_def cat_header_size_def algebra_simps)
  have ent: "unat (push_bit n 1 :: size_t) = 2 ^ n" using n by (intro unat_exp) simp
  obtain fm' where fm': "fm_resize os fm (cat_header_size + 8 * 2 ^ n) = Inr fm'"
    "writable fm' (cat_header_size + 8 * 2 ^ n)" "fm_length fm' = cat_header_size + 8 * 2 ^ n"
    using fm.resize_writable [OF os lim, of fm] fm(2,3) by metis
  define c where "c = (cat_layout.extend empty_cat_layout \<lparr>cat_file_map = fm\<rparr>)\<lparr>cat_file_map := fm', cat_signature := CAT_SIGNATURE, cat_prefix_bits := n,
              cat_prefix_shift := 32 - n, cat_prefix_mask := push_bit (32 - n) (push_bit n 1 - 1), cat_buffer_size := 2 ^ n\<rparr>"
  have inv: "cat_inv c" and rw: "\<not> fm_read_only (cat_file_map c)"
    using n fm' by (auto simp: c_def cat_inv_def writable_def mask_eq_exp_minus_1 cat_layout.defs)
  have "writable fm' cat_layout_size"
    using fm'(2) by (rule writable_mono) (use n in \<open>simp add: cat_layout_size_def cat_header_size_def\<close>)
  then have "cat_open os f n False empty_cat_layout = cat_fill (2 ^ n) 0 c"
    using n fm fm' size ent
    by (simp add: cat_open_def Let_def writable_readable shl64_def shl32_def HASH_BITS_def c_def
        empty_cat_layout_def cat_layout.defs less_imp_diff_less del: push_bit_of_1)
  moreover have "cat_prefix_bits c = n" "cat_signature c = CAT_SIGNATURE" by (simp_all add: c_def)
  ultimately show ?thesis using cat_fill_eq [OF inv rw, of 0 "2 ^ n"] inv rw by auto
qed

section \<open>Properties\<close>

text \<open>A catalogue with two entries, to evaluate examples on.\<close>

definition demo_cat :: catalogue where
  "demo_cat = \<lparr>cat_signature = CAT_SIGNATURE, cat_prefix_bits = 1, cat_prefix_shift = 31, cat_prefix_mask = 0x80000000,
     cat_buffer_size = 2, cat_buffer = (\<lambda>i. i), cat_file_map = demo_fm\<rparr>"

lemma demo_cat_inv: "cat_inv demo_cat" "\<not> fm_read_only (cat_file_map demo_cat)" "cat_prefix_bits demo_cat = 1"
  by (simp_all add: cat_inv_def demo_cat_def demo_fm_def readable_def cat_header_size_def)

text \<open>C26. After \<open>set(hash, offset, value)\<close>, \<open>find\<close> gives the value exactly for the hashes that agree with
  \<open>hash\<close> in their first \<open>offset\<close> bits, and what it gave before for all others.\<close>

theorem cat_set_find:
  assumes "cat_inv c" and "\<not> fm_read_only (cat_file_map c)" and "1 \<le> off" and "off \<le> cat_prefix_bits c"
  shows "\<exists>c'. cat_set c h off v = Inr c'
    \<and> (\<forall>h'. cat_find c' h' = (if prefix_of off h' = prefix_of off h then Inr v else cat_find c h'))"
proof -
  let ?n = "cat_prefix_bits c"
  let ?c = "c\<lparr>cat_buffer := (\<lambda>i. if i div 2 ^ (?n - off) = prefix_of off h then v else cat_buffer c i)\<rparr>"
  have inv: "cat_inv ?c" using assms(1) by simp
  have "?n \<le> 32" using assms(1) by (simp add: cat_inv_def)
  then have "prefix_of ?n h' div 2 ^ (?n - off) = prefix_of off h'" for h'
    using prefix_of_shorter [OF assms(4)] by simp
  then have "cat_find ?c h' = (if prefix_of off h' = prefix_of off h then Inr v else cat_find c h')" for h'
    by (simp add: cat_find_eq [OF inv] cat_find_eq [OF assms(1)])
  then show ?thesis using cat_set_eq [OF assms] by auto
qed

theorem cat_set_find_witness:
  "\<exists>c'. cat_set demo_cat 0x90000000 1 7 = Inr c' \<and>
     (\<forall>h'. cat_find c' h' = (if prefix_of 1 h' = prefix_of 1 0x90000000 then Inr 7 else cat_find demo_cat h'))"
  by (rule cat_set_find) (simp_all add: demo_cat_inv)

text \<open>C27. Doubling the catalogue adds one bit of prefix and changes no lookup.\<close>

theorem cat_split_find:
  assumes inv: "cat_inv c" and "\<not> fm_read_only (cat_file_map c)" and n: "cat_prefix_bits c < 32"
    and "os_serves os" and "cat_header_size + 8 * 2 ^ Suc (cat_prefix_bits c) < os_limit os"
  shows "\<exists>c'. cat_split os c = Inr c' \<and> cat_inv c' \<and> cat_prefix_bits c' = cat_prefix_bits c + 1
    \<and> (\<forall>h. cat_find c' h = cat_find c h)"
proof -
  let ?n = "cat_prefix_bits c"
  from cat_split_eq [OF assms] obtain c' where c': "cat_split os c = Inr c'" "cat_inv c'" "cat_prefix_bits c' = Suc ?n"
    "\<forall>i < 2 ^ Suc ?n. cat_buffer c' i = cat_buffer c (i div 2)" by blast
  have "prefix_of (Suc ?n) h < 2 ^ Suc ?n" "prefix_of (Suc ?n) h div 2 = prefix_of ?n h" for h
    using prefix_of_less [of "Suc ?n" h] prefix_of_shorter [of ?n "Suc ?n" h] n by simp_all
  then have "cat_find c' h = cat_find c h" for h
    using c'(3,4) by (simp add: cat_find_eq [OF c'(2)] cat_find_eq [OF inv])
  with c' show ?thesis by auto
qed

theorem cat_split_find_witness:
  "\<exists>c'. cat_split demo_os demo_cat = Inr c' \<and> cat_inv c' \<and> cat_prefix_bits c' = cat_prefix_bits demo_cat + 1
    \<and> (\<forall>h. cat_find c' h = cat_find demo_cat h)"
  by (rule cat_split_find) (simp_all add: demo_cat_inv demo_os_serves cat_header_size_def)

text \<open>A catalogue of 32 bits cannot be doubled: the shift that makes the new mask bit is undefined.\<close>

theorem cat_split_full:
  assumes "cat_inv c" and "\<not> fm_read_only (cat_file_map c)" and "cat_prefix_bits c = 32"
  shows "cat_split os c = Inl Undefined"
proof -
  have "readable (cat_file_map c) cat_header_size" using assms(1) by (auto simp: cat_inv_def intro: readable_mono)
  then have "writable (cat_file_map c) cat_header_size" using assms(2) by (simp add: writable_def)
  moreover have "cat_prefix_shift c = 0" using assms(1,3) by (simp add: cat_inv_def)
  then have "shl32 1 (sz_sub (cat_prefix_shift c) 1) = Inl Undefined" by (simp add: sz_sub_def shl32_def)
  ultimately show ?thesis by (simp add: cat_split_def Let_def)
qed

theorem cat_split_full_witness:
  "cat_split demo_os (demo_cat\<lparr>cat_prefix_bits := 32, cat_prefix_shift := 0, cat_prefix_mask := 0xFFFFFFFF, cat_buffer_size := 2 ^ 32,
     cat_file_map := demo_fm\<lparr>fm_length := 2 ^ 35 + 32, fm_extent := 2 ^ 35 + 4096\<rparr>\<rparr>) = Inl Undefined"
  by (rule cat_split_full) (simp_all add: cat_inv_def demo_cat_def demo_fm_def readable_def cat_header_size_def mask_eq_exp_minus_1)

end
