(* ===== verification/Container.thy ===== *)
theory Container
  imports Records Catalogue
begin

text \<open>
  The bucket store of \<^verbatim>\<open>src/src/container.h\<close> and \<^verbatim>\<open>src/src/container.cpp\<close>: fixed-size buckets laid
  over a mapped file, linked into overflow chains and into a list of free buckets, each packed with
  records. The template parameter \<open>BucketSize\<close> is the argument \<open>bs\<close> of every operation. A pointer
  into the mapping is modelled as a bucket id and an offset, which is what the code recomputes it
  from after \<open>create_bucket\<close> may have moved the mapping. All operations are defined here;
  \<open>Container_Chains\<close> and \<open>Container_Split\<close> prove what they do.
\<close>

section \<open>State\<close>

definition INVALID_BUCKET_ID :: nat where
  "INVALID_BUCKET_ID = INVALID_ID"

definition CONT_SIGNATURE :: "32 word" where
  "CONT_SIGNATURE = 0x69d3db7a"

definition DEFAULT_BUCKET_SIZE :: nat where
  "DEFAULT_BUCKET_SIZE = 4096 - 3 * 8"

record bucket_t =
  b_prefix_bits :: nat
  b_bytes_used :: nat
  b_next :: nat
  b_data :: bytes

text \<open>\<open>container::layout_t\<close>, packed: the contents of the file.\<close>

record cont_layout =
  c_signature :: "32 word"
  c_count :: nat
  c_first_free :: nat
  c_buckets :: "nat \<Rightarrow> bucket_t"

record container = cont_layout +
  c_file_map :: file_map

definition cont_header_size :: nat where
  "cont_header_size = 4 + 8 + 8"

definition bucket_header_size :: nat where
  "bucket_header_size = 3 * 8"

definition bucket_size :: "nat \<Rightarrow> nat" where
  "bucket_size bs = bucket_header_size + bs"

definition cont_layout_size :: "nat \<Rightarrow> nat" where
  "cont_layout_size bs = cont_header_size + bucket_size bs"

text \<open>The offset of bucket \<open>i\<close> in the file.\<close>

definition bucket_off :: "nat \<Rightarrow> nat \<Rightarrow> nat" where
  "bucket_off bs i = cont_header_size + i * bucket_size bs"

definition empty_bucket :: "nat \<Rightarrow> bucket_t" where
  "empty_bucket bs = \<lparr>b_prefix_bits = 0, b_bytes_used = 0, b_next = 0, b_data = replicate bs 0\<rparr>"

definition empty_cont_layout :: "nat \<Rightarrow> cont_layout" where
  "empty_cont_layout bs = \<lparr>c_signature = 0, c_count = 0, c_first_free = 0, c_buckets = (\<lambda>_. empty_bucket bs)\<rparr>"

text \<open>The memory accesses: the header of a bucket, read and written; the part of its data that is
  mapped; a run of its data, written.\<close>

definition get_bucket :: "nat \<Rightarrow> container \<Rightarrow> nat \<Rightarrow> bucket_t result" where
  "get_bucket bs c i =
     (if readable (c_file_map c) (bucket_off bs i + bucket_header_size) then Inr (c_buckets c i) else Inl Bad_access)"

definition upd_bucket :: "nat \<Rightarrow> container \<Rightarrow> nat \<Rightarrow> (bucket_t \<Rightarrow> bucket_t) \<Rightarrow> container result" where
  "upd_bucket bs c i f =
     (if writable (c_file_map c) (bucket_off bs i + bucket_header_size)
      then Inr (c\<lparr>c_buckets := (c_buckets c)(i := f (c_buckets c i))\<rparr>) else Inl Bad_access)"

definition bucket_view :: "nat \<Rightarrow> container \<Rightarrow> nat \<Rightarrow> bytes" where
  "bucket_view bs c i =
     take (fm_extent (c_file_map c) - (bucket_off bs i + bucket_header_size)) (b_data (c_buckets c i))"

definition put_data :: "nat \<Rightarrow> container \<Rightarrow> nat \<Rightarrow> nat \<Rightarrow> bytes \<Rightarrow> container result" where
  "put_data bs c i off ys =
     (if off + length ys \<le> bs
         \<and> writable (c_file_map c) (bucket_off bs i + bucket_header_size + off + length ys)
      then Inr (c\<lparr>c_buckets := (c_buckets c)(i := (c_buckets c i)\<lparr>b_data := overwrite off ys (b_data (c_buckets c i))\<rparr>)\<rparr>)
      else Inl Bad_access)"

text \<open>A \<^verbatim>\<open>std::string_view\<close> into the data of a bucket, and the bytes it shows.\<close>

record string_view =
  sv_bucket :: nat
  sv_offset :: nat
  sv_size :: nat

definition sv_read :: "nat \<Rightarrow> container \<Rightarrow> string_view \<Rightarrow> bytes result" where
  "sv_read bs c sv =
     (if fm_start (c_file_map c) \<noteq> 0 \<and> sv_offset sv + sv_size sv \<le> length (bucket_view bs c (sv_bucket sv))
      then Inr (segment (sv_offset sv) (sv_size sv) (bucket_view bs c (sv_bucket sv))) else Inl Bad_access)"

section \<open>Operations\<close>

definition cont_open :: "os_env \<Rightarrow> nat \<Rightarrow> string \<Rightarrow> bool \<Rightarrow> cont_layout \<Rightarrow> container result" where
  "cont_open os bs filename read_only disk =
     bind_r (fm_open os filename read_only (cont_layout_size bs)) (\<lambda>fm.
     let c = cont_layout.extend disk \<lparr>c_file_map = fm\<rparr> in
     if \<not> readable fm cont_header_size then Inl Bad_access
     else if c_signature c = 0 then
       (if writable fm cont_header_size
        then Inr (c\<lparr>c_signature := CONT_SIGNATURE, c_first_free := INVALID_BUCKET_ID\<rparr>)
        else Inl Bad_access)
     else if c_signature c \<noteq> CONT_SIGNATURE then
       Inl (Runtime_error (''invalid hash container signature in file '' @ filename))
     else Inr c)"

definition create_bucket :: "os_env \<Rightarrow> nat \<Rightarrow> container \<Rightarrow> nat \<Rightarrow> (container \<times> nat) result" where
  "create_bucket os bs c prefix_bits =
     bind_r
       (if c_first_free c = INVALID_BUCKET_ID then
          let bytes_needed = sz (c_count c * bucket_size bs + cont_layout_size bs) in
          bind_r (if bytes_needed > fm_length (c_file_map c)
                  then fm_resize os (c_file_map c) (sz (bytes_needed * 11) div 10)
                  else Inr (c_file_map c)) (\<lambda>fm.
          if writable fm cont_header_size
          then Inr (c\<lparr>c_file_map := fm, c_count := sz (c_count c + 1)\<rparr>, c_count c)
          else Inl Bad_access)
        else
          let bucket_id = c_first_free c in
          bind_r (get_bucket bs c bucket_id) (\<lambda>b.
          if writable (c_file_map c) cont_header_size
          then Inr (c\<lparr>c_first_free := b_next b\<rparr>, bucket_id)
          else Inl Bad_access))
       (\<lambda>(c, bucket_id).
          bind_r (upd_bucket bs c bucket_id
                    (\<lambda>b. b\<lparr>b_prefix_bits := prefix_bits, b_bytes_used := 0, b_next := INVALID_BUCKET_ID\<rparr>))
            (\<lambda>c. Inr (c, bucket_id)))"

text \<open>The loop of \<open>create_record\<close> looks for the first bucket of the chain with room, hanging a new
  one behind the last.\<close>

partial_function (option) create_record_loop ::
  "os_env \<Rightarrow> nat \<Rightarrow> nat \<Rightarrow> container \<Rightarrow> nat \<Rightarrow> (container \<times> nat) result option" where
  "create_record_loop os bs required c bucket_id =
     (case get_bucket bs c bucket_id of
        Inl e \<Rightarrow> Some (Inl e)
      | Inr b \<Rightarrow>
          if b_bytes_used b + required > bs then
            (if b_next b = INVALID_BUCKET_ID then
               (case create_bucket os bs c (b_prefix_bits b) of
                  Inl e \<Rightarrow> Some (Inl e)
                | Inr cn \<Rightarrow>
                    (case upd_bucket bs (fst cn) bucket_id (\<lambda>b. b\<lparr>b_next := snd cn\<rparr>) of
                       Inl e \<Rightarrow> Some (Inl e)
                     | Inr c \<Rightarrow> create_record_loop os bs required c (snd cn)))
             else create_record_loop os bs required c (b_next b))
          else Some (Inr (c, bucket_id)))"

definition create_record ::
  "os_env \<Rightarrow> nat \<Rightarrow> container \<Rightarrow> nat \<Rightarrow> hash_t \<Rightarrow> bytes \<Rightarrow> bytes \<Rightarrow> (container \<times> string_view) result option" where
  "create_record os bs c bucket_id hash key value =
     bind_o (create_record_loop os bs (bytes_required key value) c bucket_id) (\<lambda>(c, bucket_id).
     let used = b_bytes_used (c_buckets c bucket_id);
         head = enc_header hash key value @ key in
     Some (
       bind_r (put_data bs c bucket_id used (head @ value)) (\<lambda>c.
       bind_r (upd_bucket bs c bucket_id (\<lambda>b. b\<lparr>b_bytes_used := b_bytes_used b + bytes_required key value\<rparr>)) (\<lambda>c.
       Inr (c, \<lparr>sv_bucket = bucket_id, sv_offset = used + length head, sv_size = length value\<rparr>)))))"

partial_function (option) find_value ::
  "nat \<Rightarrow> container \<Rightarrow> nat \<Rightarrow> hash_t \<Rightarrow> bytes \<Rightarrow> string_view option result option" where
  "find_value bs c bucket_id hash key =
     (if bucket_id = INVALID_BUCKET_ID then Some (Inr None)
      else case get_bucket bs c bucket_id of
        Inl e \<Rightarrow> Some (Inl e)
      | Inr b \<Rightarrow>
          (case find_scan (bucket_view bs c bucket_id) 0 (b_bytes_used b) hash key of
             Inl e \<Rightarrow> Some (Inl e)
           | Inr hit \<Rightarrow>
               (case hit of
                  None \<Rightarrow> find_value bs c (b_next b) hash key
                | Some ol \<Rightarrow> Some (Inr (Some \<lparr>sv_bucket = bucket_id, sv_offset = fst ol, sv_size = snd ol\<rparr>)))))"

definition find_record :: "nat \<Rightarrow> container \<Rightarrow> nat \<Rightarrow> hash_t \<Rightarrow> bytes \<Rightarrow> string_view option result option" where
  "find_record bs c bucket_id hash key = find_value bs c bucket_id hash key"

text \<open>The copy in \<open>remove_record\<close> closes the gap the record leaves.\<close>

definition remove_from :: "nat \<Rightarrow> container \<Rightarrow> nat \<Rightarrow> nat \<Rightarrow> nat \<Rightarrow> container result" where
  "remove_from bs c bucket_id record_start record_length =
     (let used = b_bytes_used (c_buckets c bucket_id);
          record_end = record_start + record_length in
      if used < record_end then Inl Undefined
      else if length (bucket_view bs c bucket_id) < used then Inl Bad_access
      else
        bind_r (put_data bs c bucket_id record_start (segment record_end (used - record_end) (bucket_view bs c bucket_id))) (\<lambda>c.
        upd_bucket bs c bucket_id (\<lambda>b. b\<lparr>b_bytes_used := b_bytes_used b - record_length\<rparr>)))"

partial_function (option) remove_record ::
  "nat \<Rightarrow> container \<Rightarrow> nat \<Rightarrow> hash_t \<Rightarrow> bytes \<Rightarrow> (container \<times> bool) result option" where
  "remove_record bs c bucket_id hash key =
     (if bucket_id = INVALID_BUCKET_ID then Some (Inr (c, False))
      else case get_bucket bs c bucket_id of
        Inl e \<Rightarrow> Some (Inl e)
      | Inr b \<Rightarrow>
          (case remove_scan (bucket_view bs c bucket_id) 0 (b_bytes_used b) hash key of
             Inl e \<Rightarrow> Some (Inl e)
           | Inr hit \<Rightarrow>
               (case hit of
                  None \<Rightarrow> remove_record bs c (b_next b) hash key
                | Some sl \<Rightarrow>
                    Some (bind_r (remove_from bs c bucket_id (fst sl) (snd sl)) (\<lambda>c. Inr (c, True))))))"

text \<open>\<open>container::get\<close>\<close>

definition cont_get ::
  "os_env \<Rightarrow> nat \<Rightarrow> container \<Rightarrow> nat \<Rightarrow> hash_t \<Rightarrow> bytes \<Rightarrow> bytes \<Rightarrow> (container \<times> string_view) result option" where
  "cont_get os bs c bucket_id hash key value =
     bind_o (find_record bs c bucket_id hash key) (\<lambda>r.
       case r of
         Some sv \<Rightarrow> Some (Inr (c, sv))
       | None \<Rightarrow> create_record os bs c bucket_id hash key value)"

definition read_record :: "nat \<Rightarrow> container \<Rightarrow> nat \<Rightarrow> nat \<Rightarrow> (record_view \<times> nat) option result" where
  "read_record bs c bucket_id byte_offset =
     bind_r (get_bucket bs c bucket_id) (\<lambda>b.
     if b_bytes_used b \<le> byte_offset then Inr None
     else
       let mem = bucket_view bs c bucket_id in
       bind_r (read_header mem byte_offset) (\<lambda>(record_hash, key_length, value_length, cur).
       if length mem < cur + key_length + value_length then Inl Bad_access
       else Inr (Some (\<lparr>rv_hash = record_hash, rv_key = segment cur key_length mem,
                        rv_value = segment (cur + key_length) value_length mem\<rparr>,
                       cur + key_length + value_length))))"

definition next_bucket :: "nat \<Rightarrow> container \<Rightarrow> nat \<Rightarrow> nat result" where
  "next_bucket bs c bucket_id = bind_r (get_bucket bs c bucket_id) (\<lambda>b. Inr (b_next b))"

definition bucket_bytes_used :: "nat \<Rightarrow> container \<Rightarrow> nat \<Rightarrow> nat result" where
  "bucket_bytes_used bs c bucket_id = bind_r (get_bucket bs c bucket_id) (\<lambda>b. Inr (b_bytes_used b))"

definition bucket_prefix_bits :: "nat \<Rightarrow> container \<Rightarrow> nat \<Rightarrow> nat result" where
  "bucket_prefix_bits bs c bucket_id = bind_r (get_bucket bs c bucket_id) (\<lambda>b. Inr (b_prefix_bits b))"

definition buckets_count :: "container \<Rightarrow> nat" where
  "buckets_count c = c_count c"

definition cont_bytes_allocated :: "container \<Rightarrow> nat" where
  "cont_bytes_allocated c = fm_length (c_file_map c)"

definition bucket_to_split :: "nat \<Rightarrow> container \<Rightarrow> nat \<Rightarrow> bool result" where
  "bucket_to_split bs c bucket_id =
     bind_r (get_bucket bs c bucket_id) (\<lambda>b1.
     if b_next b1 = INVALID_BUCKET_ID then Inr False
     else
       bind_r (get_bucket bs c (b_next b1)) (\<lambda>b2.
       if b_next b2 \<noteq> INVALID_BUCKET_ID then Inr True
       else Inr (b_bytes_used b1 + b_bytes_used b2 > 3 * bs div 2)))"

definition cont_close :: "os_env \<Rightarrow> container \<Rightarrow> container \<times> unit result" where
  "cont_close os c = (let (fm, r) = fm_close os (c_file_map c) in (c\<lparr>c_file_map := fm\<rparr>, r))"

section \<open>Splitting a chain\<close>

text \<open>The variables of \<open>split\<close> that its loops change: the container, the bucket each half is filled
  into, and the offsets \<open>bit0_bucket_put\<close> and \<open>bit1_bucket_put\<close> there.\<close>

record split_state =
  ss_cont :: container
  ss_bit0 :: nat
  ss_bit1 :: nat
  ss_put0 :: nat
  ss_put1 :: nat

abbreviation used_of :: "container \<Rightarrow> nat \<Rightarrow> nat" where
  "used_of c i \<equiv> b_bytes_used (c_buckets c i)"

text \<open>\<open>bytes_used += record_length\<close> after the copy of a record of bucket \<open>get_id\<close> at \<open>get\<close> to
  offset \<open>put\<close> of bucket \<open>put_id\<close>.\<close>

definition split_copy :: "nat \<Rightarrow> container \<Rightarrow> nat \<Rightarrow> nat \<Rightarrow> nat \<Rightarrow> nat \<Rightarrow> nat \<Rightarrow> container result" where
  "split_copy bs c get_id get record_length put_id put =
     (if length (bucket_view bs c get_id) < get + record_length then Inl Bad_access
      else
        bind_r (put_data bs c put_id put (segment get record_length (bucket_view bs c get_id))) (\<lambda>c.
        upd_bucket bs c put_id (\<lambda>b. b\<lparr>b_bytes_used := b_bytes_used b + record_length\<rparr>)))"

text \<open>A record whose new bit is set: make room in the second chain, then copy.\<close>

definition split_room1 :: "os_env \<Rightarrow> nat \<Rightarrow> nat \<Rightarrow> nat \<Rightarrow> split_state \<Rightarrow> split_state result" where
  "split_room1 os bs prefix_bits record_length st =
     bind_r (get_bucket bs (ss_cont st) (ss_bit1 st)) (\<lambda>b1.
     if b_bytes_used b1 + record_length > bs then
       if ss_put1 st \<noteq> b_bytes_used b1 then Inl Assertion_failed
       else
         bind_r (create_bucket os bs (ss_cont st) prefix_bits) (\<lambda>(c, new_bucket_id).
         bind_r (upd_bucket bs c (ss_bit1 st) (\<lambda>b. b\<lparr>b_next := new_bucket_id\<rparr>)) (\<lambda>c.
         Inr (st\<lparr>ss_cont := c, ss_bit1 := new_bucket_id, ss_put0 := used_of c (ss_bit0 st), ss_put1 := 0\<rparr>)))
     else Inr st)"

definition split_move1 ::
  "os_env \<Rightarrow> nat \<Rightarrow> nat \<Rightarrow> nat \<Rightarrow> nat \<Rightarrow> nat \<Rightarrow> split_state \<Rightarrow> split_state result" where
  "split_move1 os bs prefix_bits get_id get record_length st =
     bind_r (split_room1 os bs prefix_bits record_length st) (\<lambda>st.
     bind_r (split_copy bs (ss_cont st) get_id get record_length (ss_bit1 st) (ss_put1 st)) (\<lambda>c.
     Inr (st\<lparr>ss_cont := c, ss_put1 := ss_put1 st + record_length\<rparr>)))"

text \<open>A record whose new bit is clear: go on to the next bucket of the chain itself.\<close>

definition split_room0 :: "os_env \<Rightarrow> nat \<Rightarrow> nat \<Rightarrow> nat \<Rightarrow> split_state \<Rightarrow> split_state result" where
  "split_room0 os bs prefix_bits record_length st =
     bind_r (get_bucket bs (ss_cont st) (ss_bit0 st)) (\<lambda>b0.
     if b_bytes_used b0 + record_length > bs then
       if ss_put0 st \<noteq> b_bytes_used b0 then Inl Assertion_failed
       else
         bind_r
           (if b_next b0 \<noteq> INVALID_BUCKET_ID then Inr (st\<lparr>ss_bit0 := b_next b0\<rparr>)
            else
              bind_r (create_bucket os bs (ss_cont st) prefix_bits) (\<lambda>(c, new_bucket_id).
              bind_r (upd_bucket bs c (ss_bit0 st) (\<lambda>b. b\<lparr>b_next := new_bucket_id\<rparr>)) (\<lambda>c.
              Inr (st\<lparr>ss_cont := c, ss_bit0 := new_bucket_id, ss_put1 := used_of c (ss_bit1 st)\<rparr>))))
           (\<lambda>st.
              bind_r (upd_bucket bs (ss_cont st) (ss_bit0 st) (\<lambda>b. b\<lparr>b_prefix_bits := prefix_bits\<rparr>)) (\<lambda>c.
              Inr (st\<lparr>ss_cont := c, ss_put0 := 0\<rparr>)))
     else Inr st)"

definition split_move0 ::
  "os_env \<Rightarrow> nat \<Rightarrow> nat \<Rightarrow> nat \<Rightarrow> nat \<Rightarrow> nat \<Rightarrow> split_state \<Rightarrow> split_state result" where
  "split_move0 os bs prefix_bits get_id get record_length st =
     bind_r (split_room0 os bs prefix_bits record_length st) (\<lambda>st.
     bind_r (split_copy bs (ss_cont st) get_id get record_length (ss_bit0 st) (ss_put0 st)) (\<lambda>c.
     Inr (st\<lparr>ss_cont := c, ss_put0 := ss_put0 st + record_length\<rparr>)))"

text \<open>The body of the inner loop: the record at \<open>get\<close>, and where the next one starts.\<close>

definition split_step ::
  "os_env \<Rightarrow> nat \<Rightarrow> nat \<Rightarrow> hash_t \<Rightarrow> nat \<Rightarrow> split_state \<Rightarrow> nat \<Rightarrow> (split_state \<times> nat) result" where
  "split_step os bs prefix_bits new_bit get_id st get =
     bind_r (read_header (bucket_view bs (ss_cont st) get_id) get) (\<lambda>(hash, key_length, value_length, cur).
     let record_length = (cur - get) + key_length + value_length in
     if record_length \<noteq> 4 + vbe_length (of_nat key_length :: size_t) + key_length
                        + vbe_length (of_nat value_length :: size_t) + value_length
     then Inl Assertion_failed
     else
       bind_r (if hash AND new_bit \<noteq> 0 then split_move1 os bs prefix_bits get_id get record_length st
               else split_move0 os bs prefix_bits get_id get record_length st)
         (\<lambda>st. Inr (st, get + record_length)))"

partial_function (option) split_inner ::
  "os_env \<Rightarrow> nat \<Rightarrow> nat \<Rightarrow> hash_t \<Rightarrow> nat \<Rightarrow> nat \<Rightarrow> split_state \<Rightarrow> nat \<Rightarrow> split_state result option" where
  "split_inner os bs prefix_bits new_bit get_id get_last st get =
     (if get = get_last then Some (Inr st)
      else case split_step os bs prefix_bits new_bit get_id st get of
        Inl e \<Rightarrow> Some (Inl e)
      | Inr sg \<Rightarrow> split_inner os bs prefix_bits new_bit get_id get_last (fst sg) (snd sg))"

partial_function (option) split_outer ::
  "os_env \<Rightarrow> nat \<Rightarrow> nat \<Rightarrow> hash_t \<Rightarrow> split_state \<Rightarrow> nat \<Rightarrow> split_state result option" where
  "split_outer os bs prefix_bits new_bit st get_id =
     (if get_id = INVALID_BUCKET_ID then Some (Inr st)
      else case upd_bucket bs (ss_cont st) get_id (\<lambda>b. b\<lparr>b_bytes_used := 0\<rparr>) of
        Inl e \<Rightarrow> Some (Inl e)
      | Inr c \<Rightarrow>
          (case split_inner os bs prefix_bits new_bit get_id (used_of (ss_cont st) get_id) (st\<lparr>ss_cont := c\<rparr>) 0 of
             None \<Rightarrow> None
           | Some r \<Rightarrow>
               (case r of
                  Inl e \<Rightarrow> Some (Inl e)
                | Inr st \<Rightarrow>
                    (case next_bucket bs (ss_cont st) get_id of
                       Inl e \<Rightarrow> Some (Inl e)
                     | Inr n \<Rightarrow> split_outer os bs prefix_bits new_bit st n))))"

text \<open>The buckets the first half no longer needs go to the free list.\<close>

partial_function (option) split_free :: "nat \<Rightarrow> container \<Rightarrow> nat \<Rightarrow> container result option" where
  "split_free bs c free_bucket_id =
     (if free_bucket_id = INVALID_BUCKET_ID then Some (Inr c)
      else case get_bucket bs c free_bucket_id of
        Inl e \<Rightarrow> Some (Inl e)
      | Inr b \<Rightarrow>
          if b_bytes_used b \<noteq> 0 then Some (Inl Assertion_failed)
          else
            (case upd_bucket bs c free_bucket_id (\<lambda>b. b\<lparr>b_next := c_first_free c\<rparr>) of
               Inl e \<Rightarrow> Some (Inl e)
             | Inr c \<Rightarrow> split_free bs (c\<lparr>c_first_free := free_bucket_id\<rparr>) (b_next b)))"

text \<open>\<open>container::split\<close>\<close>

definition cont_split :: "os_env \<Rightarrow> nat \<Rightarrow> container \<Rightarrow> nat \<Rightarrow> (container \<times> nat) result option" where
  "cont_split os bs c bucket_id =
     bind_o (Some (upd_bucket bs c bucket_id (\<lambda>b. b\<lparr>b_prefix_bits := b_prefix_bits b + 1\<rparr>))) (\<lambda>c.
     let prefix_bits = b_prefix_bits (c_buckets c bucket_id) in
     bind_o (Some (create_bucket os bs c prefix_bits)) (\<lambda>(c, bit1_bucket_id).
     bind_o (Some (shl32 1 (sz_sub HASH_BITS prefix_bits))) (\<lambda>new_bit.
     bind_o (split_outer os bs prefix_bits new_bit
               \<lparr>ss_cont = c, ss_bit0 = bucket_id, ss_bit1 = bit1_bucket_id, ss_put0 = 0, ss_put1 = 0\<rparr> bucket_id) (\<lambda>st.
     let c = ss_cont st; free_bucket_id = b_next (c_buckets c (ss_bit0 st)) in
     bind_o (Some (upd_bucket bs c (ss_bit0 st) (\<lambda>b. b\<lparr>b_next := INVALID_BUCKET_ID\<rparr>))) (\<lambda>c.
     bind_o (split_free bs c free_bucket_id) (\<lambda>c.
     Some (Inr (c, bit1_bucket_id))))))))"

end
