(* ===== verification/Container_Chains.thy ===== *)
theory Container_Chains
  imports Container
begin

text \<open>
  What the operations of the container do to the chains of buckets: the invariant of the store
  (\<open>cont_inv\<close>: every bucket below \<open>buckets_count\<close> is mapped, the free list is a chain of such
  buckets) and the contents of a bucket (\<open>bucket_holds\<close>: its used bytes are a list of packed
  records), and from them the behaviour of \<open>create_bucket\<close>, \<open>find_value\<close>, \<open>create_record\<close>,
  \<open>remove_record\<close> and \<open>read_record\<close> on a chain.
\<close>

section \<open>Invariant\<close>

definition nexts :: "container \<Rightarrow> nat \<Rightarrow> nat" where
  "nexts c i = b_next (c_buckets c i)"

definition bucket_holds :: "nat \<Rightarrow> bucket_t \<Rightarrow> record_view list \<Rightarrow> bool" where
  "bucket_holds bs b rs \<longleftrightarrow> b_bytes_used b = length (encs rs) \<and> b_bytes_used b \<le> bs
     \<and> take (b_bytes_used b) (b_data b) = encs rs"

definition cont_inv :: "nat \<Rightarrow> container \<Rightarrow> nat list \<Rightarrow> bool" where
  "cont_inv bs c fs \<longleftrightarrow> bs < 2 ^ 31 \<and> (\<forall>i. length (b_data (c_buckets c i)) = bs)
     \<and> readable (c_file_map c) (fm_length (c_file_map c))
     \<and> readable (c_file_map c) (bucket_off bs (c_count c))
     \<and> c_count c < INVALID_ID
     \<and> chain (nexts c) (c_first_free c) fs \<and> set fs \<subseteq> {..<c_count c}"

definition holds_chain :: "nat \<Rightarrow> container \<Rightarrow> nat list \<Rightarrow> (nat \<Rightarrow> record_view list) \<Rightarrow> bool" where
  "holds_chain bs c ids ct \<longleftrightarrow> (\<forall>i \<in> set ids. i < c_count c \<and> bucket_holds bs (c_buckets c i) (ct i))"

definition cont_rw :: "container \<Rightarrow> bool" where
  "cont_rw c \<longleftrightarrow> \<not> fm_read_only (c_file_map c)"

text \<open>The system can hold \<open>n + 1\<close> buckets, with the spare tenth \<open>create_bucket\<close> asks for.\<close>

definition capacity :: "os_env \<Rightarrow> nat \<Rightarrow> nat \<Rightarrow> bool" where
  "capacity os bs n \<longleftrightarrow> bucket_off bs (n + 1) * 11 < os_limit os"

lemma capacity_mono: "capacity os bs n \<Longrightarrow> m \<le> n \<Longrightarrow> capacity os bs m"
proof -
  assume "capacity os bs n" "m \<le> n"
  moreover have "bucket_off bs (m + 1) \<le> bucket_off bs (n + 1)"
    using \<open>m \<le> n\<close> unfolding bucket_off_def by (intro add_left_mono mult_le_mono1) simp
  ultimately show ?thesis by (simp add: capacity_def)
qed

lemma os_limit_le: "os_limit os \<le> 2 ^ 63"
  by (cases "os_platform os") (simp_all add: os_limit_def)

lemma bucket_off_mono: "i < n \<Longrightarrow> bucket_off bs i + bucket_size bs \<le> bucket_off bs n"
proof -
  assume "i < n"
  then have "(i + 1) * bucket_size bs \<le> n * bucket_size bs" by (intro mult_le_mono1) simp
  then show ?thesis by (simp add: bucket_off_def)
qed

lemma less_bucket_off: "n < bucket_off bs n"
proof -
  have "n * 1 \<le> n * bucket_size bs"
    by (rule mult_le_mono2) (simp add: bucket_size_def bucket_header_size_def)
  then show ?thesis unfolding bucket_off_def cont_header_size_def mult_1_right by linarith
qed

lemma cont_readable:
  assumes "cont_inv bs c fs" and "i < c_count c"
  shows "readable (c_file_map c) (bucket_off bs i + bucket_size bs)"
  using assms bucket_off_mono [of i "c_count c" bs] by (auto simp: cont_inv_def intro: readable_mono)

lemma get_bucket_eq:
  assumes "cont_inv bs c fs" and "i < c_count c"
  shows "get_bucket bs c i = Inr (c_buckets c i)"
  using cont_readable [OF assms]
  by (auto simp: get_bucket_def bucket_size_def intro: readable_mono)

lemma upd_bucket_eq:
  assumes "cont_inv bs c fs" and "cont_rw c" and "i < c_count c"
  shows "upd_bucket bs c i f = Inr (c\<lparr>c_buckets := (c_buckets c)(i := f (c_buckets c i))\<rparr>)"
  using cont_readable [OF assms(1,3)] assms(2)
  by (auto simp: upd_bucket_def bucket_size_def writable_def cont_rw_def intro: readable_mono)

lemma put_data_eq:
  assumes "cont_inv bs c fs" and "cont_rw c" and "i < c_count c" and "off + length ys \<le> bs"
  shows "put_data bs c i off ys = Inr (c\<lparr>c_buckets :=
    (c_buckets c)(i := (c_buckets c i)\<lparr>b_data := overwrite off ys (b_data (c_buckets c i))\<rparr>)\<rparr>)"
  using cont_readable [OF assms(1,3)] assms(2,4)
  by (auto simp: put_data_def bucket_size_def writable_def cont_rw_def intro: readable_mono)

lemma bucket_view_eq:
  assumes "cont_inv bs c fs" and "i < c_count c"
  shows "bucket_view bs c i = b_data (c_buckets c i)"
proof -
  have "bs \<le> fm_extent (c_file_map c) - (bucket_off bs i + bucket_header_size)"
    using cont_readable [OF assms] by (auto simp: readable_def bucket_size_def)
  moreover have "length (b_data (c_buckets c i)) = bs" using assms(1) by (simp add: cont_inv_def)
  ultimately show ?thesis by (simp add: bucket_view_def)
qed

lemma length_data: "cont_inv bs c fs \<Longrightarrow> length (b_data (c_buckets c i)) = bs"
  by (simp add: cont_inv_def)

lemma bucket_holds_data:
  assumes "bucket_holds bs b rs" and "length (b_data b) = bs"
  shows "drop 0 (b_data b) = encs rs @ drop (b_bytes_used b) (b_data b)"
  using assms by (metis append_take_drop_id bucket_holds_def drop0)

text \<open>Updates of a bucket outside the free list keep the invariant of the store.\<close>

lemma cont_inv_upd:
  assumes "cont_inv bs c fs" and "length (b_data b) = bs" and "i \<notin> set fs \<or> b_next b = nexts c i"
  shows "cont_inv bs (c\<lparr>c_buckets := (c_buckets c)(i := b)\<rparr>) fs"
proof -
  have "chain (nexts (c\<lparr>c_buckets := (c_buckets c)(i := b)\<rparr>)) (c_first_free c) fs = chain (nexts c) (c_first_free c) fs"
    using assms(3) by (intro chain_cong) (auto simp: nexts_def)
  then show ?thesis using assms by (simp add: cont_inv_def)
qed

section \<open>Creating a bucket\<close>

lemma create_bucket_pop:
  assumes inv: "cont_inv bs c fs" and rw: "cont_rw c" and fs: "fs = n # fs'"
  shows "create_bucket os bs c pb = Inr (c\<lparr>c_first_free := nexts c n, c_buckets := (c_buckets c)(n :=
      (c_buckets c n)\<lparr>b_prefix_bits := pb, b_bytes_used := 0, b_next := INVALID_BUCKET_ID\<rparr>)\<rparr>, n)"
proof -
  have n: "c_first_free c = n" "n \<noteq> INVALID_BUCKET_ID" "n < c_count c"
    using inv fs by (auto simp: cont_inv_def INVALID_BUCKET_ID_def)
  have w: "writable (c_file_map c) (bucket_off bs n + bucket_header_size)" "writable (c_file_map c) cont_header_size"
    using cont_readable [OF inv n(3)] rw
    by (auto simp: writable_def cont_rw_def bucket_size_def bucket_off_def intro: readable_mono)
  then show ?thesis using n get_bucket_eq [OF inv n(3)]
    by (simp add: create_bucket_def upd_bucket_def nexts_def)
qed

lemma create_bucket_grow:
  assumes inv: "cont_inv bs c []" and rw: "cont_rw c" and os: "os_serves os" "capacity os bs (c_count c)"
  shows "\<exists>fm. create_bucket os bs c pb = Inr (c\<lparr>c_file_map := fm, c_count := c_count c + 1, c_buckets := (c_buckets c)(c_count c :=
      (c_buckets c (c_count c))\<lparr>b_prefix_bits := pb, b_bytes_used := 0, b_next := INVALID_BUCKET_ID\<rparr>)\<rparr>, c_count c)
    \<and> writable fm (fm_length fm) \<and> writable fm (bucket_off bs (c_count c + 1))"
proof -
  define need where "need = bucket_off bs (c_count c + 1)"
  let ?fm = "c_file_map c"
  have "need * 11 < 2 ^ 63" using os(2) os_limit_le [of os] by (simp add: capacity_def need_def)
  then have "need < 2 ^ 64" "need * 11 < 2 ^ 64" by simp_all
  then have sizes: "sz (c_count c * bucket_size bs + cont_layout_size bs) = need" "sz (need * 11) = need * 11"
    by (simp_all add: need_def bucket_off_def cont_layout_size_def add.commute add.left_commute)
  from less_bucket_off [of "c_count c + 1" bs, folded need_def] \<open>need * 11 < 2 ^ 63\<close> have cnt': "sz (c_count c + 1) = c_count c + 1" by simp
  have w0: "writable ?fm (fm_length ?fm)" using inv rw by (simp add: cont_inv_def cont_rw_def writable_def)
  have "need * 11 div 10 < os_limit os" using os(2) by (simp add: capacity_def need_def)
  then obtain fm1 where fm1: "fm_resize os ?fm (need * 11 div 10) = Inr fm1" "writable fm1 (need * 11 div 10)"
      "fm_length fm1 = need * 11 div 10"
    using fm.resize_writable [OF os(1) _ w0] by metis
  define fm where "fm = (if need > fm_length ?fm then fm1 else ?fm)"
  have fm_eq: "(if need > fm_length ?fm then fm_resize os ?fm (sz (need * 11) div 10) else Inr ?fm) = Inr fm"
    using fm1 sizes(2) by (simp add: fm_def)
  have w: "writable fm (fm_length fm)" "writable fm need"
    using fm1 w0 by (auto simp: fm_def intro: writable_mono)
  have "bucket_off bs (c_count c) + bucket_header_size \<le> need" "cont_header_size \<le> need"
    by (simp_all add: need_def bucket_off_def bucket_size_def)
  then have "writable fm (bucket_off bs (c_count c) + bucket_header_size)" "writable fm cont_header_size"
    using w(2) by (auto intro: writable_mono)
  moreover have "c_first_free c = INVALID_BUCKET_ID"
    using inv by (simp add: cont_inv_def INVALID_BUCKET_ID_def)
  ultimately have "create_bucket os bs c pb = Inr (c\<lparr>c_file_map := fm, c_count := c_count c + 1, c_buckets := (c_buckets c)(c_count c :=
      (c_buckets c (c_count c))\<lparr>b_prefix_bits := pb, b_bytes_used := 0, b_next := INVALID_BUCKET_ID\<rparr>)\<rparr>, c_count c)"
    using cnt' by (simp add: create_bucket_def upd_bucket_def Let_def sizes(1) fm_eq split del: if_split)
  with w show ?thesis unfolding need_def by blast
qed

text \<open>Both ways give a bucket that was in no chain, empty, and leave every other bucket alone.\<close>

definition fresh_bucket :: "nat \<Rightarrow> container \<Rightarrow> nat list \<Rightarrow> nat \<Rightarrow> container \<Rightarrow> nat \<Rightarrow> nat list \<Rightarrow> bool" where
  "fresh_bucket bs c fs pb c' n fs' \<longleftrightarrow> cont_inv bs c' fs' \<and> cont_rw c'
     \<and> c_buckets c' = (c_buckets c)(n := (c_buckets c n)\<lparr>b_prefix_bits := pb, b_bytes_used := 0, b_next := INVALID_BUCKET_ID\<rparr>)
     \<and> (fs = n # fs' \<and> c_count c' = c_count c \<or> fs = [] \<and> fs' = [] \<and> n = c_count c \<and> c_count c' = c_count c + 1)"

lemma create_bucket_spec:
  assumes inv: "cont_inv bs c fs" and rw: "cont_rw c" and os: "os_serves os" "capacity os bs (c_count c)"
  obtains c' n fs' where "create_bucket os bs c pb = Inr (c', n)" and "fresh_bucket bs c fs pb c' n fs'"
proof (cases fs)
  case Nil
  with inv have inv': "cont_inv bs c []" by simp
  from create_bucket_grow [OF this rw os, of pb] obtain fm where
    fm: "create_bucket os bs c pb = Inr (c\<lparr>c_file_map := fm, c_count := c_count c + 1, c_buckets := (c_buckets c)(c_count c :=
      (c_buckets c (c_count c))\<lparr>b_prefix_bits := pb, b_bytes_used := 0, b_next := INVALID_BUCKET_ID\<rparr>)\<rparr>, c_count c)"
    and w: "writable fm (fm_length fm)" "writable fm (bucket_off bs (c_count c + 1))" by blast
  have "bucket_off bs (c_count c + 1) * 11 < 2 ^ 63" using os(2) os_limit_le [of os] by (simp add: capacity_def)
  with less_bucket_off [of "c_count c + 1" bs] have "c_count c + 1 < INVALID_ID" by (simp add: INVALID_ID_def)
  with fm w inv' Nil show ?thesis
    by (intro that [OF fm, of "[]"]) (auto simp: fresh_bucket_def cont_inv_def cont_rw_def writable_def)
next
  case (Cons n fs')
  have n: "n \<notin> set fs'" "chain (nexts c) (nexts c n) fs'"
    using inv Cons chain_distinct [of "nexts c" "c_first_free c" fs] by (auto simp: cont_inv_def)
  let ?c = "c\<lparr>c_first_free := nexts c n, c_buckets := (c_buckets c)(n :=
      (c_buckets c n)\<lparr>b_prefix_bits := pb, b_bytes_used := 0, b_next := INVALID_BUCKET_ID\<rparr>)\<rparr>"
  have "chain (nexts ?c) (nexts c n) fs' = chain (nexts c) (nexts c n) fs'"
    using n(1) by (intro chain_cong) (auto simp: nexts_def)
  then have "cont_inv bs ?c fs'" using inv Cons n by (auto simp: cont_inv_def)
  with rw Cons show ?thesis
    by (intro that [OF create_bucket_pop [OF inv rw Cons]]) (auto simp: fresh_bucket_def cont_rw_def)
qed

lemma fresh_bucketD:
  assumes "fresh_bucket bs c fs pb c' n fs'" and "cont_inv bs c fs"
  shows "cont_inv bs c' fs'" "cont_rw c'" "n < c_count c'" "n \<noteq> INVALID_ID" "c_count c \<le> c_count c'"
    "c_count c' \<le> c_count c + 1" "n \<notin> set fs'" "set fs' \<subseteq> set fs" "n \<in> set fs \<or> n \<ge> c_count c"
    "b_next (c_buckets c' n) = INVALID_ID" "b_bytes_used (c_buckets c' n) = 0" "b_prefix_bits (c_buckets c' n) = pb"
    "\<And>i. i \<noteq> n \<Longrightarrow> c_buckets c' i = c_buckets c i"
    "insert n (set fs' \<union> {i. c_count c \<le> i \<and> i < c_count c'}) = set fs \<union> {i. c_count c \<le> i \<and> i < c_count c'} \<union> {n}"
  using assms chain_distinct [of "nexts c" "c_first_free c" fs]
  by (auto simp: fresh_bucket_def cont_inv_def INVALID_BUCKET_ID_def)

section \<open>Finding a record\<close>

text \<open>The view \<open>find_value\<close> returns for the record behind \<open>as\<close> in bucket \<open>i\<close>.\<close>

definition view_of :: "nat \<Rightarrow> record_view list \<Rightarrow> record_view \<Rightarrow> string_view" where
  "view_of i as r = \<lparr>sv_bucket = i, sv_offset = length (encs as) + value_offset r, sv_size = length (rv_value r)\<rparr>"

lemma bucket_holds_small: "bucket_holds bs b rs \<Longrightarrow> bs < 2 ^ 31 \<Longrightarrow> length (encs rs) < 2 ^ 31"
  by (simp add: bucket_holds_def)

lemma bucket_scans:
  assumes inv: "cont_inv bs c fs" and i: "i < c_count c" and holds: "bucket_holds bs (c_buckets c i) rs"
  shows "\<forall>r \<in> set rs. \<not> matches h k r \<Longrightarrow> find_scan (bucket_view bs c i) 0 (used_of c i) h k = Inr None"
    and "\<forall>r \<in> set rs. \<not> matches h k r \<Longrightarrow> remove_scan (bucket_view bs c i) 0 (used_of c i) h k = Inr None"
    and "rs = as @ r # bs' \<Longrightarrow> \<forall>r \<in> set as. \<not> matches h k r \<Longrightarrow> matches h k r \<Longrightarrow>
      find_scan (bucket_view bs c i) 0 (used_of c i) h k =
      Inr (Some (length (encs as) + value_offset r, length (rv_value r)))"
    and "rs = as @ r # bs' \<Longrightarrow> \<forall>r \<in> set as. \<not> matches h k r \<Longrightarrow> matches h k r \<Longrightarrow>
      remove_scan (bucket_view bs c i) 0 (used_of c i) h k = Inr (Some (length (encs as), length (enc r)))"
proof -
  have view: "bucket_view bs c i = b_data (c_buckets c i)" by (rule bucket_view_eq [OF inv i])
  have mem: "drop 0 (bucket_view bs c i) = encs rs @ drop (used_of c i) (b_data (c_buckets c i))"
    unfolding view by (rule bucket_holds_data [OF holds length_data [OF inv]])
  have used: "used_of c i = length (encs rs)" using holds by (simp add: bucket_holds_def)
  have fits: "length (encs rs) < 2 ^ 31" using holds inv by (intro bucket_holds_small) (auto simp: cont_inv_def)
  note none = scan_none [OF mem _ fits] and found = scan_found [OF mem _ _ _ fits]
  show "\<forall>r \<in> set rs. \<not> matches h k r \<Longrightarrow> find_scan (bucket_view bs c i) 0 (used_of c i) h k = Inr None"
    unfolding used by (rule none(1))
  show "\<forall>r \<in> set rs. \<not> matches h k r \<Longrightarrow> remove_scan (bucket_view bs c i) 0 (used_of c i) h k = Inr None"
    unfolding used by (rule none(2))
  show "rs = as @ r # bs' \<Longrightarrow> \<forall>r \<in> set as. \<not> matches h k r \<Longrightarrow> matches h k r \<Longrightarrow>
      find_scan (bucket_view bs c i) 0 (used_of c i) h k =
      Inr (Some (length (encs as) + value_offset r, length (rv_value r)))"
    unfolding used by (rule found(1))
  show "rs = as @ r # bs' \<Longrightarrow> \<forall>r \<in> set as. \<not> matches h k r \<Longrightarrow> matches h k r \<Longrightarrow>
      remove_scan (bucket_view bs c i) 0 (used_of c i) h k = Inr (Some (length (encs as), length (enc r)))"
    unfolding used by (rule found(2))
qed

lemma holds_chain_simps [simp]:
  "holds_chain bs c [] ct"
  "holds_chain bs c (i # ids) ct \<longleftrightarrow> i < c_count c \<and> bucket_holds bs (c_buckets c i) (ct i) \<and> holds_chain bs c ids ct"
  "holds_chain bs c (xs @ ys) ct \<longleftrightarrow> holds_chain bs c xs ct \<and> holds_chain bs c ys ct"
  by (auto simp: holds_chain_def)

text \<open>A chain whose buckets are untouched is the same chain with the same records.\<close>

lemma holds_chain_frame:
  assumes "holds_chain bs c ids ct" and "c_count c \<le> c_count c'"
    and "\<And>j. j \<in> set ids \<Longrightarrow> c_buckets c' j = c_buckets c j" and "\<And>j. j \<in> set ids \<Longrightarrow> ct' j = ct j"
  shows "holds_chain bs c' ids ct'"
  using assms by (auto simp: holds_chain_def intro: order.strict_trans2)

lemma chain_frame:
  assumes "chain (nexts c) p ids" and "\<And>j. j \<in> set ids \<Longrightarrow> c_buckets c' j = c_buckets c j"
  shows "chain (nexts c') p ids"
proof -
  have "chain (nexts c') p ids = chain (nexts c) p ids" using assms(2) by (intro chain_cong) (simp add: nexts_def)
  with assms(1) show ?thesis by simp
qed

text \<open>Buckets without a matching record are passed over.\<close>

lemma find_skip:
  assumes inv: "cont_inv bs c fs" and "chain (nexts c) p (is @ js)" and "holds_chain bs c is ct"
    and "\<forall>r \<in> set (concat (map ct is)). \<not> matches h k r"
  shows "\<exists>q. chain (nexts c) q js \<and> find_value bs c p h k = find_value bs c q h k
    \<and> remove_record bs c p h k = remove_record bs c q h k"
  using assms(2-4)
proof (induction "is" arbitrary: p)
  case Nil
  then show ?case by auto
next
  case (Cons i "is")
  then have i: "p = i" "i \<noteq> INVALID_BUCKET_ID" "i < c_count c" "bucket_holds bs (c_buckets c i) (ct i)"
    and no: "\<forall>r \<in> set (ct i). \<not> matches h k r" and rest: "chain (nexts c) (nexts c i) (is @ js)"
    by (auto simp: INVALID_BUCKET_ID_def)
  have step: "find_value bs c p h k = find_value bs c (nexts c i) h k"
    "remove_record bs c p h k = remove_record bs c (nexts c i) h k"
    using i bucket_scans(1,2) [OF inv i(3,4) no] get_bucket_eq [OF inv i(3)]
    by (simp_all add: find_value.simps [of bs c i] remove_record.simps [of bs c i] nexts_def)
  have "holds_chain bs c is ct" "\<forall>r \<in> set (concat (map ct is)). \<not> matches h k r"
    using Cons.prems by auto
  from Cons.IH [OF rest this] show ?case unfolding step .
qed

lemma find_value_none:
  assumes "cont_inv bs c fs" and "chain (nexts c) p ids" and "holds_chain bs c ids ct"
    and "\<forall>r \<in> set (concat (map ct ids)). \<not> matches h k r"
  shows "find_value bs c p h k = Some (Inr None)" and "remove_record bs c p h k = Some (Inr (c, False))"
proof -
  from find_skip [of bs c fs p ids "[]" ct h k] assms have
    "find_value bs c p h k = find_value bs c INVALID_BUCKET_ID h k"
    "remove_record bs c p h k = remove_record bs c INVALID_BUCKET_ID h k"
    by (auto simp: INVALID_BUCKET_ID_def)
  then show "find_value bs c p h k = Some (Inr None)" "remove_record bs c p h k = Some (Inr (c, False))"
    by (simp_all add: find_value.simps remove_record.simps)
qed

lemma find_value_found:
  assumes inv: "cont_inv bs c fs" and ch: "chain (nexts c) p (is @ i # js)" and holds: "holds_chain bs c (is @ i # js) ct"
    and "\<forall>r \<in> set (concat (map ct is)). \<not> matches h k r"
    and ct: "ct i = as @ r # zs" and "\<forall>r \<in> set as. \<not> matches h k r" and "matches h k r"
  shows "find_value bs c p h k = Some (Inr (Some (view_of i as r)))"
    and "remove_record bs c p h k =
      Some (bind_r (remove_from bs c i (length (encs as)) (length (enc r))) (\<lambda>c. Inr (c, True)))"
proof -
  from find_skip [OF inv ch] assms obtain q where q: "chain (nexts c) q (i # js)"
    "find_value bs c p h k = find_value bs c q h k" "remove_record bs c p h k = remove_record bs c q h k" by auto
  then have i: "q = i" "i \<noteq> INVALID_BUCKET_ID" "i < c_count c" "bucket_holds bs (c_buckets c i) (ct i)"
    using holds by (auto simp: INVALID_BUCKET_ID_def)
  note scans = bucket_scans(3,4) [OF inv i(3,4) ct assms(6,7)]
  show "find_value bs c p h k = Some (Inr (Some (view_of i as r)))"
    using i scans q get_bucket_eq [OF inv i(3)] by (simp add: find_value.simps [of bs c i] view_of_def)
  show "remove_record bs c p h k =
      Some (bind_r (remove_from bs c i (length (encs as)) (length (enc r))) (\<lambda>c. Inr (c, True)))"
    using i scans q get_bucket_eq [OF inv i(3)] by (simp add: remove_record.simps [of bs c i])
qed

lemma bucket_holds_drop:
  assumes "bucket_holds bs b (as @ zs)" and "length (b_data b) = bs"
  shows "drop (length (encs as)) (b_data b) = encs zs @ drop (b_bytes_used b) (b_data b)"
proof -
  have "drop 0 (b_data b) = encs as @ (encs zs @ drop (b_bytes_used b) (b_data b))"
    using bucket_holds_data [OF assms] by (simp only: encs_simps append_assoc)
  from drop_add_eq [OF this] show ?thesis by simp
qed

lemma sv_read_view_of:
  assumes inv: "cont_inv bs c fs" and i: "i < c_count c" and holds: "bucket_holds bs (c_buckets c i) (as @ r # zs)"
  shows "sv_read bs c (view_of i as r) = Inr (rv_value r)"
proof -
  let ?d = "b_data (c_buckets c i)"
  have "drop (length (encs as)) ?d = enc r @ encs zs @ drop (used_of c i) ?d"
    using bucket_holds_drop [OF holds length_data [OF inv]] by simp
  then have "segment (length (encs as) + value_offset r) (length (rv_value r)) ?d = rv_value r"
    by (rule segment_value)
  moreover have "length (encs as) + length (enc r) \<le> bs" using holds by (simp add: bucket_holds_def)
  then have "length (encs as) + value_offset r + length (rv_value r) \<le> length ?d"
    using value_offset_enc [of r] length_data [OF inv, of i] by simp
  moreover have "fm_start (c_file_map c) \<noteq> 0" using inv by (simp add: cont_inv_def readable_def)
  ultimately show ?thesis by (simp add: sv_read_def view_of_def bucket_view_eq [OF inv i])
qed

section \<open>Buckets obtained\<close>

text \<open>\<open>obtained a fs b fs' ns\<close>: going from \<open>a\<close> buckets with free list \<open>fs\<close> to \<open>b\<close> buckets with free
  list \<open>fs'\<close> handed out exactly the buckets \<open>ns\<close>.\<close>

definition obtained :: "nat \<Rightarrow> nat list \<Rightarrow> nat \<Rightarrow> nat list \<Rightarrow> nat list \<Rightarrow> bool" where
  "obtained a fs b fs' ns \<longleftrightarrow> a \<le> b \<and> b \<le> a + length ns \<and> distinct ns \<and> set ns \<inter> set fs' = {}
     \<and> set ns \<union> set fs' = set fs \<union> {a..<b} \<and> set fs' \<subseteq> {..<b}"

lemma obtained_refl: "set fs \<subseteq> {..<a} \<Longrightarrow> obtained a fs a fs []"
  by (simp add: obtained_def)

lemma obtained_fresh:
  assumes "fresh_bucket bs c fs pb c' n fs'" and "cont_inv bs c fs"
  shows "obtained (c_count c) fs (c_count c') fs' [n]"
  using assms chain_distinct [of "nexts c" "c_first_free c" fs]
  by (auto simp: fresh_bucket_def obtained_def cont_inv_def)

lemma obtained_trans:
  assumes "obtained a fs b fs1 ns" and "obtained b fs1 d fs2 ms" and "set fs \<subseteq> {..<a}"
  shows "obtained a fs d fs2 (ns @ ms)"
proof -
  have "set ns \<subseteq> set fs \<union> {a..<b}" "a \<le> b" using assms(1) unfolding obtained_def by blast+
  then have "set ns \<subseteq> {..<b}" using assms(3) by fastforce
  then have 1: "set ms \<union> set fs2 = set fs1 \<union> {b..<d}" "a \<le> b" "b \<le> d" "set ns \<subseteq> {..<b}" "set ns \<inter> set fs1 = {}"
    using assms by (auto simp: obtained_def)
  then have "set ns \<inter> (set ms \<union> set fs2) = {}" by auto
  moreover have "set ns \<union> set ms \<union> set fs2 = set fs \<union> {a..<d}"
    using assms(1) 1 by (fastforce simp: obtained_def)
  ultimately show ?thesis using assms by (auto simp: obtained_def)
qed

lemma obtained_disjoint:
  assumes "obtained a fs b fs' ns" and "set ids \<subseteq> {..<a}" and "set ids \<inter> set fs = {}"
  shows "set ids \<inter> set ns = {}" and "set ids \<inter> set fs' = {}"
proof -
  have "set ns \<subseteq> set fs \<union> {a..<b}" "set fs' \<subseteq> set fs \<union> {a..<b}"
    using assms(1) unfolding obtained_def by blast+
  with assms(2,3) show "set ids \<inter> set ns = {}" "set ids \<inter> set fs' = {}" by fastforce+
qed

section \<open>Storing a record\<close>

lemma bucket_holds_append:
  assumes "bucket_holds bs b rs" and "length (b_data b) = bs" and "b_bytes_used b + length (enc r) \<le> bs"
  shows "bucket_holds bs (b\<lparr>b_data := overwrite (b_bytes_used b) (enc r) (b_data b),
      b_bytes_used := b_bytes_used b + length (enc r)\<rparr>) (rs @ [r])"
proof -
  have u: "b_bytes_used b = length (encs rs)" and t: "take (length (encs rs)) (b_data b) = encs rs"
    using assms(1) by (auto simp: bucket_holds_def)
  then show ?thesis
    using assms(2,3) take_overwrite [of "length (encs rs)" "enc r" "b_data b"] by (simp add: bucket_holds_def)
qed

lemma bucket_holds_Nil: "bucket_holds bs b [] \<longleftrightarrow> b_bytes_used b = 0"
  by (auto simp: bucket_holds_def)

lemma bucket_holds_fields [simp]:
  "bucket_holds bs (b\<lparr>b_next := x\<rparr>) rs = bucket_holds bs b rs"
  "bucket_holds bs (b\<lparr>b_prefix_bits := x\<rparr>) rs = bucket_holds bs b rs"
  by (simp_all add: bucket_holds_def)

text \<open>The loop stops at a bucket with room: one of the chain, or a new one hung behind its last.\<close>

lemma create_record_loop_spec:
  assumes inv: "cont_inv bs c fs" and rw: "cont_rw c" and os: "os_serves os" "capacity os bs (c_count c)"
    and fits: "req \<le> bs"
    and "chain (nexts c) p ids" and "ids \<noteq> []" and "set ids \<subseteq> {..<c_count c}" and "set ids \<inter> set fs = {}"
  shows "(\<exists>i \<in> set ids. create_record_loop os bs req c p = Some (Inr (c, i)) \<and> used_of c i + req \<le> bs)
    \<or> (\<exists>c1 n fs' pb. fresh_bucket bs c fs pb c1 n fs' \<and> create_record_loop os bs req c p =
         Some (Inr (c1\<lparr>c_buckets := (c_buckets c1)(last ids := (c_buckets c1 (last ids))\<lparr>b_next := n\<rparr>)\<rparr>, n)))"
  using assms(6-9)
proof (induction ids arbitrary: p)
  case (Cons i ids)
  then have i: "p = i" "i < c_count c" "i \<notin> set fs" and rest: "chain (nexts c) (nexts c i) ids" by auto
  note get = get_bucket_eq [OF inv i(2)]
  show ?case
  proof (cases "used_of c i + req > bs")
    case False
    with get i have "create_record_loop os bs req c p = Some (Inr (c, i))"
      by (simp add: create_record_loop.simps [of os bs req c i])
    with False show ?thesis by auto
  next
    case full: True
    show ?thesis
    proof (cases "ids = []")
      case False
      then have "nexts c i \<noteq> INVALID_BUCKET_ID"
        using rest chain_INVALID [of "nexts c" ids] by (auto simp: INVALID_BUCKET_ID_def)
      then have "create_record_loop os bs req c p = create_record_loop os bs req c (nexts c i)"
        using get i full by (simp add: create_record_loop.simps [of os bs req c i] nexts_def)
      with Cons.IH [OF rest False] Cons.prems False show ?thesis by auto
    next
      case True
      obtain c1 n fs' where new: "create_bucket os bs c (b_prefix_bits (c_buckets c i)) = Inr (c1, n)"
        and fresh: "fresh_bucket bs c fs (b_prefix_bits (c_buckets c i)) c1 n fs'"
        by (rule create_bucket_spec [OF inv rw os])
      note f = fresh_bucketD [OF fresh inv]
      have ni: "n \<noteq> i" using f(9) i by auto
      let ?c2 = "c1\<lparr>c_buckets := (c_buckets c1)(i := (c_buckets c1 i)\<lparr>b_next := n\<rparr>)\<rparr>"
      have "i < c_count c1" using i(2) f(5) by simp
      then have upd: "upd_bucket bs c1 i (\<lambda>b. b\<lparr>b_next := n\<rparr>) = Inr ?c2"
        using f(1,2) by (intro upd_bucket_eq)
      have "i \<notin> set fs'" using f(8) i by auto
      then have inv2: "cont_inv bs ?c2 fs'" using f(1) length_data [OF f(1)] by (intro cont_inv_upd) auto
      have "nexts c i = INVALID_BUCKET_ID" using rest True by (simp add: INVALID_BUCKET_ID_def)
      then have "create_record_loop os bs req c p = create_record_loop os bs req ?c2 n"
        using get i full new upd by (simp add: create_record_loop.simps [of os bs req c i] nexts_def)
      also have "\<dots> = Some (Inr (?c2, n))"
        using get_bucket_eq [OF inv2, of n] f(3,11) ni fits by (simp add: create_record_loop.simps [of os bs req ?c2 n])
      finally have "create_record_loop os bs req c p = Some (Inr (?c2, n))" .
      moreover have "last (i # ids) = i" using True by simp
      ultimately show ?thesis using fresh by metis
    qed
  qed
qed simp

text \<open>The change to one bucket that \<open>create_record\<close> and \<open>split\<close> make: a packed record behind the
  used bytes.\<close>

definition add_record :: "record_view \<Rightarrow> bucket_t \<Rightarrow> bucket_t" where
  "add_record r b = b\<lparr>b_data := overwrite (b_bytes_used b) (enc r) (b_data b),
     b_bytes_used := b_bytes_used b + length (enc r)\<rparr>"

lemma add_record_fields [simp]:
  "b_next (add_record r b) = b_next b" "b_prefix_bits (add_record r b) = b_prefix_bits b"
  "b_bytes_used (add_record r b) = b_bytes_used b + length (enc r)"
  "b_data (add_record r b) = overwrite (b_bytes_used b) (enc r) (b_data b)"
  by (simp_all add: add_record_def)

lemma bucket_holds_add_record:
  "bucket_holds bs b rs \<Longrightarrow> length (b_data b) = bs \<Longrightarrow> b_bytes_used b + length (enc r) \<le> bs \<Longrightarrow>
   bucket_holds bs (add_record r b) (rs @ [r])"
  unfolding add_record_def by (rule bucket_holds_append)

lemma create_record_write:
  assumes loop: "create_record_loop os bs (bytes_required k v) c p = Some (Inr (c1, i))"
    and inv: "cont_inv bs c1 fs" and rw: "cont_rw c1" and i: "i < c_count c1"
    and room: "used_of c1 i + bytes_required k v \<le> bs" and holds: "bucket_holds bs (c_buckets c1 i) rs"
    and r: "r = \<lparr>rv_hash = h, rv_key = k, rv_value = v\<rparr>"
  shows "create_record os bs c p h k v =
    Some (Inr (c1\<lparr>c_buckets := (c_buckets c1)(i := add_record r (c_buckets c1 i))\<rparr>, view_of i rs r))"
proof -
  have e: "enc_header h k v @ k @ v = enc r" using r by (simp add: enc_def)
  have req: "bytes_required k v = length (enc r)" using r by (simp add: length_enc)
  have vo: "value_offset r = length (enc_header h k v) + length k" "rv_value r = v"
    using r by (simp_all add: value_offset_def)
  let ?c2 = "c1\<lparr>c_buckets := (c_buckets c1)(i := (c_buckets c1 i)\<lparr>b_data := overwrite (used_of c1 i) (enc r) (b_data (c_buckets c1 i))\<rparr>)\<rparr>"
  have put: "put_data bs c1 i (used_of c1 i) (enc r) = Inr ?c2"
    using room req by (intro put_data_eq [OF inv rw i]) simp
  have "cont_inv bs ?c2 fs"
    using room req length_data [OF inv] by (intro cont_inv_upd [OF inv]) (auto simp: nexts_def)
  then have "upd_bucket bs ?c2 i (\<lambda>b. b\<lparr>b_bytes_used := b_bytes_used b + length (enc r)\<rparr>) =
      Inr (c1\<lparr>c_buckets := (c_buckets c1)(i := add_record r (c_buckets c1 i))\<rparr>)"
    using rw i upd_bucket_eq [of bs ?c2 fs i] by (simp add: cont_rw_def add_record_def)
  moreover have "used_of c1 i = length (encs rs)" using holds by (simp add: bucket_holds_def)
  ultimately show ?thesis
    using put vo by (simp add: create_record_def loop [unfolded req] e req view_of_def add.assoc)
qed

text \<open>\<open>create_record\<close> stores the record in one bucket of the chain, which grew by at most one
  bucket; every other bucket is as before.\<close>

definition stored ::
  "nat \<Rightarrow> container \<Rightarrow> nat list \<Rightarrow> nat \<Rightarrow> nat list \<Rightarrow> (nat \<Rightarrow> record_view list) \<Rightarrow> record_view \<Rightarrow>
   container \<Rightarrow> nat list \<Rightarrow> nat list \<Rightarrow> nat \<Rightarrow> (nat \<Rightarrow> record_view list) \<Rightarrow> bool" where
  "stored bs c fs p ids ct r c' fs' ns i ct' \<longleftrightarrow>
     cont_inv bs c' fs' \<and> cont_rw c' \<and> obtained (c_count c) fs (c_count c') fs' ns \<and> length ns \<le> 1
     \<and> chain (nexts c') p (ids @ ns) \<and> holds_chain bs c' (ids @ ns) (ct'(i := ct' i @ [r]))
     \<and> i \<in> set (ids @ ns) \<and> (\<forall>j. ct' j = (if j \<in> set ns then [] else ct j))
     \<and> (\<forall>j. j \<notin> set (ids @ ns) \<longrightarrow> c_buckets c' j = c_buckets c j)
     \<and> (\<forall>j \<in> set ids. b_prefix_bits (c_buckets c' j) = b_prefix_bits (c_buckets c j))"

lemma create_record_spec:
  assumes inv: "cont_inv bs c fs" and rw: "cont_rw c" and os: "os_serves os" "capacity os bs (c_count c)"
    and fits: "bytes_required k v \<le> bs" and ch: "chain (nexts c) p ids" "ids \<noteq> []" and holds: "holds_chain bs c ids ct"
    and dj: "set ids \<inter> set fs = {}" and r: "r = \<lparr>rv_hash = h, rv_key = k, rv_value = v\<rparr>"
  shows "\<exists>c' fs' ns i ct'. create_record os bs c p h k v = Some (Inr (c', view_of i (ct' i) r))
    \<and> stored bs c fs p ids ct r c' fs' ns i ct'"
proof -
  have sub: "set ids \<subseteq> {..<c_count c}" using holds by (auto simp: holds_chain_def)
  have req: "bytes_required k v = length (enc r)" using r by (simp add: length_enc)
  from create_record_loop_spec [OF inv rw os fits ch sub dj] show ?thesis
  proof (elim disjE bexE exE conjE)
    fix i assume i: "i \<in> set ids" and loop: "create_record_loop os bs (bytes_required k v) c p = Some (Inr (c, i))"
      and room: "used_of c i + bytes_required k v \<le> bs"
    let ?c' = "c\<lparr>c_buckets := (c_buckets c)(i := add_record r (c_buckets c i))\<rparr>"
    have hi: "i < c_count c" "bucket_holds bs (c_buckets c i) (ct i)" using holds i by (auto simp: holds_chain_def)
    have "create_record os bs c p h k v = Some (Inr (?c', view_of i (ct i) r))"
      by (rule create_record_write [OF loop inv rw hi(1) room hi(2) r])
    moreover have "cont_inv bs ?c' fs"
      using room req length_data [OF inv] by (intro cont_inv_upd [OF inv]) (auto simp: nexts_def)
    moreover have "chain (nexts ?c') p ids = chain (nexts c) p ids" by (intro chain_cong) (simp add: nexts_def)
    moreover have "holds_chain bs ?c' ids (ct(i := ct i @ [r]))"
      using holds bucket_holds_add_record [OF hi(2) length_data [OF inv]] room req by (auto simp: holds_chain_def)
    moreover have "obtained (c_count c) fs (c_count c) fs []" using inv by (intro obtained_refl) (simp add: cont_inv_def)
    ultimately have "create_record os bs c p h k v = Some (Inr (?c', view_of i (ct i) r))
        \<and> stored bs c fs p ids ct r ?c' fs [] i ct"
      using ch i rw by (auto simp: stored_def cont_rw_def)
    then show ?thesis by blast
  next
    fix c1 n fs' pb assume fresh: "fresh_bucket bs c fs pb c1 n fs'"
    define l where "l = last ids"
    let ?c2 = "c1\<lparr>c_buckets := (c_buckets c1)(l := (c_buckets c1 l)\<lparr>b_next := n\<rparr>)\<rparr>"
    assume "create_record_loop os bs (bytes_required k v) c p = Some (Inr (c1\<lparr>c_buckets := (c_buckets c1)(last ids := (c_buckets c1 (last ids))\<lparr>b_next := n\<rparr>)\<rparr>, n))"
    note loop = this [folded l_def]
    note f = fresh_bucketD [OF fresh inv]
    have n: "n \<notin> set ids" using f(9) dj sub by auto
    have "l \<in> set ids" using ch(2) by (simp add: l_def)
    then have l: "l \<in> set ids" "l < c_count c1" "l \<noteq> n" "l \<notin> set fs'"
      using sub f(5,8) n dj by auto
    have inv2: "cont_inv bs ?c2 fs'" using f(1) l length_data [OF f(1)] by (intro cont_inv_upd) auto
    have rw2: "cont_rw ?c2" using f(2) by (simp add: cont_rw_def)
    have n2: "n < c_count ?c2" "used_of ?c2 n = 0" "bucket_holds bs (c_buckets ?c2 n) []"
      using f(3,11) l by (simp_all add: bucket_holds_Nil)
    let ?c3 = "?c2\<lparr>c_buckets := (c_buckets ?c2)(n := add_record r (c_buckets ?c2 n))\<rparr>"
    let ?ct = "ct(n := [])"
    have "create_record os bs c p h k v = Some (Inr (?c3, view_of n [] r))"
      using fits n2 by (intro create_record_write [OF loop inv2 rw2 _ _ _ r]) auto
    moreover have "cont_inv bs ?c3 fs'"
      using fits req n2 length_data [OF inv2] by (intro cont_inv_upd [OF inv2]) (auto simp: nexts_def)
    moreover have "chain (nexts ?c3) p (ids @ [n])"
      using f(10,13) n l by (intro chain_hang [OF ch n f(4)]) (auto simp: nexts_def l_def)
    moreover have "holds_chain bs ?c3 (ids @ [n]) (?ct(n := ?ct n @ [r]))"
      using holds n n2 f(5,13) fits req bucket_holds_add_record [OF n2(3) length_data [OF inv2]]
      by (auto simp: holds_chain_def)
    ultimately have "create_record os bs c p h k v = Some (Inr (?c3, view_of n (?ct n) r))
        \<and> stored bs c fs p ids ct r ?c3 fs' [n] n ?ct"
      using rw2 f(13) n l obtained_fresh [OF fresh inv] by (auto simp: stored_def cont_rw_def)
    then show ?thesis by blast
  qed
qed

section \<open>The first matching record of a chain\<close>

lemma first_match:
  assumes "\<exists>r \<in> set (concat (map ct ids)). matches h k r"
  obtains "is" i js as r zs where "ids = is @ i # js" and "\<forall>r \<in> set (concat (map ct is)). \<not> matches h k r"
    and "ct i = as @ r # zs" and "\<forall>r \<in> set as. \<not> matches h k r" and "matches h k r"
proof -
  have "\<exists>i \<in> set ids. \<exists>r \<in> set (ct i). matches h k r" using assms by auto
  from split_list_first_prop [OF this] obtain "is" i js where ids: "ids = is @ i # js"
    "\<exists>r \<in> set (ct i). matches h k r" "\<forall>j \<in> set is. \<not> (\<exists>r \<in> set (ct j). matches h k r)" by blast
  moreover from split_list_first_prop [OF ids(2)] obtain as r zs where
    "ct i = as @ r # zs" "matches h k r" "\<forall>r \<in> set as. \<not> matches h k r" by blast
  ultimately show ?thesis by (intro that) auto
qed

section \<open>Removing a record\<close>

lemma remove_from_spec:
  assumes inv: "cont_inv bs c fs" and rw: "cont_rw c" and i: "i < c_count c"
    and holds: "bucket_holds bs (c_buckets c i) (as @ r # zs)"
  shows "\<exists>b. remove_from bs c i (length (encs as)) (length (enc r)) = Inr (c\<lparr>c_buckets := (c_buckets c)(i := b)\<rparr>)
    \<and> bucket_holds bs b (as @ zs) \<and> b_next b = nexts c i \<and> b_prefix_bits b = b_prefix_bits (c_buckets c i)
    \<and> length (b_data b) = bs"
proof -
  let ?b = "c_buckets c i" and ?a = "length (encs as)" and ?e = "length (encs as) + length (enc r)"
  have used: "b_bytes_used ?b = ?e + length (encs zs)" "?e + length (encs zs) \<le> bs"
    and tk: "take (?e + length (encs zs)) (b_data ?b) = encs as @ enc r @ encs zs"
    using holds by (auto simp: bucket_holds_def add.assoc)
  have len: "length (b_data ?b) = bs" by (rule length_data [OF inv])
  have "bucket_holds bs ?b ((as @ [r]) @ zs)" using holds by simp
  from bucket_holds_drop [OF this len] have "drop ?e (b_data ?b) = encs zs @ drop (used_of c i) (b_data ?b)"
    by simp
  then have tail: "segment ?e (length (encs zs)) (b_data ?b) = encs zs" by (rule segment_append_at)
  let ?d = "overwrite ?a (encs zs) (b_data ?b)"
  let ?c1 = "c\<lparr>c_buckets := (c_buckets c)(i := ?b\<lparr>b_data := ?d\<rparr>)\<rparr>"
  have put: "put_data bs c i ?a (encs zs) = Inr ?c1" using used by (intro put_data_eq [OF inv rw i]) simp
  have dlen: "length ?d = bs" using used len by simp
  then have inv1: "cont_inv bs ?c1 fs" by (intro cont_inv_upd [OF inv]) (auto simp: nexts_def)
  define b where "b = ?b\<lparr>b_data := ?d, b_bytes_used := b_bytes_used ?b - length (enc r)\<rparr>"
  have upd: "upd_bucket bs ?c1 i (\<lambda>b. b\<lparr>b_bytes_used := b_bytes_used b - length (enc r)\<rparr>) =
      Inr (c\<lparr>c_buckets := (c_buckets c)(i := b)\<rparr>)"
    using rw i upd_bucket_eq [OF inv1, of i] by (simp add: cont_rw_def b_def)
  have "remove_from bs c i ?a (length (enc r)) = Inr (c\<lparr>c_buckets := (c_buckets c)(i := b)\<rparr>)"
    using used tail put upd len by (simp add: remove_from_def bucket_view_eq [OF inv i])
  moreover have "take (?a + length (encs zs)) ?d = encs as @ encs zs"
    using take_overwrite [of ?a "encs zs" "b_data ?b"] used len arg_cong [OF tk, of "take ?a"]
    by (simp add: min_def)
  then have "bucket_holds bs b (as @ zs)" using used by (simp add: bucket_holds_def b_def)
  ultimately show ?thesis using dlen by (auto simp: b_def nexts_def)
qed

text \<open>\<open>remove_record\<close> takes the first matching record out of its bucket and changes nothing else.\<close>

lemma remove_record_spec:
  assumes inv: "cont_inv bs c fs" and rw: "cont_rw c" and ch: "chain (nexts c) p ids" and holds: "holds_chain bs c ids ct"
    and some: "\<exists>r \<in> set (concat (map ct ids)). matches h k r"
  shows "\<exists>i as r zs b. i \<in> set ids \<and> ct i = as @ r # zs \<and> matches h k r
    \<and> remove_record bs c p h k = Some (Inr (c\<lparr>c_buckets := (c_buckets c)(i := b)\<rparr>, True))
    \<and> b_prefix_bits b = b_prefix_bits (c_buckets c i)
    \<and> cont_inv bs (c\<lparr>c_buckets := (c_buckets c)(i := b)\<rparr>) fs \<and> b_next b = nexts c i
    \<and> bucket_holds bs b (as @ zs)"
proof -
  from some obtain "is" i js as r zs where ids: "ids = is @ i # js" and no: "\<forall>r \<in> set (concat (map ct is)). \<not> matches h k r"
    and ct: "ct i = as @ r # zs" and as: "\<forall>r \<in> set as. \<not> matches h k r" and m: "matches h k r"
    by (rule first_match)
  have i: "i < c_count c" "bucket_holds bs (c_buckets c i) (as @ r # zs)" using holds ids ct by auto
  from remove_from_spec [OF inv rw i] obtain b where b:
    "remove_from bs c i (length (encs as)) (length (enc r)) = Inr (c\<lparr>c_buckets := (c_buckets c)(i := b)\<rparr>)"
    "bucket_holds bs b (as @ zs)" "b_next b = nexts c i" "b_prefix_bits b = b_prefix_bits (c_buckets c i)"
    "length (b_data b) = bs" by blast
  have "remove_record bs c p h k = Some (Inr (c\<lparr>c_buckets := (c_buckets c)(i := b)\<rparr>, True))"
    using find_value_found(2) [OF inv _ _ no ct as m] ch holds ids b(1) by simp
  moreover have "cont_inv bs (c\<lparr>c_buckets := (c_buckets c)(i := b)\<rparr>) fs"
    using b by (intro cont_inv_upd [OF inv]) auto
  moreover have "i \<in> set ids" using ids by simp
  ultimately show ?thesis using ct m b(2-4) by blast
qed

section \<open>Reading records in place\<close>

lemma read_record_eq:
  assumes inv: "cont_inv bs c fs" and i: "i < c_count c" and holds: "bucket_holds bs (c_buckets c i) (as @ zs)"
  shows "read_record bs c i (length (encs as)) =
    Inr (case zs of [] \<Rightarrow> None | r # _ \<Rightarrow> Some (r, length (encs (as @ [r]))))"
proof (cases zs)
  case Nil
  with holds show ?thesis by (simp add: read_record_def get_bucket_eq [OF inv i] bucket_holds_def)
next
  case (Cons r zs')
  let ?d = "b_data (c_buckets c i)"
  let ?h = "length (enc_header (rv_hash r) (rv_key r) (rv_value r))"
  have mem: "drop (length (encs as)) ?d = enc r @ encs zs' @ drop (used_of c i) ?d"
    using bucket_holds_drop [OF holds length_data [OF inv]] Cons by simp
  have used: "used_of c i = length (encs as) + (length (enc r) + length (encs zs'))" "used_of c i \<le> bs"
    using holds Cons by (simp_all add: bucket_holds_def)
  have fits: "length (enc r) < 2 ^ 31" using used inv by (simp add: cont_inv_def)
  have e: "length (enc r) = ?h + length (rv_key r) + length (rv_value r)" by (simp add: enc_def)
  have "segment (length (encs as) + ?h + length (rv_key r)) (length (rv_value r)) ?d = rv_value r"
    using segment_value [OF mem] by (simp add: value_offset_def add.assoc)
  moreover have "enc_header (rv_hash r) (rv_key r) (rv_value r) \<noteq> []" by (simp add: enc_header_def)
  ultimately show ?thesis
    using segment_key [OF mem] read_header_enc [OF mem fits] used e length_data [OF inv, of i] Cons
    by (simp add: read_record_def get_bucket_eq [OF inv i] bucket_view_eq [OF inv i] Let_def add.assoc)
qed

end
