(* ===== verification/Container_Split.thy ===== *)
theory Container_Split
  imports Container_Chains
begin

text \<open>
  What \<open>container::split\<close> does: the records of a chain whose new bit is set move, in order, to a new
  chain, the others are packed, in order, into the front of the old one, and the buckets left over
  go to the free list. The loop works in place: the bucket it fills is never ahead of the bucket it
  reads, so no unread record is overwritten and the branch that extends the old chain is never
  taken (\<open>room0_spec\<close>).
\<close>

section \<open>Updates of one bucket\<close>

abbreviation put_bucket :: "container \<Rightarrow> nat \<Rightarrow> bucket_t \<Rightarrow> container" where
  "put_bucket c i b \<equiv> c\<lparr>c_buckets := (c_buckets c)(i := b)\<rparr>"

lemma chain_put_same: "b_next b = nexts c i \<Longrightarrow> chain (nexts (put_bucket c i b)) p xs = chain (nexts c) p xs"
  by (rule chain_cong) (auto simp: nexts_def)

lemma chain_put_other: "i \<notin> set xs \<Longrightarrow> chain (nexts (put_bucket c i b)) p xs = chain (nexts c) p xs"
  by (rule chain_cong) (auto simp: nexts_def)

lemma holds_chain_put:
  "holds_chain bs c xs ct \<Longrightarrow> bucket_holds bs b rs \<Longrightarrow> holds_chain bs (put_bucket c i b) xs (ct(i := rs))"
  by (auto simp: holds_chain_def)

lemma holds_chain_put_same:
  "holds_chain bs c xs ct \<Longrightarrow> (\<And>rs. bucket_holds bs b rs = bucket_holds bs (c_buckets c i) rs) \<Longrightarrow>
   holds_chain bs (put_bucket c i b) xs ct"
  by (auto simp: holds_chain_def)

lemma cont_rw_put [simp]: "cont_rw (put_bucket c i b) = cont_rw c"
  by (simp add: cont_rw_def)

lemma concat_map_upd_notin: "i \<notin> set xs \<Longrightarrow> concat (map (ct(i := rs)) xs) = concat (map ct xs)"
  by (auto intro!: arg_cong [of _ _ concat])

section \<open>Loop invariant\<close>

text \<open>
  \<open>c0\<close> and \<open>fs0\<close> are the container and its free list before the split, \<open>ids\<close> the old chain from
  \<open>p\<close>, \<open>ns\<close> the new one from \<open>p1\<close>. The old chain is \<open>za\<close> (filled), the bucket being filled, \<open>zm\<close>
  (read, or being read, and empty by now) and \<open>todo\<close> (still as it was). \<open>seen\<close> are the records read.
\<close>

definition split_inv ::
  "nat \<Rightarrow> container \<Rightarrow> nat list \<Rightarrow> nat \<Rightarrow> nat \<Rightarrow> nat list \<Rightarrow> nat \<Rightarrow> hash_t \<Rightarrow> (nat \<Rightarrow> record_view list) \<Rightarrow> split_state \<Rightarrow>
   nat list \<Rightarrow> nat list \<Rightarrow> (nat \<Rightarrow> record_view list) \<Rightarrow> nat list \<Rightarrow> nat list \<Rightarrow> nat list \<Rightarrow> record_view list \<Rightarrow> bool" where
  "split_inv bs c0 fs0 p p1 ids pb new_bit ct0 st ns fs ct za zm todo seen \<longleftrightarrow>
     (let c = ss_cont st in
      cont_inv bs c fs \<and> cont_rw c \<and> obtained (c_count c0) fs0 (c_count c) fs ns
      \<and> set ids \<subseteq> {..<c_count c0} \<and> set ids \<inter> set fs0 = {}
      \<and> chain (nexts c) p ids \<and> chain (nexts c) p1 ns \<and> ns \<noteq> [] \<and> ss_bit1 st = last ns
      \<and> holds_chain bs c ids ct \<and> holds_chain bs c ns ct
      \<and> ss_put0 st = used_of c (ss_bit0 st) \<and> ss_put1 st = used_of c (ss_bit1 st)
      \<and> ids = za @ ss_bit0 st # zm @ todo \<and> (\<forall>j \<in> set zm. ct j = []) \<and> (\<forall>j \<in> set todo. ct j = ct0 j)
      \<and> length ns \<le> length za + 1 + length zm
      \<and> concat (map ct (za @ [ss_bit0 st])) = filter (\<lambda>r. rv_hash r AND new_bit = 0) seen
      \<and> concat (map ct ns) = filter (\<lambda>r. rv_hash r AND new_bit \<noteq> 0) seen
      \<and> (\<forall>j. j \<notin> set ids \<union> set ns \<longrightarrow> c_buckets c j = c_buckets c0 j)
      \<and> b_prefix_bits (c_buckets c p) = pb \<and> b_prefix_bits (c_buckets c p1) = pb)"

text \<open>The records \<open>rem\<close> are still to be read from offset \<open>get\<close> of bucket \<open>gid\<close> on, the last one read
  from; neither chain is filled beyond that point.\<close>

definition split_at ::
  "nat \<Rightarrow> split_state \<Rightarrow> nat list \<Rightarrow> nat list \<Rightarrow> nat list \<Rightarrow> nat \<Rightarrow> nat \<Rightarrow> record_view list \<Rightarrow> bool" where
  "split_at bs st ns za zm gid get rem \<longleftrightarrow>
     (let c = ss_cont st in
      gid = last (ss_bit0 st # zm) \<and> get + length (encs rem) \<le> bs
      \<and> segment get (length (encs rem)) (b_data (c_buckets c gid)) = encs rem
      \<and> (zm = [] \<longrightarrow> used_of c (ss_bit0 st) \<le> get)
      \<and> (length ns = length za + 1 + length zm \<longrightarrow> used_of c (ss_bit1 st) \<le> get))"

lemma split_invD:
  assumes "split_inv bs c0 fs0 p p1 ids pb new_bit ct0 st ns fs ct za zm todo seen"
  shows "cont_inv bs (ss_cont st) fs" "cont_rw (ss_cont st)" "obtained (c_count c0) fs0 (c_count (ss_cont st)) fs ns"
    "set ids \<subseteq> {..<c_count c0}" "set ids \<inter> set fs0 = {}"
    "chain (nexts (ss_cont st)) p ids" "chain (nexts (ss_cont st)) p1 ns" "ns \<noteq> []" "ss_bit1 st = last ns"
    "holds_chain bs (ss_cont st) ids ct" "holds_chain bs (ss_cont st) ns ct"
    "ss_put0 st = used_of (ss_cont st) (ss_bit0 st)" "ss_put1 st = used_of (ss_cont st) (ss_bit1 st)"
    "ids = za @ ss_bit0 st # zm @ todo" "\<forall>j \<in> set zm. ct j = []" "\<forall>j \<in> set todo. ct j = ct0 j"
    "length ns \<le> length za + 1 + length zm"
    "concat (map ct (za @ [ss_bit0 st])) = filter (\<lambda>r. rv_hash r AND new_bit = 0) seen"
    "concat (map ct ns) = filter (\<lambda>r. rv_hash r AND new_bit \<noteq> 0) seen"
    "\<forall>j. j \<notin> set ids \<union> set ns \<longrightarrow> c_buckets (ss_cont st) j = c_buckets c0 j"
    "b_prefix_bits (c_buckets (ss_cont st) p) = pb" "b_prefix_bits (c_buckets (ss_cont st) p1) = pb"
  using assms unfolding split_inv_def Let_def by - (elim conjE, assumption)+

lemma split_inv_facts:
  assumes "split_inv bs c0 fs0 p p1 ids pb new_bit ct0 st ns fs ct za zm todo seen"
  shows "set ids \<inter> set ns = {}" "set ids \<inter> set fs = {}" "set ns \<inter> set fs = {}" "distinct ids" "distinct ns"
    "ss_bit0 st \<in> set ids" "ss_bit1 st \<in> set ns" "set ids \<subseteq> {..<c_count (ss_cont st)}"
    "set ns \<subseteq> {..<c_count (ss_cont st)}" "ss_bit0 st \<noteq> ss_bit1 st" "p \<in> set ids" "p1 \<in> set ns"
proof -
  note i = split_invD [OF assms]
  have "ids \<noteq> []" using i(14) by simp
  then show "p \<in> set ids" "p1 \<in> set ns" using i(6-8) by (auto intro: chain_hd)
  show 1: "set ids \<inter> set ns = {}" "set ids \<inter> set fs = {}" by (rule obtained_disjoint [OF i(3-5)])+
  show "set ns \<inter> set fs = {}" using i(3) by (simp add: obtained_def)
  show "distinct ids" "distinct ns" using i(6,7) by (auto dest: chain_distinct)
  show 3: "ss_bit0 st \<in> set ids" "ss_bit1 st \<in> set ns" using i(8,9,14) by auto
  then show "ss_bit0 st \<noteq> ss_bit1 st" using 1 by auto
  show "set ids \<subseteq> {..<c_count (ss_cont st)}" "set ns \<subseteq> {..<c_count (ss_cont st)}"
    using i(10,11) unfolding holds_chain_def by blast+
qed

lemma split_atD:
  assumes "split_at bs st ns za zm gid get rem"
  shows "gid = last (ss_bit0 st # zm)" "get + length (encs rem) \<le> bs"
    "segment get (length (encs rem)) (b_data (c_buckets (ss_cont st) gid)) = encs rem"
    "zm = [] \<longrightarrow> used_of (ss_cont st) (ss_bit0 st) \<le> get"
    "length ns = length za + 1 + length zm \<longrightarrow> used_of (ss_cont st) (ss_bit1 st) \<le> get"
  using assms unfolding split_at_def Let_def by - (elim conjE, assumption)+

lemma split_at_gid:
  assumes "split_inv bs c0 fs0 p p1 ids pb new_bit ct0 st ns fs ct za zm todo seen" and "split_at bs st ns za zm gid get rem"
  shows "gid \<in> set ids" "gid < c_count (ss_cont st)" "zm \<noteq> [] \<Longrightarrow> gid \<noteq> ss_bit0 st" "gid \<noteq> ss_bit1 st"
proof -
  note f = split_inv_facts [OF assms(1)] and i = split_invD [OF assms(1)] and a = split_atD [OF assms(2)]
  have g: "gid \<in> set (ss_bit0 st # zm)" unfolding a(1) by (rule last_in_set) simp
  then show 1: "gid \<in> set ids" using i(14) by auto
  then show "gid < c_count (ss_cont st)" "gid \<noteq> ss_bit1 st" using f by auto
  assume "zm \<noteq> []"
  then have "gid \<in> set zm" using a(1) by simp
  then show "gid \<noteq> ss_bit0 st" using f(4) i(14) by auto
qed

section \<open>Copying a record\<close>

lemma split_copy_eq:
  assumes inv: "cont_inv bs c fs" and rw: "cont_rw c" and g: "gid < c_count c" and i: "i < c_count c"
    and src: "segment get (length (enc r)) (b_data (c_buckets c gid)) = enc r" "get + length (enc r) \<le> bs"
    and room: "used_of c i + length (enc r) \<le> bs"
  shows "split_copy bs c gid get (length (enc r)) i (used_of c i) = Inr (put_bucket c i (add_record r (c_buckets c i)))"
proof -
  let ?b = "c_buckets c i"
  let ?c1 = "put_bucket c i (?b\<lparr>b_data := overwrite (used_of c i) (enc r) (b_data ?b)\<rparr>)"
  have put: "put_data bs c i (used_of c i) (enc r) = Inr ?c1" using room by (intro put_data_eq [OF inv rw i])
  have "cont_inv bs ?c1 fs"
    using room length_data [OF inv] by (intro cont_inv_upd [OF inv]) (auto simp: nexts_def)
  then have "upd_bucket bs ?c1 i (\<lambda>b. b\<lparr>b_bytes_used := b_bytes_used b + length (enc r)\<rparr>) =
      Inr (put_bucket c i (add_record r ?b))"
    using rw i upd_bucket_eq [of bs ?c1 fs i] by (simp add: add_record_def)
  then show ?thesis
    using put src length_data [OF inv, of gid] by (simp add: split_copy_def bucket_view_eq [OF inv g])
qed

lemma segment_rest:
  assumes "segment get (length (encs (r # rem))) d = encs (r # rem)" and "get + length (encs (r # rem)) \<le> length d"
  shows "segment get (length (enc r)) d = enc r" and "segment (get + length (enc r)) (length (encs rem)) d = encs rem"
    and "drop get d = enc r @ encs rem @ drop (get + length (encs (r # rem))) d"
proof -
  show d: "drop get d = enc r @ encs rem @ drop (get + length (encs (r # rem))) d"
    using assms(1) append_take_drop_id [of "length (encs (r # rem))" "drop get d"]
    by (simp add: segment_def add.commute)
  show "segment get (length (enc r)) d = enc r" using d by (rule segment_append_at)
  show "segment (get + length (enc r)) (length (encs rem)) d = encs rem"
    using drop_add_eq [OF d] by (rule segment_append_at)
qed

section \<open>Room for a record\<close>

text \<open>A full bucket of the new chain is followed by a fresh one: the new chain never has more buckets
  than the old one has been read.\<close>

lemma room1_spec:
  assumes I: "split_inv bs c0 fs0 p p1 ids pb new_bit ct0 st ns fs ct za zm todo seen"
    and A: "split_at bs st ns za zm gid get (r # rem)"
    and fs0: "set fs0 \<subseteq> {..<c_count c0}" and os: "os_serves os" "capacity os bs (c_count c0 + length ids)"
  shows "\<exists>st' ns' fs' ct'. split_room1 os bs pb (length (enc r)) st = Inr st'
    \<and> split_inv bs c0 fs0 p p1 ids pb new_bit ct0 st' ns' fs' ct' za zm todo seen
    \<and> split_at bs st' ns' za zm gid get (r # rem) \<and> used_of (ss_cont st') (ss_bit1 st') + length (enc r) \<le> bs"
proof -
  let ?c = "ss_cont st" and ?l = "ss_bit1 st"
  note i = split_invD [OF I] and f = split_inv_facts [OF I] and a = split_atD [OF A] and g = split_at_gid [OF I A]
  have l: "?l < c_count ?c" "?l \<notin> set ids" "?l \<notin> set fs" using f by auto
  note get = get_bucket_eq [OF i(1) l(1)]
  show ?thesis
  proof (cases "used_of ?c ?l + length (enc r) > bs")
    case False
    with get have "split_room1 os bs pb (length (enc r)) st = Inr st" by (simp add: split_room1_def)
    with I A False show ?thesis by auto
  next
    case full: True
    have "get + length (enc r) \<le> bs" using a(2) by simp
    with a(5) full i(17) have len: "length ns < length za + 1 + length zm" by fastforce
    then have "c_count ?c \<le> c_count c0 + length ids" using i(3,14) by (auto simp: obtained_def)
    then have cap: "capacity os bs (c_count ?c)" using os(2) by (rule capacity_mono [rotated])
    obtain c1 n fs' where new: "create_bucket os bs ?c pb = Inr (c1, n)" and fresh: "fresh_bucket bs ?c fs pb c1 n fs'"
      by (rule create_bucket_spec [OF i(1,2) os(1) cap])
    note b = fresh_bucketD [OF fresh i(1)]
    have n: "n \<notin> set ids" "n \<notin> set ns" using b(9) f(2,3,8,9) by auto
    then have ln: "?l \<noteq> n" using f(7) by auto
    let ?c2 = "put_bucket c1 ?l ((c_buckets c1 ?l)\<lparr>b_next := n\<rparr>)" and ?ct = "ct(n := [])"
    define st' where "st' = st\<lparr>ss_cont := ?c2, ss_bit1 := n, ss_put0 := used_of ?c2 (ss_bit0 st), ss_put1 := 0\<rparr>"
    have st': "ss_cont st' = ?c2" "ss_bit0 st' = ss_bit0 st" "ss_bit1 st' = n" "ss_put1 st' = 0"
      "ss_put0 st' = used_of ?c2 (ss_bit0 st)" by (simp_all add: st'_def)
    have "?l < c_count c1" using l(1) b(5) by simp
    then have room: "split_room1 os bs pb (length (enc r)) st = Inr st'"
      using get full i(13) new upd_bucket_eq [OF b(1,2)] by (simp add: split_room1_def st'_def)
    have old: "c_buckets ?c2 j = c_buckets ?c j" if "j \<in> set ids" for j
      using that n(1) l(2) b(13) [of j] by auto
    have new_old: "c_buckets c1 j = c_buckets ?c j" if "j \<in> set ns" for j
      using that n(2) b(13) [of j] by auto
    have "split_inv bs c0 fs0 p p1 ids pb new_bit ct0 st' (ns @ [n]) fs' ?ct za zm todo seen"
      unfolding split_inv_def Let_def st'
    proof (intro conjI)
      show "cont_inv bs ?c2 fs'" using b(8) l(3) length_data [OF b(1)] by (intro cont_inv_upd [OF b(1)]) auto
      show "cont_rw ?c2" using b(2) by simp
      show "obtained (c_count c0) fs0 (c_count ?c2) fs' (ns @ [n])"
        using obtained_trans [OF i(3) obtained_fresh [OF fresh i(1)] fs0] by simp
      show "chain (nexts ?c2) p ids" using old by (rule chain_frame [OF i(6)])
      show "chain (nexts ?c2) p1 (ns @ [n])"
        using new_old n(2) b(4,10) ln i(9) by (intro chain_hang [OF i(7,8)]) (auto simp: nexts_def)
      show "holds_chain bs ?c2 ids ?ct" using n(1) b(5) old by (intro holds_chain_frame [OF i(10)]) auto
      show "holds_chain bs ?c2 (ns @ [n]) ?ct"
        using i(11) n b(3,5,11) new_old ln by (auto simp: holds_chain_def bucket_holds_Nil)
      have "concat (map ?ct (za @ [ss_bit0 st])) = concat (map ct (za @ [ss_bit0 st]))"
        using n(1) i(14) by (intro concat_map_upd_notin) auto
      with i(18) show "concat (map ?ct (za @ [ss_bit0 st])) = filter (\<lambda>r. rv_hash r AND new_bit = 0) seen" by simp
      show "concat (map ?ct (ns @ [n])) = filter (\<lambda>r. rv_hash r AND new_bit \<noteq> 0) seen"
        using concat_map_upd_notin [OF n(2), of ct] i(19) by simp
      show "\<forall>j. j \<notin> set ids \<union> set (ns @ [n]) \<longrightarrow> c_buckets ?c2 j = c_buckets c0 j"
        using i(20) b(13) f(7) by auto
      show "b_prefix_bits (c_buckets ?c2 p) = pb" using i(21) old [OF f(11)] by simp
      show "b_prefix_bits (c_buckets ?c2 p1) = pb" using i(22) new_old [OF f(12)] by auto
      show "\<forall>j \<in> set zm. ?ct j = []" using i(15) by simp
      show "\<forall>j \<in> set todo. ?ct j = ct0 j" using i(14,16) n(1) by auto
      show "length (ns @ [n]) \<le> length za + 1 + length zm" using len by simp
      show "0 = used_of ?c2 n" using b(11) ln by simp
    qed (use i(4,5,14) in auto)
    moreover have "split_at bs st' (ns @ [n]) za zm gid get (r # rem)"
      unfolding split_at_def Let_def st'
      using a(1-4) old [OF g(1)] old [OF f(6)] b(11) ln by simp
    moreover have "used_of ?c2 n + length (enc r) \<le> bs" using a(2) b(11) ln by simp
    ultimately show ?thesis using room st' by (metis (no_types, lifting))
  qed
qed

text \<open>A full bucket of the old chain is behind the bucket being read, so the chain goes on.\<close>

lemma room0_spec:
  assumes I: "split_inv bs c0 fs0 p p1 ids pb new_bit ct0 st ns fs ct za zm todo seen"
    and A: "split_at bs st ns za zm gid get (r # rem)"
  shows "\<exists>st' za' zm'. split_room0 os bs pb (length (enc r)) st = Inr st'
    \<and> split_inv bs c0 fs0 p p1 ids pb new_bit ct0 st' ns fs ct za' zm' todo seen
    \<and> split_at bs st' ns za' zm' gid get (r # rem) \<and> used_of (ss_cont st') (ss_bit0 st') + length (enc r) \<le> bs"
proof -
  let ?c = "ss_cont st" and ?l = "ss_bit0 st"
  note i = split_invD [OF I] and f = split_inv_facts [OF I] and a = split_atD [OF A]
  have l: "?l < c_count ?c" using f(6,8) by auto
  note get = get_bucket_eq [OF i(1) l]
  show ?thesis
  proof (cases "used_of ?c ?l + length (enc r) > bs")
    case False
    with get have "split_room0 os bs pb (length (enc r)) st = Inr st" by (simp add: split_room0_def)
    with I A False show ?thesis by auto
  next
    case full: True
    have "get + length (enc r) \<le> bs" using a(2) by simp
    with a(4) full have "zm \<noteq> []" by auto
    then obtain j zm' where zm: "zm = j # zm'" by (cases zm) auto
    have ids: "ids = za @ ?l # j # zm' @ todo" using i(14) zm by simp
    have j: "j \<in> set ids" "j < c_count ?c" "j \<noteq> INVALID_BUCKET_ID" "j \<noteq> ?l" "j \<notin> set ns"
      using ids f(1,4,8) chain_not_INVALID_mem [OF i(6)] by (auto simp: INVALID_BUCKET_ID_def)
    have next_j: "b_next (c_buckets ?c ?l) = j" using chain_next_hd [OF i(6) [unfolded ids]] by (simp add: nexts_def)
    have used_j: "used_of ?c j = 0"
      using i(10,15) j(1) zm by (fastforce simp: holds_chain_def bucket_holds_Nil)
    let ?c2 = "put_bucket ?c j ((c_buckets ?c j)\<lparr>b_prefix_bits := pb\<rparr>)"
    define st' where "st' = st\<lparr>ss_cont := ?c2, ss_bit0 := j, ss_put0 := 0\<rparr>"
    have st': "ss_cont st' = ?c2" "ss_bit0 st' = j" "ss_bit1 st' = ss_bit1 st" "ss_put1 st' = ss_put1 st"
      "ss_put0 st' = 0" by (simp_all add: st'_def)
    have room: "split_room0 os bs pb (length (enc r)) st = Inr st'"
      using get full i(12) next_j j(3) upd_bucket_eq [OF i(1,2) j(2)] by (simp add: split_room0_def st'_def)
    have l1: "ss_bit1 st \<noteq> j" using f(7) j(5) by auto
    have "split_inv bs c0 fs0 p p1 ids pb new_bit ct0 st' ns fs ct (za @ [?l]) zm' todo seen"
      unfolding split_inv_def Let_def st'
    proof (intro conjI)
      show "cont_inv bs ?c2 fs" using length_data [OF i(1)] by (intro cont_inv_upd [OF i(1)]) (auto simp: nexts_def)
      show "chain (nexts ?c2) p ids" "chain (nexts ?c2) p1 ns"
        using i(6,7) by (simp_all add: chain_put_same nexts_def)
      show "holds_chain bs ?c2 ids ct" "holds_chain bs ?c2 ns ct"
        using i(10,11) by (simp_all add: holds_chain_put_same)
      show "concat (map ct ((za @ [?l]) @ [j])) = filter (\<lambda>r. rv_hash r AND new_bit = 0) seen"
        using i(15,18) zm by simp
      show "\<forall>k. k \<notin> set ids \<union> set ns \<longrightarrow> c_buckets ?c2 k = c_buckets c0 k" using i(20) j(1) by auto
      show "b_prefix_bits (c_buckets ?c2 p1) = pb" using i(22) by simp
    qed (use i(2-5,8,9,13,15-17,19,21) ids zm used_j l1 in auto)
    moreover have "split_at bs st' ns (za @ [?l]) zm' gid get (r # rem)"
      unfolding split_at_def Let_def st'
      using a zm used_j l1 by auto
    moreover have "used_of ?c2 j + length (enc r) \<le> bs" using a(2) used_j by simp
    ultimately show ?thesis using room st' by (metis (no_types, lifting))
  qed
qed

section \<open>Moving a record\<close>

text \<open>The bytes not yet read are behind everything written, so appending a record keeps them.\<close>

lemma split_at_advance:
  assumes I: "split_inv bs c0 fs0 p p1 ids pb new_bit ct0 st ns fs ct za zm todo seen"
    and A: "split_at bs st ns za zm gid get (r # rem)"
    and room: "used_of (ss_cont st) k + length (enc r) \<le> bs" and k: "k = ss_bit0 st \<or> k = ss_bit1 st"
    and st': "ss_cont st' = put_bucket (ss_cont st) k (add_record r (c_buckets (ss_cont st) k))"
      "ss_bit0 st' = ss_bit0 st" "ss_bit1 st' = ss_bit1 st"
  shows "split_at bs st' ns za zm gid (get + length (enc r)) rem"
proof -
  let ?c = "ss_cont st" and ?d = "b_data (c_buckets (ss_cont st) gid)"
  note i = split_invD [OF I] and f = split_inv_facts [OF I] and a = split_atD [OF A] and g = split_at_gid [OF I A]
  have len: "length ?d = bs" by (rule length_data [OF i(1)])
  have rest: "segment (get + length (enc r)) (length (encs rem)) ?d = encs rem"
    using segment_rest(2) [OF a(3)] a(2) len by simp
  have seg: "segment (get + length (enc r)) (length (encs rem)) (b_data (c_buckets (ss_cont st') gid)) = encs rem"
  proof (cases "gid = k")
    case True
    with g(3,4) k have "k = ss_bit0 st" "zm = []" by auto
    with a(4) have "used_of ?c k \<le> get" by simp
    then have "drop (get + length (enc r)) (overwrite (used_of ?c k) (enc r) ?d) = drop (get + length (enc r)) ?d"
      using room len by (intro drop_overwrite) auto
    with True rest show ?thesis by (simp add: st' segment_def)
  next
    case False
    with rest show ?thesis by (simp add: st')
  qed
  have mono: "used_of (ss_cont st') m \<le> get + length (enc r)" if "used_of ?c m \<le> get" for m
    using that by (auto simp: st')
  show ?thesis unfolding split_at_def Let_def st'(2,3)
    using a(1,2,4,5) seg mono by simp
qed

lemma split_inv_append:
  assumes I: "split_inv bs c0 fs0 p p1 ids pb new_bit ct0 st ns fs ct za zm todo seen"
    and room: "used_of (ss_cont st) k + length (enc r) \<le> bs"
    and k: "k = (if rv_hash r AND new_bit = 0 then ss_bit0 st else ss_bit1 st)"
    and st': "ss_cont st' = put_bucket (ss_cont st) k (add_record r (c_buckets (ss_cont st) k))"
      "ss_bit0 st' = ss_bit0 st" "ss_bit1 st' = ss_bit1 st"
      "ss_put0 st' = used_of (ss_cont st') (ss_bit0 st)" "ss_put1 st' = used_of (ss_cont st') (ss_bit1 st)"
  shows "split_inv bs c0 fs0 p p1 ids pb new_bit ct0 st' ns fs (ct(k := ct k @ [r])) za zm todo (seen @ [r])"
proof -
  let ?c = "ss_cont st" and ?ct = "ct(k := ct k @ [r])"
  let ?c2 = "put_bucket ?c k (add_record r (c_buckets ?c k))"
  note i = split_invD [OF I] and f = split_inv_facts [OF I]
  have kk: "k \<in> set ids \<or> k \<in> set ns" "k \<notin> set zm" "k \<notin> set todo" "k \<notin> set za" "k < c_count ?c"
    using k f i(14) by (auto split: if_splits)
  have "bucket_holds bs (c_buckets ?c k) (ct k)" using kk(1) i(10,11) by (auto simp: holds_chain_def)
  then have holds: "bucket_holds bs (add_record r (c_buckets ?c k)) (ct k @ [r])"
    using room by (rule bucket_holds_add_record [OF _ length_data [OF i(1)]])
  show ?thesis unfolding split_inv_def Let_def st'
  proof (intro conjI)
    show "cont_inv bs ?c2 fs"
      using room length_data [OF i(1)] by (intro cont_inv_upd [OF i(1)]) (auto simp: nexts_def)
    show "chain (nexts ?c2) p ids" "chain (nexts ?c2) p1 ns" using i(6,7) by (simp_all add: chain_put_same nexts_def)
    show "holds_chain bs ?c2 ids ?ct" by (rule holds_chain_put [OF i(10) holds])
    show "holds_chain bs ?c2 ns ?ct" by (rule holds_chain_put [OF i(11) holds])
    show "concat (map ?ct (za @ [ss_bit0 st])) = filter (\<lambda>r. rv_hash r AND new_bit = 0) (seen @ [r])"
      using i(18) k kk(4) f(10) concat_map_upd_notin [of k za ct] by (auto split: if_splits)
    have ns: "ns = butlast ns @ [ss_bit1 st]" using i(8,9) by simp
    have "k \<notin> set (butlast ns)"
      using f(1,5,6) k ns by (metis butlast_snoc disjoint_iff distinct_append distinct.simps(2) in_set_butlastD list.set_intros(1) not_distinct_conv_prefix)
    then have "concat (map ?ct ns) = concat (map ct ns) @ (if k = ss_bit1 st then [r] else [])"
      using concat_map_upd_notin [of k "butlast ns" ct] by (subst (1 2) ns) simp
    with i(19) k f(10) show "concat (map ?ct ns) = filter (\<lambda>r. rv_hash r AND new_bit \<noteq> 0) (seen @ [r])"
      by (auto split: if_splits)
    show "\<forall>j. j \<notin> set ids \<union> set ns \<longrightarrow> c_buckets ?c2 j = c_buckets c0 j" using i(20) kk(1) by auto
    show "b_prefix_bits (c_buckets ?c2 p) = pb" "b_prefix_bits (c_buckets ?c2 p1) = pb" using i(21,22) by auto
    show "ids = za @ ss_bit0 st # zm @ todo" by (rule i(14))
    show "\<forall>j \<in> set zm. ?ct j = []" "\<forall>j \<in> set todo. ?ct j = ct0 j" using i(15,16) kk by auto
  qed (use i(2-5,8,9,17) in simp_all)
qed

text \<open>What one pass of the inner loop, and then all of it, leads to.\<close>

definition split_reaches ::
  "nat \<Rightarrow> container \<Rightarrow> nat list \<Rightarrow> nat \<Rightarrow> nat \<Rightarrow> nat list \<Rightarrow> nat \<Rightarrow> hash_t \<Rightarrow> (nat \<Rightarrow> record_view list) \<Rightarrow> split_state \<Rightarrow>
   nat list \<Rightarrow> record_view list \<Rightarrow> nat \<Rightarrow> nat \<Rightarrow> record_view list \<Rightarrow> bool" where
  "split_reaches bs c0 fs0 p p1 ids pb new_bit ct0 st todo seen gid get rem \<longleftrightarrow>
     (\<exists>ns fs ct za zm. split_inv bs c0 fs0 p p1 ids pb new_bit ct0 st ns fs ct za zm todo seen
        \<and> split_at bs st ns za zm gid get rem)"

lemma split_copy_reaches:
  assumes I: "split_inv bs c0 fs0 p p1 ids pb new_bit ct0 st ns fs ct za zm todo seen"
    and A: "split_at bs st ns za zm gid get (r # rem)"
    and room: "used_of (ss_cont st) k + length (enc r) \<le> bs"
    and k: "k = (if rv_hash r AND new_bit = 0 then ss_bit0 st else ss_bit1 st)"
    and st': "ss_cont st' = put_bucket (ss_cont st) k (add_record r (c_buckets (ss_cont st) k))"
      "ss_bit0 st' = ss_bit0 st" "ss_bit1 st' = ss_bit1 st"
      "ss_put0 st' = used_of (ss_cont st') (ss_bit0 st)" "ss_put1 st' = used_of (ss_cont st') (ss_bit1 st)"
  shows "split_copy bs (ss_cont st) gid get (length (enc r)) k (used_of (ss_cont st) k) = Inr (ss_cont st')"
    and "split_reaches bs c0 fs0 p p1 ids pb new_bit ct0 st' todo (seen @ [r]) gid (get + length (enc r)) rem"
proof -
  let ?c = "ss_cont st"
  note i = split_invD [OF I] and f = split_inv_facts [OF I] and a = split_atD [OF A] and g = split_at_gid [OF I A]
  have k': "k = ss_bit0 st \<or> k = ss_bit1 st" using k by simp
  have "get + length (encs (r # rem)) \<le> length (b_data (c_buckets ?c gid))" using a(2) length_data [OF i(1)] by simp
  from segment_rest(1) [OF a(3) this] have src: "segment get (length (enc r)) (b_data (c_buckets ?c gid)) = enc r" .
  have "k < c_count ?c" using k' f(6-9) by auto
  then show "split_copy bs ?c gid get (length (enc r)) k (used_of ?c k) = Inr (ss_cont st')"
    unfolding st'(1) using src a(2) room by (intro split_copy_eq [OF i(1,2) g(2)]) auto
  show "split_reaches bs c0 fs0 p p1 ids pb new_bit ct0 st' todo (seen @ [r]) gid (get + length (enc r)) rem"
    using split_at_advance [OF I A room k' st'(1-3)] split_inv_append [OF I room k st']
    unfolding split_reaches_def by blast
qed

lemma split_move_spec:
  assumes I: "split_inv bs c0 fs0 p p1 ids pb new_bit ct0 st ns fs ct za zm todo seen"
    and A: "split_at bs st ns za zm gid get (r # rem)"
    and fs0: "set fs0 \<subseteq> {..<c_count c0}" and os: "os_serves os" "capacity os bs (c_count c0 + length ids)"
  shows "\<exists>st'. (if rv_hash r AND new_bit \<noteq> 0 then split_move1 os bs pb gid get (length (enc r)) st
      else split_move0 os bs pb gid get (length (enc r)) st) = Inr st'
    \<and> split_reaches bs c0 fs0 p p1 ids pb new_bit ct0 st' todo (seen @ [r]) gid (get + length (enc r)) rem"
proof (cases "rv_hash r AND new_bit = 0")
  case True
  obtain st1 za1 zm1 where room: "split_room0 os bs pb (length (enc r)) st = Inr st1"
    and I1: "split_inv bs c0 fs0 p p1 ids pb new_bit ct0 st1 ns fs ct za1 zm1 todo seen"
    and A1: "split_at bs st1 ns za1 zm1 gid get (r # rem)"
    and fits: "used_of (ss_cont st1) (ss_bit0 st1) + length (enc r) \<le> bs"
    using room0_spec [OF I A, of os] by auto
  note i = split_invD [OF I1] and f = split_inv_facts [OF I1]
  let ?st' = "st1\<lparr>ss_cont := put_bucket (ss_cont st1) (ss_bit0 st1) (add_record r (c_buckets (ss_cont st1) (ss_bit0 st1))),
    ss_put0 := ss_put0 st1 + length (enc r)\<rparr>"
  have "ss_bit0 st1 = (if rv_hash r AND new_bit = 0 then ss_bit0 st1 else ss_bit1 st1)" using True by simp
  note step = split_copy_reaches [OF I1 A1 fits this, of ?st']
  from step i(12,13) f(10) room True show ?thesis by (simp add: split_move0_def)
next
  case False
  obtain st1 ns1 fs1 ct1 where room: "split_room1 os bs pb (length (enc r)) st = Inr st1"
    and I1: "split_inv bs c0 fs0 p p1 ids pb new_bit ct0 st1 ns1 fs1 ct1 za zm todo seen"
    and A1: "split_at bs st1 ns1 za zm gid get (r # rem)"
    and fits: "used_of (ss_cont st1) (ss_bit1 st1) + length (enc r) \<le> bs"
    using room1_spec [OF I A fs0 os] by auto
  note i = split_invD [OF I1] and f = split_inv_facts [OF I1]
  let ?st' = "st1\<lparr>ss_cont := put_bucket (ss_cont st1) (ss_bit1 st1) (add_record r (c_buckets (ss_cont st1) (ss_bit1 st1))),
    ss_put1 := ss_put1 st1 + length (enc r)\<rparr>"
  have "ss_bit1 st1 = (if rv_hash r AND new_bit = 0 then ss_bit0 st1 else ss_bit1 st1)" using False by simp
  note step = split_copy_reaches [OF I1 A1 fits this, of ?st']
  from step i(12,13) f(10) room False show ?thesis by (simp add: split_move1_def)
qed

lemma split_step_spec:
  assumes R: "split_reaches bs c0 fs0 p p1 ids pb new_bit ct0 st todo seen gid get (r # rem)"
    and fs0: "set fs0 \<subseteq> {..<c_count c0}" and os: "os_serves os" "capacity os bs (c_count c0 + length ids)"
  shows "\<exists>st'. split_step os bs pb new_bit gid st get = Inr (st', get + length (enc r))
    \<and> split_reaches bs c0 fs0 p p1 ids pb new_bit ct0 st' todo (seen @ [r]) gid (get + length (enc r)) rem"
proof -
  from R obtain ns fs ct za zm where I: "split_inv bs c0 fs0 p p1 ids pb new_bit ct0 st ns fs ct za zm todo seen"
    and A: "split_at bs st ns za zm gid get (r # rem)" unfolding split_reaches_def by blast
  note i = split_invD [OF I] and a = split_atD [OF A] and g = split_at_gid [OF I A]
  let ?d = "b_data (c_buckets (ss_cont st) gid)"
  let ?h = "length (enc_header (rv_hash r) (rv_key r) (rv_value r))"
  have "get + length (encs (r # rem)) \<le> length ?d" using a(2) length_data [OF i(1)] by simp
  from segment_rest(3) [OF a(3) this] have mem: "drop get ?d = enc r @ encs rem @ drop (get + length (encs (r # rem))) ?d" .
  have "length (enc r) < 2 ^ 31" using a(2) i(1) by (simp add: cont_inv_def)
  note hdr = read_header_enc [OF mem this]
  have len: "length (enc r) = ?h + length (rv_key r) + length (rv_value r)" by (simp add: enc_def)
  have chk: "(?h = 4 + (vbe_length (of_nat (length (rv_key r)) :: size_t)
      + vbe_length (of_nat (length (rv_value r)) :: size_t))) = True"
    by (simp add: length_enc_header size_word_def)
  from split_move_spec [OF I A fs0 os] obtain st' where
    "(if rv_hash r AND new_bit \<noteq> 0 then split_move1 os bs pb gid get (length (enc r)) st
      else split_move0 os bs pb gid get (length (enc r)) st) = Inr st'"
    and R': "split_reaches bs c0 fs0 p p1 ids pb new_bit ct0 st' todo (seen @ [r]) gid (get + length (enc r)) rem"
    by blast
  then have "split_step os bs pb new_bit gid st get = Inr (st', get + length (enc r))"
    by (simp add: split_step_def bucket_view_eq [OF i(1) g(2)] hdr Let_def len [symmetric] chk
        split del: if_split cong del: if_weak_cong)
  with R' show ?thesis by blast
qed

lemma split_inner_spec:
  assumes fs0: "set fs0 \<subseteq> {..<c_count c0}" and os: "os_serves os" "capacity os bs (c_count c0 + length ids)"
    and "split_reaches bs c0 fs0 p p1 ids pb new_bit ct0 st todo seen gid get rem"
  shows "\<exists>st'. split_inner os bs pb new_bit gid (get + length (encs rem)) st get = Some (Inr st')
    \<and> split_reaches bs c0 fs0 p p1 ids pb new_bit ct0 st' todo (seen @ rem) gid (get + length (encs rem)) []"
  using assms(4)
proof (induction rem arbitrary: st seen get)
  case Nil
  then show ?case by (simp add: split_inner.simps)
next
  case (Cons r rem)
  from split_step_spec [OF Cons.prems fs0 os] obtain st1 where
    step: "split_step os bs pb new_bit gid st get = Inr (st1, get + length (enc r))"
    and R: "split_reaches bs c0 fs0 p p1 ids pb new_bit ct0 st1 todo (seen @ [r]) gid (get + length (enc r)) rem"
    by blast
  have "enc r \<noteq> []" using enc_nonempty [of r] by auto
  then have "split_inner os bs pb new_bit gid (get + length (encs (r # rem))) st get =
      split_inner os bs pb new_bit gid (get + length (enc r) + length (encs rem)) st1 (get + length (enc r))"
    by (subst split_inner.simps) (simp add: step add.assoc)
  with Cons.IH [OF R] show ?case by (simp add: add.assoc)
qed

section \<open>Reading the buckets in turn\<close>

text \<open>One pass of the outer loop, from the bucket whose used bytes it has just cleared.\<close>

lemma split_outer_step:
  assumes fs0: "set fs0 \<subseteq> {..<c_count c0}" and os: "os_serves os" "capacity os bs (c_count c0 + length ids)"
    and R: "split_reaches bs c0 fs0 p p1 ids pb new_bit ct0 (st\<lparr>ss_cont := c1\<rparr>) todo seen g 0 rs"
    and upd: "upd_bucket bs (ss_cont st) g (\<lambda>b. b\<lparr>b_bytes_used := 0\<rparr>) = Inr c1"
    and used: "used_of (ss_cont st) g = length (encs rs)" and g: "g \<noteq> INVALID_BUCKET_ID"
  shows "\<exists>st'. split_outer os bs pb new_bit st g = split_outer os bs pb new_bit st' (nexts (ss_cont st') g)
    \<and> split_reaches bs c0 fs0 p p1 ids pb new_bit ct0 st' todo (seen @ rs) g (length (encs rs)) []"
proof -
  from split_inner_spec [OF fs0 os R] obtain st' where
    inner: "split_inner os bs pb new_bit g (length (encs rs)) (st\<lparr>ss_cont := c1\<rparr>) 0 = Some (Inr st')"
    and R': "split_reaches bs c0 fs0 p p1 ids pb new_bit ct0 st' todo (seen @ rs) g (length (encs rs)) []" by auto
  from R' obtain ns fs ct za zm where I: "split_inv bs c0 fs0 p p1 ids pb new_bit ct0 st' ns fs ct za zm todo (seen @ rs)"
    and A: "split_at bs st' ns za zm g (length (encs rs)) []" unfolding split_reaches_def by blast
  have "next_bucket bs (ss_cont st') g = Inr (nexts (ss_cont st') g)"
    using get_bucket_eq [OF split_invD(1) [OF I] split_at_gid(2) [OF I A]] by (simp add: next_bucket_def nexts_def)
  then have "split_outer os bs pb new_bit st g = split_outer os bs pb new_bit st' (nexts (ss_cont st') g)"
    using g used inner by (subst split_outer.simps) (simp add: upd)
  with R' show ?thesis by blast
qed

lemma split_enter:
  assumes I: "split_inv bs c0 fs0 p p1 ids pb new_bit ct0 st ns fs ct za zm (g # todo) seen"
    and c1: "c1 = put_bucket (ss_cont st) g ((c_buckets (ss_cont st) g)\<lparr>b_bytes_used := 0\<rparr>)"
  shows "split_reaches bs c0 fs0 p p1 ids pb new_bit ct0 (st\<lparr>ss_cont := c1\<rparr>) todo seen g 0 (ct0 g)"
    and "used_of (ss_cont st) g = length (encs (ct0 g))"
proof -
  let ?c = "ss_cont st" and ?ct = "ct(g := [])"
  note i = split_invD [OF I] and f = split_inv_facts [OF I]
  have g: "g \<in> set ids" "g \<notin> set za" "g \<notin> set zm" "g \<noteq> ss_bit0 st" "g \<notin> set todo" "g \<notin> set ns"
    using f(1,4) i(14) by auto
  have g1: "g \<noteq> ss_bit1 st" using g(6) f(7) by auto
  have holds: "bucket_holds bs (c_buckets ?c g) (ct0 g)" using g(1) i(10,16) by (auto simp: holds_chain_def)
  then show used: "used_of ?c g = length (encs (ct0 g))" by (simp add: bucket_holds_def)
  have empty: "bucket_holds bs ((c_buckets ?c g)\<lparr>b_bytes_used := 0\<rparr>) []" by (simp add: bucket_holds_Nil)
  have za: "concat (map ?ct (za @ [ss_bit0 st])) = concat (map ct (za @ [ss_bit0 st]))"
    using g by (intro concat_map_upd_notin) auto
  define st' where "st' = st\<lparr>ss_cont := c1\<rparr>"
  have st': "ss_cont st' = c1" "ss_bit0 st' = ss_bit0 st" "ss_bit1 st' = ss_bit1 st"
    "ss_put0 st' = ss_put0 st" "ss_put1 st' = ss_put1 st" by (simp_all add: st'_def)
  have "split_inv bs c0 fs0 p p1 ids pb new_bit ct0 st' ns fs ?ct za (zm @ [g]) todo seen"
    unfolding split_inv_def Let_def st' c1
  proof (intro conjI)
    show "cont_inv bs (put_bucket ?c g ((c_buckets ?c g)\<lparr>b_bytes_used := 0\<rparr>)) fs"
      using length_data [OF i(1)] by (intro cont_inv_upd [OF i(1)]) (auto simp: nexts_def)
    show "holds_chain bs (put_bucket ?c g ((c_buckets ?c g)\<lparr>b_bytes_used := 0\<rparr>)) ids ?ct"
      by (rule holds_chain_put [OF i(10) empty])
    show "holds_chain bs (put_bucket ?c g ((c_buckets ?c g)\<lparr>b_bytes_used := 0\<rparr>)) ns ?ct"
      by (rule holds_chain_put [OF i(11) empty])
    show "concat (map ?ct (za @ [ss_bit0 st])) = filter (\<lambda>r. rv_hash r AND new_bit = 0) seen"
      unfolding za by (rule i(18))
    show "concat (map ?ct ns) = filter (\<lambda>r. rv_hash r AND new_bit \<noteq> 0) seen"
      unfolding concat_map_upd_notin [OF g(6)] by (rule i(19))
    show "ids = za @ ss_bit0 st # (zm @ [g]) @ todo" using i(14) by simp
  qed (use i(2-9,12,13,15-17,20-22) g g1 in \<open>auto simp: chain_put_same nexts_def\<close>)
  moreover have "split_at bs st' ns za (zm @ [g]) g 0 (ct0 g)"
    unfolding split_at_def Let_def st' using holds i(17) c1 by (auto simp: bucket_holds_def segment_def)
  ultimately show "split_reaches bs c0 fs0 p p1 ids pb new_bit ct0 (st\<lparr>ss_cont := c1\<rparr>) todo seen g 0 (ct0 g)"
    unfolding split_reaches_def st'_def by blast
qed

lemma split_outer_spec:
  assumes fs0: "set fs0 \<subseteq> {..<c_count c0}" and os: "os_serves os" "capacity os bs (c_count c0 + length ids)"
    and "split_reaches bs c0 fs0 p p1 ids pb new_bit ct0 st todo seen gid get []"
  shows "\<exists>st' ns fs ct za zm. split_outer os bs pb new_bit st (nexts (ss_cont st) gid) = Some (Inr st')
    \<and> split_inv bs c0 fs0 p p1 ids pb new_bit ct0 st' ns fs ct za zm [] (seen @ concat (map ct0 todo))"
  using assms(4)
proof (induction todo arbitrary: st seen gid get)
  case Nil
  then obtain ns fs ct za zm where I: "split_inv bs c0 fs0 p p1 ids pb new_bit ct0 st ns fs ct za zm [] seen"
    and A: "split_at bs st ns za zm gid get []" unfolding split_reaches_def by blast
  note i = split_invD [OF I] and a = split_atD [OF A]
  have "ids = (za @ butlast (ss_bit0 st # zm)) @ [gid]" using i(14) a(1) by simp
  then have "nexts (ss_cont st) gid = INVALID_BUCKET_ID"
    using chain_last_next i(6) by (metis INVALID_BUCKET_ID_def)
  then have "split_outer os bs pb new_bit st (nexts (ss_cont st) gid) = Some (Inr st)" by (simp add: split_outer.simps)
  with I show ?case unfolding list.map concat.simps append_Nil2 by blast
next
  case (Cons g todo)
  then obtain ns fs ct za zm where I: "split_inv bs c0 fs0 p p1 ids pb new_bit ct0 st ns fs ct za zm (g # todo) seen"
    and A: "split_at bs st ns za zm gid get []" unfolding split_reaches_def by blast
  note i = split_invD [OF I] and f = split_inv_facts [OF I] and a = split_atD [OF A]
  define zs where "zs = za @ butlast (ss_bit0 st # zm)"
  have "za @ ss_bit0 st # zm = zs @ [gid]" using a(1) by (simp add: zs_def)
  then have ids: "ids = zs @ gid # g # todo" using i(14) by (metis append.assoc append_Cons append_Nil)
  have next_g: "nexts (ss_cont st) gid = g" using i(6) unfolding ids by (rule chain_next_hd)
  have g: "g \<in> set ids" "g \<noteq> INVALID_BUCKET_ID" "g < c_count (ss_cont st)"
    using ids f(8) chain_not_INVALID_mem [OF i(6)] by (auto simp: INVALID_BUCKET_ID_def)
  note upd = upd_bucket_eq [OF i(1,2) g(3), of "\<lambda>b. b\<lparr>b_bytes_used := 0\<rparr>"]
  from split_outer_step [OF fs0 os split_enter(1) [OF I refl] upd split_enter(2) [OF I refl] g(2)] obtain st' where
    "split_outer os bs pb new_bit st g = split_outer os bs pb new_bit st' (nexts (ss_cont st') g)"
    "split_reaches bs c0 fs0 p p1 ids pb new_bit ct0 st' todo (seen @ ct0 g) g (length (encs (ct0 g))) []" by blast
  with Cons.IH [OF this(2)] next_g show ?case by simp
qed

section \<open>The whole split\<close>

lemma split_start:
  assumes inv: "cont_inv bs c fs" and ch: "chain (nexts c) p (p # todo)" and holds: "holds_chain bs c (p # todo) ct"
    and dj: "set (p # todo) \<inter> set fs = {}"
    and ca: "ca = put_bucket c p ((c_buckets c p)\<lparr>b_prefix_bits := pb\<rparr>)" and fresh: "fresh_bucket bs ca fs pb cb p1 fs1"
    and cc: "cc = put_bucket cb p ((c_buckets cb p)\<lparr>b_bytes_used := 0\<rparr>)"
  shows "split_reaches bs c fs p p1 (p # todo) pb new_bit ct
      (\<lparr>ss_cont = cb, ss_bit0 = p, ss_bit1 = p1, ss_put0 = 0, ss_put1 = 0\<rparr>\<lparr>ss_cont := cc\<rparr>) todo [] p 0 (ct p)"
    and "cont_inv bs cb fs1" and "cont_rw cb" and "p < c_count cb" and "used_of cb p = length (encs (ct p))"
proof -
  let ?ids = "p # todo" and ?ct = "ct(p := [], p1 := [])"
  have inva: "cont_inv bs ca fs"
    unfolding ca using length_data [OF inv] by (intro cont_inv_upd [OF inv]) (auto simp: nexts_def)
  note b = fresh_bucketD [OF fresh inva]
  have cnt: "c_count ca = c_count c" by (simp add: ca)
  have sub: "set ?ids \<subseteq> {..<c_count c}" using holds by (auto simp: holds_chain_def)
  have p1: "p1 \<notin> set ?ids" using b(9) cnt dj sub by auto
  have p: "p \<notin> set todo" "p \<noteq> p1" using chain_distinct [OF ch] p1 by auto
  have old: "c_buckets cc j = c_buckets c j" if "j \<noteq> p" "j \<noteq> p1" for j
    using that b(13) [of j] by (simp add: cc ca)
  have bp: "c_buckets cb p = (c_buckets c p)\<lparr>b_prefix_bits := pb\<rparr>" using b(13) p(2) by (simp add: ca)
  then have bcp: "c_buckets cc p = (c_buckets c p)\<lparr>b_prefix_bits := pb, b_bytes_used := 0\<rparr>" by (simp add: cc)
  have bc1: "c_buckets cc p1 = c_buckets cb p1" using p(2) by (simp add: cc)
  have hp: "bucket_holds bs (c_buckets c p) (ct p)" using holds by simp
  show "cont_inv bs cb fs1" "cont_rw cb" by (rule b(1), rule b(2))
  show "p < c_count cb" using sub b(5) cnt by simp
  show "used_of cb p = length (encs (ct p))" using hp bp by (simp add: bucket_holds_def)
  have todo_old: "c_buckets cc j = c_buckets c j" "?ct j = ct j" if "j \<in> set todo" for j
    using that p p1 old [of j] by auto
  have nexts_cc: "nexts cc j = nexts c j" if "j \<in> set ?ids" for j
    using that todo_old(1) [of j] bcp by (cases "j = p") (auto simp: nexts_def)
  define st where "st = \<lparr>ss_cont = cc, ss_bit0 = p, ss_bit1 = p1, ss_put0 = 0, ss_put1 = 0\<rparr>"
  have st: "ss_cont st = cc" "ss_bit0 st = p" "ss_bit1 st = p1" "ss_put0 st = 0" "ss_put1 st = 0"
    by (simp_all add: st_def)
  have "split_inv bs c fs p p1 ?ids pb new_bit ct st [p1] fs1 ?ct [] [] todo []"
    unfolding split_inv_def Let_def st
  proof (intro conjI)
    show "cont_inv bs cc fs1"
      unfolding cc using length_data [OF b(1)] by (intro cont_inv_upd [OF b(1)]) (auto simp: nexts_def)
    show "cont_rw cc" using b(2) by (simp add: cc)
    show "obtained (c_count c) fs (c_count cc) fs1 [p1]" using obtained_fresh [OF fresh inva] cnt by (simp add: cc)
    show "chain (nexts cc) p ?ids" by (rule iffD2 [OF chain_cong ch]) (rule nexts_cc)
    show "chain (nexts cc) p1 [p1]" using b(4,10) bc1 by (simp add: nexts_def)
    have "holds_chain bs c todo ct" "c_count c \<le> c_count cc" using holds b(5) cnt by (simp_all add: cc)
    then have "holds_chain bs cc todo ?ct" using todo_old by (rule holds_chain_frame)
    then show "holds_chain bs cc ?ids ?ct" using bcp p sub b(5) cnt by (simp add: bucket_holds_Nil cc)
    show "holds_chain bs cc [p1] ?ct" using b(3,11) bc1 by (simp add: bucket_holds_Nil cc)
    show "\<forall>j. j \<notin> set ?ids \<union> set [p1] \<longrightarrow> c_buckets cc j = c_buckets c j" using old by simp
    show "0 = used_of cc p" "0 = used_of cc p1" using bcp bc1 b(11) by simp_all
  qed (use sub dj p todo_old bcp bc1 b(12) in \<open>simp_all\<close>)
  moreover have "split_at bs st [p1] [] [] p 0 (ct p)"
    unfolding split_at_def Let_def st using hp bcp bc1 b(11) by (auto simp: bucket_holds_def segment_def)
  ultimately show "split_reaches bs c fs p p1 (p # todo) pb new_bit ct
      (\<lparr>ss_cont = cb, ss_bit0 = p, ss_bit1 = p1, ss_put0 = 0, ss_put1 = 0\<rparr>\<lparr>ss_cont := cc\<rparr>) todo [] p 0 (ct p)"
    unfolding split_reaches_def st_def split_state.simps by blast
qed

lemma split_free_spec:
  assumes "cont_inv bs c fs" and "cont_rw c" and "chain (nexts c) q xs" and "set xs \<subseteq> {..<c_count c}"
    and "set xs \<inter> set fs = {}" and "\<forall>j \<in> set xs. used_of c j = 0"
  shows "\<exists>c'. split_free bs c q = Some (Inr c') \<and> cont_inv bs c' (rev xs @ fs) \<and> cont_rw c' \<and> c_count c' = c_count c
    \<and> (\<forall>j. j \<notin> set xs \<longrightarrow> c_buckets c' j = c_buckets c j)"
  using assms
proof (induction xs arbitrary: c fs q)
  case Nil
  then show ?case by (auto simp: split_free.simps INVALID_BUCKET_ID_def)
next
  case (Cons x xs)
  have x: "q = x" "x \<noteq> INVALID_BUCKET_ID" "x < c_count c" "x \<notin> set fs" "x \<notin> set xs" "used_of c x = 0" "x \<noteq> INVALID_ID"
    using Cons.prems chain_distinct [OF Cons.prems(3)] by (auto simp: INVALID_BUCKET_ID_def)
  let ?c = "put_bucket c x ((c_buckets c x)\<lparr>b_next := c_first_free c\<rparr>)"
  let ?c' = "?c\<lparr>c_first_free := x\<rparr>"
  have step: "split_free bs c q = split_free bs ?c' (nexts c x)"
    using x get_bucket_eq [OF Cons.prems(1) x(3)] upd_bucket_eq [OF Cons.prems(1,2) x(3)]
    by (subst split_free.simps) (simp add: nexts_def)
  have "cont_inv bs ?c fs" using x length_data [OF Cons.prems(1)] by (intro cont_inv_upd [OF Cons.prems(1)]) auto
  moreover have "nexts ?c' = nexts ?c" by (simp add: nexts_def fun_eq_iff)
  moreover have "nexts ?c x = c_first_free c" by (simp add: nexts_def)
  ultimately have inv': "cont_inv bs ?c' (x # fs)" using x by (simp add: cont_inv_def)
  have rest: "c_buckets ?c' j = c_buckets c j" if "j \<in> set xs" for j using that x(5) by auto
  have "chain (nexts c) (nexts c x) xs" using Cons.prems(3) by simp
  then have "chain (nexts ?c') (nexts c x) xs" using rest by (rule chain_frame)
  moreover have "set xs \<inter> set (x # fs) = {}" "set xs \<subseteq> {..<c_count ?c'}" "\<forall>j \<in> set xs. used_of ?c' j = 0" "cont_rw ?c'"
    using Cons.prems(2,4-6) x(5) by (auto simp: cont_rw_def)
  ultimately obtain c' where c': "split_free bs ?c' (nexts c x) = Some (Inr c')" "cont_inv bs c' (rev xs @ x # fs)"
      "cont_rw c'" "c_count c' = c_count ?c'" "\<And>j. j \<notin> set xs \<Longrightarrow> c_buckets c' j = c_buckets ?c' j"
    using Cons.IH [OF inv'] by blast
  have "c_buckets c' j = c_buckets c j" if "j \<notin> set (x # xs)" for j using c'(5) [of j] that by simp
  with c'(1-4) step show ?case by auto
qed

text \<open>What the split leaves behind: two chains with the records of the old one, told apart by the new
  bit and in their old order, one more prefix bit on both, every bucket accounted for, the others
  untouched.\<close>

definition split_done ::
  "nat \<Rightarrow> container \<Rightarrow> nat list \<Rightarrow> nat \<Rightarrow> nat list \<Rightarrow> (nat \<Rightarrow> record_view list) \<Rightarrow> hash_t \<Rightarrow>
   container \<Rightarrow> nat \<Rightarrow> nat list \<Rightarrow> nat list \<Rightarrow> nat list \<Rightarrow> (nat \<Rightarrow> record_view list) \<Rightarrow> bool" where
  "split_done bs c fs p ids ct new_bit c' p1 ids0 ns fs' ct' \<longleftrightarrow>
     cont_inv bs c' fs' \<and> cont_rw c' \<and> c_count c \<le> c_count c' \<and> c_count c' \<le> c_count c + length ids
     \<and> chain (nexts c') p ids0 \<and> ids0 \<noteq> [] \<and> chain (nexts c') p1 ns \<and> ns \<noteq> []
     \<and> holds_chain bs c' ids0 ct' \<and> holds_chain bs c' ns ct'
     \<and> concat (map ct' ids0) = filter (\<lambda>r. rv_hash r AND new_bit = 0) (concat (map ct ids))
     \<and> concat (map ct' ns) = filter (\<lambda>r. rv_hash r AND new_bit \<noteq> 0) (concat (map ct ids))
     \<and> (\<forall>j. j \<notin> set ids \<union> set ns \<longrightarrow> c_buckets c' j = c_buckets c j)
     \<and> b_prefix_bits (c_buckets c' p) = b_prefix_bits (c_buckets c p) + 1
     \<and> b_prefix_bits (c_buckets c' p1) = b_prefix_bits (c_buckets c p) + 1
     \<and> set ids0 \<subseteq> set ids \<and> set ids \<inter> set ns = {} \<and> set ids0 \<inter> set fs' = {} \<and> set ns \<inter> set fs' = {}
     \<and> set ids0 \<union> set ns \<union> set fs' = set ids \<union> set fs \<union> {c_count c..<c_count c'}"

lemma split_finish:
  assumes I: "split_inv bs c fs p p1 ids (b_prefix_bits (c_buckets c p) + 1) new_bit ct st ns fs1 ct1 za zm [] (concat (map ct ids))"
  shows "\<exists>c'. bind_o (Some (upd_bucket bs (ss_cont st) (ss_bit0 st) (\<lambda>b. b\<lparr>b_next := INVALID_BUCKET_ID\<rparr>)))
      (\<lambda>c. split_free bs c (b_next (c_buckets (ss_cont st) (ss_bit0 st)))) = Some (Inr c')
    \<and> split_done bs c fs p ids ct new_bit c' p1 (za @ [ss_bit0 st]) ns (rev zm @ fs1) ct1"
proof -
  let ?c = "ss_cont st" and ?l = "ss_bit0 st"
  let ?c1 = "put_bucket ?c ?l ((c_buckets ?c ?l)\<lparr>b_next := INVALID_BUCKET_ID\<rparr>)"
  note i = split_invD [OF I] and f = split_inv_facts [OF I]
  have ids: "ids = za @ ?l # zm" using i(14) by simp
  have l: "?l \<notin> set za" "?l \<notin> set zm" "?l \<notin> set fs1" "?l \<notin> set ns" "?l < c_count ?c" "set za \<inter> set zm = {}"
    using f(1,2,4,8) unfolding ids by auto
  have sub: "set zm \<subseteq> set ids" "set (za @ [?l]) \<subseteq> set ids" unfolding ids by auto
  have upd: "upd_bucket bs ?c ?l (\<lambda>b. b\<lparr>b_next := INVALID_BUCKET_ID\<rparr>) = Inr ?c1" by (rule upd_bucket_eq [OF i(1,2) l(5)])
  have inv1: "cont_inv bs ?c1 fs1" using l(3) length_data [OF i(1)] by (intro cont_inv_upd [OF i(1)]) auto
  have "chain (nexts ?c) (nexts ?c ?l) zm" using chain_suffix i(6) unfolding ids by blast
  then have ch: "chain (nexts ?c1) (nexts ?c ?l) zm" using l(2) by (simp add: chain_put_other)
  have "\<forall>j \<in> set zm. used_of ?c j = 0"
    using i(10,15) sub(1) by (fastforce simp: holds_chain_def bucket_holds_Nil)
  then have used: "\<forall>j \<in> set zm. used_of ?c1 j = 0" by simp
  have zm: "set zm \<subseteq> {..<c_count ?c1}" "set zm \<inter> set fs1 = {}" using f(2,8) sub(1) by auto
  from split_free_spec [OF inv1 _ ch zm used] i(2) obtain c' where
    c': "split_free bs ?c1 (nexts ?c ?l) = Some (Inr c')" "cont_inv bs c' (rev zm @ fs1)" "cont_rw c'"
      "c_count c' = c_count ?c" "\<And>j. j \<notin> set zm \<Longrightarrow> c_buckets c' j = c_buckets ?c1 j" by auto
  have zm_ns: "set zm \<inter> set ns = {}" using f(1) sub(1) by auto
  have ns_eq: "c_buckets c' j = c_buckets ?c j" if "j \<in> set ns" for j
  proof -
    have "j \<notin> set zm" "j \<noteq> ?l" using that l(4) zm_ns by auto
    then show ?thesis using c'(5) [of j] by simp
  qed
  have za_eq: "c_buckets c' j = c_buckets ?c1 j" if "j \<in> set (za @ [?l])" for j
    using that l by (intro c'(5)) auto
  have "split_done bs c fs p ids ct new_bit c' p1 (za @ [?l]) ns (rev zm @ fs1) ct1"
    unfolding split_done_def
  proof (intro conjI)
    show "c_count c \<le> c_count c'" using i(3) c'(4) by (simp add: obtained_def)
    have "length ns \<le> length ids" using i(17) unfolding ids by simp
    then show "c_count c' \<le> c_count c + length ids" using i(3) c'(4) by (simp add: obtained_def)
    have "chain (nexts ?c1) p (za @ [?l])"
      using chain_cut [OF i(6) [unfolded ids] l(1)]
      by (rule iffD1 [OF chain_cong, rotated]) (auto simp: nexts_def INVALID_BUCKET_ID_def)
    then show "chain (nexts c') p (za @ [?l])" using za_eq by (rule chain_frame)
    show "chain (nexts c') p1 ns" using ns_eq by (rule chain_frame [OF i(7)])
    have "holds_chain bs ?c1 ids ct1" by (rule holds_chain_put_same [OF i(10)]) simp
    then have "holds_chain bs ?c1 (za @ [?l]) ct1" using sub(2) by (auto simp: holds_chain_def simp del: fun_upd_apply)
    then show "holds_chain bs c' (za @ [?l]) ct1" using za_eq c'(4) by (auto intro: holds_chain_frame)
    show "holds_chain bs c' ns ct1" using ns_eq c'(4) by (auto intro: holds_chain_frame [OF i(11)])
    show "\<forall>j. j \<notin> set ids \<union> set ns \<longrightarrow> c_buckets c' j = c_buckets c j" using i(20) c'(5) ids by auto
    have "p \<in> set (za @ [?l])" using i(6) unfolding ids by (cases za) auto
    with i(21) za_eq [OF this] show "b_prefix_bits (c_buckets c' p) = b_prefix_bits (c_buckets c p) + 1" by auto
    show "b_prefix_bits (c_buckets c' p1) = b_prefix_bits (c_buckets c p) + 1" using i(22) ns_eq [OF f(12)] by simp
    show "set (za @ [?l]) \<inter> set (rev zm @ fs1) = {}" using l f(2) sub(2) by auto
    show "set ns \<inter> set (rev zm @ fs1) = {}" using zm_ns f(3) by auto
    have "set ns \<union> set fs1 = set fs \<union> {c_count c..<c_count c'}" using i(3) c'(4) by (simp add: obtained_def)
    then show "set (za @ [?l]) \<union> set ns \<union> set (rev zm @ fs1) = set ids \<union> set fs \<union> {c_count c..<c_count c'}"
      unfolding ids by auto
  qed (use c' i(8,18,19) sub(2) f(1) in simp_all)
  with c'(1) show ?thesis by (auto simp: upd nexts_def)
qed

lemma cont_split_spec:
  assumes inv: "cont_inv bs c fs" and rw: "cont_rw c" and os: "os_serves os" "capacity os bs (c_count c + length ids)"
    and ch: "chain (nexts c) p ids" "ids \<noteq> []" and holds: "holds_chain bs c ids ct" and dj: "set ids \<inter> set fs = {}"
    and pb: "b_prefix_bits (c_buckets c p) < HASH_BITS"
  shows "\<exists>c' p1 ids0 ns fs' ct'. cont_split os bs c p = Some (Inr (c', p1))
    \<and> split_done bs c fs p ids ct (push_bit (31 - b_prefix_bits (c_buckets c p)) 1) c' p1 ids0 ns fs' ct'"
proof -
  define pb' where "pb' = b_prefix_bits (c_buckets c p) + 1"
  define new_bit :: hash_t where "new_bit = push_bit (31 - b_prefix_bits (c_buckets c p)) 1"
  obtain todo where ids: "ids = p # todo" using ch by (cases ids) auto
  have sub: "set ids \<subseteq> {..<c_count c}" using holds by (auto simp: holds_chain_def)
  have p: "p < c_count c" "p \<noteq> INVALID_BUCKET_ID" using ch ids sub by (auto simp: INVALID_BUCKET_ID_def)
  have fs: "set fs \<subseteq> {..<c_count c}" using inv by (simp add: cont_inv_def)
  define ca where "ca = put_bucket c p ((c_buckets c p)\<lparr>b_prefix_bits := pb'\<rparr>)"
  have upd: "upd_bucket bs c p (\<lambda>b. b\<lparr>b_prefix_bits := b_prefix_bits b + 1\<rparr>) = Inr ca"
    using upd_bucket_eq [OF inv rw p(1)] by (simp add: ca_def pb'_def)
  have inva: "cont_inv bs ca fs"
    unfolding ca_def using length_data [OF inv] by (intro cont_inv_upd [OF inv]) (auto simp: nexts_def)
  have ca: "cont_rw ca" "c_count ca = c_count c" "b_prefix_bits (c_buckets ca p) = pb'" using rw by (simp_all add: ca_def)
  have "capacity os bs (c_count ca)" using os(2) unfolding ca(2) by (rule capacity_mono) simp
  from create_bucket_spec [OF inva ca(1) os(1) this, of pb'] obtain cb p1 fs1 where
    new: "create_bucket os bs ca pb' = Inr (cb, p1)" and fresh: "fresh_bucket bs ca fs pb' cb p1 fs1" by blast
  define st0 where "st0 = \<lparr>ss_cont = cb, ss_bit0 = p, ss_bit1 = p1, ss_put0 = 0, ss_put1 = 0\<rparr>"
  define cc where "cc = put_bucket cb p ((c_buckets cb p)\<lparr>b_bytes_used := 0\<rparr>)"
  note start = split_start [OF inv ch(1) [unfolded ids] holds [unfolded ids] dj [unfolded ids] ca_def fresh cc_def]
  have "upd_bucket bs (ss_cont st0) p (\<lambda>b. b\<lparr>b_bytes_used := 0\<rparr>) = Inr cc"
    unfolding cc_def st0_def split_state.simps by (rule upd_bucket_eq [OF start(2-4)])
  moreover have "used_of (ss_cont st0) p = length (encs (ct p))" using start(5) by (simp add: st0_def)
  ultimately obtain st1 where
    o1: "split_outer os bs pb' new_bit st0 p = split_outer os bs pb' new_bit st1 (nexts (ss_cont st1) p)"
    and R1: "split_reaches bs c fs p p1 ids pb' new_bit ct st1 todo ([] @ ct p) p (length (encs (ct p))) []"
    using split_outer_step [OF fs os start(1) [folded st0_def ids]] p(2) by blast
  from split_outer_spec [OF fs os R1] obtain st2 ns fs2 ct2 za zm where
    o2: "split_outer os bs pb' new_bit st1 (nexts (ss_cont st1) p) = Some (Inr st2)"
    and "split_inv bs c fs p p1 ids pb' new_bit ct st2 ns fs2 ct2 za zm [] (([] @ ct p) @ concat (map ct todo))"
    by blast
  then have I2: "split_inv bs c fs p p1 ids (b_prefix_bits (c_buckets c p) + 1) new_bit ct st2 ns fs2 ct2 za zm [] (concat (map ct ids))"
    by (simp add: ids pb'_def)
  have bit: "shl32 1 (sz_sub HASH_BITS pb') = Inr new_bit"
    using pb by (simp add: shl32_def HASH_BITS_def pb'_def new_bit_def del: push_bit_of_1)
  from split_finish [OF I2] obtain c' where
    fin: "bind_o (Some (upd_bucket bs (ss_cont st2) (ss_bit0 st2) (\<lambda>b. b\<lparr>b_next := INVALID_BUCKET_ID\<rparr>)))
      (\<lambda>c. split_free bs c (b_next (c_buckets (ss_cont st2) (ss_bit0 st2)))) = Some (Inr c')"
    and res: "split_done bs c fs p ids ct new_bit c' p1 (za @ [ss_bit0 st2]) ns (rev zm @ fs2) ct2" by blast
  have "cont_split os bs c p = Some (Inr (c', p1))"
    using fin unfolding cont_split_def upd bind_o_simps Let_def ca(3) new prod.case bit st0_def [symmetric] o1 o2
    by (auto simp: bind_o_def split: option.splits sum.splits)
  with res show ?thesis unfolding new_bit_def by blast
qed

end
