(* ===== verification/Store.thy ===== *)
theory Store
  imports Container_Split
begin

text \<open>
  The container as its client sees it: a set \<open>H\<close> of chain heads and the records reachable from each.
  \<open>store\<close> ties this view to the buckets: the chains of different heads share no bucket, and every
  bucket is in one chain or in the free list, so none is lost. The operations on a chain are restated
  at this level; each changes the records of its own head only.
\<close>

section \<open>Families of chains\<close>

definition store_by ::
  "nat \<Rightarrow> container \<Rightarrow> nat list \<Rightarrow> nat set \<Rightarrow> (nat \<Rightarrow> nat list) \<Rightarrow> (nat \<Rightarrow> record_view list) \<Rightarrow> bool" where
  "store_by bs c fs H ids ct \<longleftrightarrow> cont_inv bs c fs
     \<and> (\<forall>p \<in> H. chain (nexts c) p (ids p) \<and> ids p \<noteq> [] \<and> holds_chain bs c (ids p) ct \<and> set (ids p) \<inter> set fs = {})
     \<and> (\<forall>p \<in> H. \<forall>q \<in> H. p \<noteq> q \<longrightarrow> set (ids p) \<inter> set (ids q) = {})
     \<and> (\<Union>p \<in> H. set (ids p)) \<union> set fs = {..<c_count c}"

definition store :: "nat \<Rightarrow> container \<Rightarrow> nat set \<Rightarrow> (nat \<Rightarrow> record_view list) \<Rightarrow> bool" where
  "store bs c H recs \<longleftrightarrow>
     (\<exists>fs ids ct. store_by bs c fs H ids ct \<and> (\<forall>p \<in> H. recs p = concat (map ct (ids p))))"

lemma store_byD:
  assumes "store_by bs c fs H ids ct"
  shows "cont_inv bs c fs" "(\<Union>p \<in> H. set (ids p)) \<union> set fs = {..<c_count c}"
    "\<And>p. p \<in> H \<Longrightarrow> chain (nexts c) p (ids p)" "\<And>p. p \<in> H \<Longrightarrow> ids p \<noteq> []"
    "\<And>p. p \<in> H \<Longrightarrow> holds_chain bs c (ids p) ct" "\<And>p. p \<in> H \<Longrightarrow> set (ids p) \<inter> set fs = {}"
    "\<And>p q. p \<in> H \<Longrightarrow> q \<in> H \<Longrightarrow> p \<noteq> q \<Longrightarrow> set (ids p) \<inter> set (ids q) = {}"
    "\<And>p. p \<in> H \<Longrightarrow> p \<in> set (ids p)" "\<And>p. p \<in> H \<Longrightarrow> p < c_count c"
proof -
  show 1: "cont_inv bs c fs" "(\<Union>p \<in> H. set (ids p)) \<union> set fs = {..<c_count c}"
    "\<And>p. p \<in> H \<Longrightarrow> chain (nexts c) p (ids p)" "\<And>p. p \<in> H \<Longrightarrow> ids p \<noteq> []"
    "\<And>p. p \<in> H \<Longrightarrow> holds_chain bs c (ids p) ct" "\<And>p. p \<in> H \<Longrightarrow> set (ids p) \<inter> set fs = {}"
    "\<And>p q. p \<in> H \<Longrightarrow> q \<in> H \<Longrightarrow> p \<noteq> q \<Longrightarrow> set (ids p) \<inter> set (ids q) = {}"
    using assms unfolding store_by_def by blast+
  show 2: "\<And>p. p \<in> H \<Longrightarrow> p \<in> set (ids p)" using 1(3,4) by (rule chain_hd)
  show "\<And>p. p \<in> H \<Longrightarrow> p < c_count c" using 1(2) 2 by blast
qed

text \<open>Replacing the chains of some heads \<open>Q\<close> by chains of heads \<open>P\<close>, made of the same buckets, of free
  ones and of new ones.\<close>

lemma store_by_replace:
  assumes S: "store_by bs c fs H ids ct" and Q: "Q \<subseteq> H"
    and inv': "cont_inv bs c' fs'" and cnt: "c_count c \<le> c_count c'"
    and new: "\<forall>q \<in> P. chain (nexts c') q (ids' q) \<and> ids' q \<noteq> [] \<and> holds_chain bs c' (ids' q) ct' \<and> set (ids' q) \<inter> set fs' = {}"
    and dj: "\<forall>q \<in> P. \<forall>r \<in> P. q \<noteq> r \<longrightarrow> set (ids' q) \<inter> set (ids' r) = {}"
    and acc: "(\<Union>q \<in> P. set (ids' q)) \<union> set fs' = (\<Union>p \<in> Q. set (ids p)) \<union> set fs \<union> {c_count c..<c_count c'}"
    and frame: "\<forall>j. j \<notin> (\<Union>p \<in> Q. set (ids p)) \<union> (\<Union>q \<in> P. set (ids' q)) \<longrightarrow> c_buckets c' j = c_buckets c j"
  shows "store_by bs c' fs' (P \<union> (H - Q)) (\<lambda>q. if q \<in> P then ids' q else ids q)
      (\<lambda>j. if j \<in> (\<Union>q \<in> P. set (ids' q)) then ct' j else ct j)"
    and "P \<inter> (H - Q) = {}" and "\<And>q. q \<in> H - Q \<Longrightarrow> c_buckets c' q = c_buckets c q"
proof -
  let ?N = "\<Union>q \<in> P. set (ids' q)"
  let ?ids = "\<lambda>q. if q \<in> P then ids' q else ids q" and ?ct = "\<lambda>j. if j \<in> ?N then ct' j else ct j"
  note s = store_byD [OF S]
  have K: "set (ids q) \<inter> ((\<Union>p \<in> Q. set (ids p)) \<union> set fs \<union> {c_count c..<c_count c'}) = {}" if "q \<in> H - Q" for q
  proof -
    have "set (ids q) \<subseteq> {..<c_count c}" using s(2) that by blast
    moreover have "set (ids q) \<inter> (\<Union>p \<in> Q. set (ids p)) = {}" using s(7) that Q by blast
    moreover have "set (ids q) \<inter> set fs = {}" using s(6) that by simp
    ultimately show ?thesis by auto
  qed
  then have KN: "set (ids q) \<inter> ?N = {}" "set (ids q) \<inter> set fs' = {}" if "q \<in> H - Q" for q
    unfolding acc [symmetric] using that by blast+
  have KP: "c_buckets c' j = c_buckets c j" if "q \<in> H - Q" "j \<in> set (ids q)" for q j
    using K KN(1) that by (intro frame [rule_format]) blast
  show "c_buckets c' q = c_buckets c q" if "q \<in> H - Q" for q using KP that s(8) by blast
  have PN: "q \<in> set (ids' q)" if "q \<in> P" for q using bspec [OF new that] chain_hd by blast
  show P: "P \<inter> (H - Q) = {}" using PN KN(1) s(8) by blast
  have idsK: "?ids q = ids q" if "q \<in> H - Q" for q using P that by auto
  have old: "chain (nexts c') q (ids q) \<and> ids q \<noteq> [] \<and> holds_chain bs c' (ids q) ?ct \<and> set (ids q) \<inter> set fs' = {}"
    if q: "q \<in> H - Q" for q
  proof (intro conjI)
    have q': "q \<in> H" using q by simp
    show "chain (nexts c') q (ids q)" using KP [OF q] by (rule chain_frame [OF s(3) [OF q']])
    show "holds_chain bs c' (ids q) ?ct"
      using KN(1) [OF q] by (intro holds_chain_frame [OF s(5) [OF q'] cnt KP [OF q]]) auto
  qed (use s(4) KN(2) q in auto)
  have newP: "holds_chain bs c' (ids' q) ?ct" if "q \<in> P" for q
    using bspec [OF new that] that by (auto simp: holds_chain_def)
  have all: "(\<Union>q \<in> P \<union> (H - Q). set (?ids q)) = ?N \<union> (\<Union>q \<in> H - Q. set (ids q))"
    using idsK by auto
  have "{..<c_count c'} = {..<c_count c} \<union> {c_count c..<c_count c'}" using cnt by auto
  also have "\<dots> = (\<Union>q \<in> H - Q. set (ids q)) \<union> ((\<Union>p \<in> Q. set (ids p)) \<union> set fs \<union> {c_count c..<c_count c'})"
    using s(2) Q by blast
  finally have cover: "(\<Union>q \<in> P \<union> (H - Q). set (?ids q)) \<union> set fs' = {..<c_count c'}"
    unfolding all acc [symmetric] by blast
  show "store_by bs c' fs' (P \<union> (H - Q)) ?ids ?ct"
    unfolding store_by_def
  proof (intro conjI ballI impI)
    fix q r assume qr: "q \<in> P \<union> (H - Q)" "r \<in> P \<union> (H - Q)" "q \<noteq> r"
    show "set (?ids q) \<inter> set (?ids r) = {}"
    proof (cases "q \<in> P")
      case True
      then show ?thesis using qr dj KN(1) [of r] by (cases "r \<in> P") auto
    next
      case False
      then show ?thesis using qr s(7) [of q r] KN(1) [of q] by (cases "r \<in> P") auto
    qed
  next
    fix q assume q: "q \<in> P \<union> (H - Q)"
    show "chain (nexts c') q (?ids q)" "?ids q \<noteq> []" "holds_chain bs c' (?ids q) ?ct" "set (?ids q) \<inter> set fs' = {}"
      using q new newP [of q] old [of q] by (cases "q \<in> P"; simp)+
  qed (use inv' cover in simp_all)
qed

text \<open>The case of one head that keeps its place.\<close>

lemma store_update:
  assumes S: "store_by bs c fs H ids ct" and p: "p \<in> H" and recs: "\<forall>q \<in> H. recs q = concat (map ct (ids q))"
    and inv': "cont_inv bs c' fs'" and cnt: "c_count c \<le> c_count c'"
    and new: "chain (nexts c') p xs" "xs \<noteq> []" "holds_chain bs c' xs ct'" "set xs \<inter> set fs' = {}"
    and acc: "set xs \<union> set fs' = set (ids p) \<union> set fs \<union> {c_count c..<c_count c'}"
    and frame: "\<forall>j. j \<notin> set (ids p) \<union> set xs \<longrightarrow> c_buckets c' j = c_buckets c j"
  shows "store bs c' H (recs(p := concat (map ct' xs)))" and "\<And>q. q \<in> H - {p} \<Longrightarrow> c_buckets c' q = c_buckets c q"
proof -
  let ?ids = "\<lambda>q. if q \<in> {p} then xs else ids q" and ?ct = "\<lambda>j. if j \<in> (\<Union>q \<in> {p}. set xs) then ct' j else ct j"
  have Q: "{p} \<subseteq> H" using p by simp
  have "\<forall>q \<in> {p}. chain (nexts c') q xs \<and> xs \<noteq> [] \<and> holds_chain bs c' xs ct' \<and> set xs \<inter> set fs' = {}"
    using new by simp
  moreover have "\<forall>q \<in> {p}. \<forall>r \<in> {p}. q \<noteq> r \<longrightarrow> set xs \<inter> set xs = {}" by simp
  moreover have "(\<Union>q \<in> {p}. set xs) \<union> set fs' = (\<Union>p \<in> {p}. set (ids p)) \<union> set fs \<union> {c_count c..<c_count c'}"
    using acc by simp
  moreover have "\<forall>j. j \<notin> (\<Union>p \<in> {p}. set (ids p)) \<union> (\<Union>q \<in> {p}. set xs) \<longrightarrow> c_buckets c' j = c_buckets c j"
    using frame by simp
  ultimately have rep: "store_by bs c' fs' ({p} \<union> (H - {p})) ?ids ?ct"
    "\<And>q. q \<in> H - {p} \<Longrightarrow> c_buckets c' q = c_buckets c q"
    by (rule store_by_replace [OF S Q inv' cnt])+
  have HH: "{p} \<union> (H - {p}) = H" using p by auto
  note s' = store_byD [OF rep(1), unfolded HH]
  have "(recs(p := concat (map ct' xs))) q = concat (map ?ct (?ids q))" if q: "q \<in> H" for q
  proof (cases "q = p")
    case True
    then show ?thesis by (auto intro!: arg_cong [of _ _ concat])
  next
    case False
    have "set (ids q) \<inter> set xs = {}" using s'(7) [OF q p False] False by simp
    then show ?thesis using False recs q by (auto intro!: arg_cong [of _ _ concat])
  qed
  then show "store bs c' H (recs(p := concat (map ct' xs)))" using rep(1) unfolding store_def HH by blast
  show "\<And>q. q \<in> H - {p} \<Longrightarrow> c_buckets c' q = c_buckets c q" by (rule rep(2))
qed

section \<open>Operations on the family\<close>

definition kv :: "record_view \<Rightarrow> (hash_t \<times> bytes) \<times> bytes" where
  "kv r = ((rv_hash r, rv_key r), rv_value r)"

text \<open>The value of the first matching record, which \<open>find_value\<close> looks for.\<close>

definition lookup :: "record_view list \<Rightarrow> hash_t \<Rightarrow> bytes \<Rightarrow> bytes option" where
  "lookup rs h k = map_of (map kv rs) (h, k)"

lemma lookup_none: "lookup rs h k = None \<longleftrightarrow> (\<forall>r \<in> set rs. \<not> matches h k r)"
  by (force simp: lookup_def map_of_eq_None_iff kv_def matches_def)

lemma lookup_first: "\<forall>r \<in> set xs. \<not> matches h k r \<Longrightarrow> matches h k r \<Longrightarrow> lookup (xs @ r # ys) h k = Some (rv_value r)"
  using lookup_none [of xs h k] by (auto simp: lookup_def kv_def matches_def map_add_def)

lemma lookup_insert:
  assumes "lookup (xs @ ys) (rv_hash r) (rv_key r) = None"
  shows "lookup (xs @ r # ys) h k = (if (h, k) = (rv_hash r, rv_key r) then Some (rv_value r) else lookup (xs @ ys) h k)"
  using assms by (auto simp: lookup_def kv_def map_add_def split: option.splits)

lemma lookup_delete:
  assumes "distinct (map (fst \<circ> kv) (xs @ r # ys))"
  shows "lookup (xs @ ys) h k = (if (h, k) = (rv_hash r, rv_key r) then None else lookup (xs @ r # ys) h k)"
proof -
  have "(fst \<circ> kv) r \<notin> (fst \<circ> kv) ` set (xs @ ys)" using assms by auto
  moreover have "(fst \<circ> kv) s = (fst \<circ> kv) r" if "matches (rv_hash r) (rv_key r) s" for s
    using that by (simp add: kv_def matches_def)
  ultimately have d: "\<forall>s \<in> set (xs @ ys). \<not> matches (rv_hash r) (rv_key r) s" by (metis imageI)
  have "lookup (xs @ r # ys) h k = lookup (xs @ ys) h k" if "(h, k) \<noteq> (rv_hash r, rv_key r)"
    using that by (auto simp: lookup_def kv_def map_add_def split: option.splits)
  moreover have "lookup (xs @ ys) (rv_hash r) (rv_key r) = None" using d by (simp only: lookup_none)
  ultimately show ?thesis by auto
qed

lemma lookup_filter:
  assumes "P h"
  shows "lookup (filter (\<lambda>r. P (rv_hash r)) rs) h k = lookup rs h k"
  using assms by (induction rs) (auto simp: lookup_def kv_def)

definition shown :: "nat \<Rightarrow> container \<Rightarrow> bytes option \<Rightarrow> string_view option \<Rightarrow> bool" where
  "shown bs c ov res \<longleftrightarrow>
     (case ov of None \<Rightarrow> res = None | Some v \<Rightarrow> \<exists>sv. res = Some sv \<and> sv_read bs c sv = Inr v)"

lemma store_find:
  assumes S: "store bs c H recs" and p: "p \<in> H"
  shows "\<exists>res. find_record bs c p h k = Some (Inr res) \<and> shown bs c (lookup (recs p) h k) res"
proof -
  from S obtain fs ids ct where S': "store_by bs c fs H ids ct" and recs: "recs p = concat (map ct (ids p))"
    using p unfolding store_def by blast
  note s = store_byD [OF S']
  show ?thesis
  proof (cases "\<exists>r \<in> set (recs p). matches h k r")
    case False
    then show ?thesis
      using find_value_none(1) [OF s(1) s(3,5) [OF p]] recs lookup_none [of "recs p" h k]
      by (auto simp: find_record_def shown_def)
  next
    case True
    then have "\<exists>r \<in> set (concat (map ct (ids p))). matches h k r" using recs by simp
    then obtain "is" i js as r zs where ids: "ids p = is @ i # js" and no: "\<forall>r \<in> set (concat (map ct is)). \<not> matches h k r"
      and ct: "ct i = as @ r # zs" and as: "\<forall>r \<in> set as. \<not> matches h k r" and m: "matches h k r"
      by (rule first_match)
    have i: "i < c_count c" "bucket_holds bs (c_buckets c i) (as @ r # zs)" using s(5) [OF p] ids ct by auto
    have "recs p = (concat (map ct is) @ as) @ r # (zs @ concat (map ct js))" using recs ids ct by simp
    moreover have "\<forall>r \<in> set (concat (map ct is) @ as). \<not> matches h k r" using no as by auto
    ultimately have "lookup (recs p) h k = Some (rv_value r)" using lookup_first [OF _ m] by metis
    moreover have "find_record bs c p h k = Some (Inr (Some (view_of i as r)))"
      using find_value_found(1) [OF s(1) _ _ no ct as m] s(3,5) [OF p] ids by (simp add: find_record_def)
    ultimately show ?thesis using sv_read_view_of [OF s(1) i] by (auto simp: shown_def)
  qed
qed

lemma store_create:
  assumes S: "store bs c H recs" and p: "p \<in> H" and rw: "cont_rw c"
    and os: "os_serves os" "capacity os bs (c_count c)" and fits: "bytes_required k v \<le> bs"
    and r: "r = \<lparr>rv_hash = h, rv_key = k, rv_value = v\<rparr>"
  shows "\<exists>c' sv xs ys. create_record os bs c p h k v = Some (Inr (c', sv)) \<and> recs p = xs @ ys
    \<and> store bs c' H (recs(p := xs @ r # ys)) \<and> sv_read bs c' sv = Inr v \<and> cont_rw c'
    \<and> c_count c \<le> c_count c' \<and> c_count c' \<le> c_count c + 1
    \<and> (\<forall>q \<in> H. b_prefix_bits (c_buckets c' q) = b_prefix_bits (c_buckets c q))"
proof -
  from S obtain fs ids ct where S': "store_by bs c fs H ids ct" and recs: "\<forall>q \<in> H. recs q = concat (map ct (ids q))"
    unfolding store_def by blast
  note s = store_byD [OF S']
  from create_record_spec [OF s(1) rw os fits s(3,4,5,6) [OF p] r] obtain c' fs' ns i ct' where
    cr: "create_record os bs c p h k v = Some (Inr (c', view_of i (ct' i) r))"
    and st: "stored bs c fs p (ids p) ct r c' fs' ns i ct'" by blast
  let ?xs = "ids p @ ns" and ?ct = "ct'(i := ct' i @ [r])"
  have t: "cont_inv bs c' fs'" "cont_rw c'" "obtained (c_count c) fs (c_count c') fs' ns" "length ns \<le> 1"
     "chain (nexts c') p ?xs" "holds_chain bs c' ?xs ?ct" "i \<in> set ?xs" "\<And>j. ct' j = (if j \<in> set ns then [] else ct j)"
     "\<And>j. j \<notin> set ?xs \<Longrightarrow> c_buckets c' j = c_buckets c j"
     "\<And>j. j \<in> set (ids p) \<Longrightarrow> b_prefix_bits (c_buckets c' j) = b_prefix_bits (c_buckets c j)"
    using st unfolding stored_def by blast+
  have sub: "set (ids p) \<subseteq> {..<c_count c}" using s(2) p by blast
  note dj = obtained_disjoint [OF t(3) sub s(6) [OF p]]
  have cnt: "c_count c \<le> c_count c'" "c_count c' \<le> c_count c + 1" using t(3,4) by (auto simp: obtained_def)
  have acc: "set ?xs \<union> set fs' = set (ids p) \<union> set fs \<union> {c_count c..<c_count c'}" "set ns \<inter> set fs' = {}"
    using t(3) by (auto simp: obtained_def)
  have ne: "?xs \<noteq> []" and free: "set ?xs \<inter> set fs' = {}" using s(4) [OF p] dj(2) acc(2) by auto
  have "\<forall>j. j \<notin> set (ids p) \<union> set ?xs \<longrightarrow> c_buckets c' j = c_buckets c j" using t(9) by simp
  note up = store_update [OF S' p recs t(1) cnt(1) t(5) ne t(6) free acc(1) this]
  have "ct' j = ct j" if "j \<in> set (ids p)" for j using that dj(1) t(8) [of j] by auto
  then have "concat (map ct' (ids p)) = recs p" using recs p by (auto intro!: arg_cong [of _ _ concat])
  moreover have "concat (map ct' ns) = []" using t(8) by simp
  ultimately have old: "concat (map ct' ?xs) = recs p" by simp
  from t(7) obtain us vs where us: "?xs = us @ i # vs" by (meson split_list)
  have "distinct (us @ i # vs)" using chain_distinct [OF t(5)] us by simp
  then have "i \<notin> set us" "i \<notin> set vs" by auto
  then have new: "concat (map ?ct ?xs) = (concat (map ct' us) @ ct' i) @ r # concat (map ct' vs)"
    unfolding us using concat_map_upd_notin [of i us ct'] concat_map_upd_notin [of i vs ct'] by simp
  have "recs p = (concat (map ct' us) @ ct' i) @ concat (map ct' vs)" using old unfolding us by simp
  moreover have "i < c_count c'" "bucket_holds bs (c_buckets c' i) (ct' i @ [r])" using t(6) us by simp_all
  then have "sv_read bs c' (view_of i (ct' i) r) = Inr v" using sv_read_view_of [OF t(1), of i "ct' i" r "[]"] r by simp
  moreover have "\<forall>q \<in> H. b_prefix_bits (c_buckets c' q) = b_prefix_bits (c_buckets c q)"
    using up(2) t(10) s(8) [OF p] by (metis DiffI singletonD)
  ultimately show ?thesis using cr up(1) [unfolded new] t(2) cnt by blast
qed

lemma store_remove:
  assumes S: "store bs c H recs" and p: "p \<in> H" and rw: "cont_rw c"
  shows "lookup (recs p) h k = None \<Longrightarrow> remove_record bs c p h k = Some (Inr (c, False))"
    and "lookup (recs p) h k \<noteq> None \<Longrightarrow> \<exists>c' xs r ys. remove_record bs c p h k = Some (Inr (c', True))
      \<and> recs p = xs @ r # ys \<and> matches h k r \<and> store bs c' H (recs(p := xs @ ys)) \<and> cont_rw c'
      \<and> c_count c' = c_count c
      \<and> (\<forall>q \<in> H. b_prefix_bits (c_buckets c' q) = b_prefix_bits (c_buckets c q))"
proof -
  from S obtain fs ids ct where S': "store_by bs c fs H ids ct" and recs: "\<forall>q \<in> H. recs q = concat (map ct (ids q))"
    unfolding store_def by blast
  note s = store_byD [OF S']
  show "lookup (recs p) h k = None \<Longrightarrow> remove_record bs c p h k = Some (Inr (c, False))"
    using find_value_none(2) [OF s(1) s(3,5) [OF p]] recs p by (simp add: lookup_none)
  assume "lookup (recs p) h k \<noteq> None"
  then have "\<exists>r \<in> set (concat (map ct (ids p))). matches h k r" using recs p by (simp add: lookup_none)
  from remove_record_spec [OF s(1) rw s(3,5) [OF p] this] obtain i as r zs b where
    i: "i \<in> set (ids p)" "ct i = as @ r # zs" "matches h k r"
    and rem: "remove_record bs c p h k = Some (Inr (put_bucket c i b, True))"
    and b: "b_prefix_bits b = b_prefix_bits (c_buckets c i)" "cont_inv bs (put_bucket c i b) fs" "b_next b = nexts c i"
      "bucket_holds bs b (as @ zs)" by blast
  let ?c = "put_bucket c i b" and ?ct = "ct(i := as @ zs)"
  have ch: "chain (nexts ?c) p (ids p)" using s(3) [OF p] b(3) by (simp add: chain_put_same)
  have holds: "holds_chain bs ?c (ids p) ?ct" by (rule holds_chain_put [OF s(5) [OF p] b(4)])
  have "\<forall>j. j \<notin> set (ids p) \<union> set (ids p) \<longrightarrow> c_buckets ?c j = c_buckets c j" using i(1) by auto
  with store_update(1) [OF S' p recs b(2) _ ch s(4) [OF p] holds s(6) [OF p]]
  have up: "store bs ?c H (recs(p := concat (map ?ct (ids p))))" by simp
  from i(1) obtain us vs where us: "ids p = us @ i # vs" by (meson split_list)
  define xs ys where "xs = concat (map ct us) @ as" and "ys = zs @ concat (map ct vs)"
  have "i \<notin> set us" "i \<notin> set vs" using chain_distinct [OF s(3) [OF p]] us by auto
  then have new: "concat (map ?ct (ids p)) = xs @ ys"
    unfolding us using concat_map_upd_notin [of i us ct] concat_map_upd_notin [of i vs ct] by (simp add: xs_def ys_def)
  have "recs p = xs @ r # ys" using recs p us i(2) by (simp add: xs_def ys_def)
  moreover have "\<forall>q \<in> H. b_prefix_bits (c_buckets ?c q) = b_prefix_bits (c_buckets c q)" using b(1) by auto
  ultimately show "\<exists>c' xs r ys. remove_record bs c p h k = Some (Inr (c', True))
      \<and> recs p = xs @ r # ys \<and> matches h k r \<and> store bs c' H (recs(p := xs @ ys)) \<and> cont_rw c'
      \<and> c_count c' = c_count c
      \<and> (\<forall>q \<in> H. b_prefix_bits (c_buckets c' q) = b_prefix_bits (c_buckets c q))"
    using rem i(3) up [unfolded new] rw by (intro exI [of _ ?c] exI [of _ xs] exI [of _ r] exI [of _ ys]) simp
qed

lemma store_split:
  assumes S: "store bs c H recs" and p: "p \<in> H" and rw: "cont_rw c"
    and os: "os_serves os" "capacity os bs (2 * c_count c)" and pb: "b_prefix_bits (c_buckets c p) < HASH_BITS"
    and bit: "new_bit = push_bit (31 - b_prefix_bits (c_buckets c p)) 1"
  shows "\<exists>c' p1. cont_split os bs c p = Some (Inr (c', p1)) \<and> p1 \<notin> H
    \<and> store bs c' (insert p1 H) (recs(p := filter (\<lambda>r. rv_hash r AND new_bit = 0) (recs p),
         p1 := filter (\<lambda>r. rv_hash r AND new_bit \<noteq> 0) (recs p)))
    \<and> cont_rw c' \<and> c_count c \<le> c_count c' \<and> c_count c' \<le> 2 * c_count c
    \<and> b_prefix_bits (c_buckets c' p) = b_prefix_bits (c_buckets c p) + 1
    \<and> b_prefix_bits (c_buckets c' p1) = b_prefix_bits (c_buckets c p) + 1
    \<and> (\<forall>q \<in> H - {p}. b_prefix_bits (c_buckets c' q) = b_prefix_bits (c_buckets c q))"
proof -
  from S obtain fs ids ct where S': "store_by bs c fs H ids ct" and recs: "\<forall>q \<in> H. recs q = concat (map ct (ids q))"
    unfolding store_def by blast
  note s = store_byD [OF S']
  have "card (set (ids p)) \<le> card {..<c_count c}" using s(2) p by (intro card_mono) auto
  then have len: "length (ids p) \<le> c_count c" using chain_distinct [OF s(3) [OF p]] by (simp add: distinct_card)
  then have cap: "capacity os bs (c_count c + length (ids p))" using capacity_mono [OF os(2)] by simp
  from cont_split_spec [OF s(1) rw os(1) cap s(3,4,5,6) [OF p] pb] obtain c' p1 ids0 ns fs' ct' where
    sp: "cont_split os bs c p = Some (Inr (c', p1))"
    and dn: "split_done bs c fs p (ids p) ct new_bit c' p1 ids0 ns fs' ct'" unfolding bit by blast
  have d: "cont_inv bs c' fs'" "cont_rw c'" "c_count c \<le> c_count c'" "c_count c' \<le> c_count c + length (ids p)"
    "chain (nexts c') p ids0" "ids0 \<noteq> []" "chain (nexts c') p1 ns" "ns \<noteq> []"
    "holds_chain bs c' ids0 ct'" "holds_chain bs c' ns ct'"
    "concat (map ct' ids0) = filter (\<lambda>r. rv_hash r AND new_bit = 0) (concat (map ct (ids p)))"
    "concat (map ct' ns) = filter (\<lambda>r. rv_hash r AND new_bit \<noteq> 0) (concat (map ct (ids p)))"
    "\<And>j. j \<notin> set (ids p) \<union> set ns \<Longrightarrow> c_buckets c' j = c_buckets c j"
    "b_prefix_bits (c_buckets c' p) = b_prefix_bits (c_buckets c p) + 1"
    "b_prefix_bits (c_buckets c' p1) = b_prefix_bits (c_buckets c p) + 1"
    "set ids0 \<subseteq> set (ids p)" "set (ids p) \<inter> set ns = {}" "set ids0 \<inter> set fs' = {}" "set ns \<inter> set fs' = {}"
    "set ids0 \<union> set ns \<union> set fs' = set (ids p) \<union> set fs \<union> {c_count c..<c_count c'}"
    using dn unfolding split_done_def by blast+
  have "p1 \<in> set ns" using d(7,8) by (rule chain_hd)
  then have pp1: "p1 \<noteq> p" using d(17) s(8) [OF p] by auto
  let ?P = "{p, p1}" and ?n = "\<lambda>q. if q = p1 then ns else ids0"
  have U: "(\<Union>q \<in> ?P. set (?n q)) = set ids0 \<union> set ns" using pp1 by auto
  let ?ids = "\<lambda>q. if q \<in> ?P then ?n q else ids q" and ?ct = "\<lambda>j. if j \<in> (\<Union>q \<in> ?P. set (?n q)) then ct' j else ct j"
  have Q: "{p} \<subseteq> H" using p by simp
  have new: "\<forall>q \<in> ?P. chain (nexts c') q (?n q) \<and> ?n q \<noteq> [] \<and> holds_chain bs c' (?n q) ct' \<and> set (?n q) \<inter> set fs' = {}"
    using d(5-10,18,19) pp1 by simp
  have dj: "\<forall>q \<in> ?P. \<forall>r \<in> ?P. q \<noteq> r \<longrightarrow> set (?n q) \<inter> set (?n r) = {}" using d(16,17) pp1 by auto
  have acc: "(\<Union>q \<in> ?P. set (?n q)) \<union> set fs' = (\<Union>p \<in> {p}. set (ids p)) \<union> set fs \<union> {c_count c..<c_count c'}"
    unfolding U using d(20) by simp
  have frame: "\<forall>j. j \<notin> (\<Union>p \<in> {p}. set (ids p)) \<union> (\<Union>q \<in> ?P. set (?n q)) \<longrightarrow> c_buckets c' j = c_buckets c j"
    unfolding U using d(13) by simp
  note rep = store_by_replace [OF S' Q d(1,3) new dj acc frame]
  have HH: "?P \<union> (H - {p}) = insert p1 H" using p by auto
  have p1: "p1 \<notin> H" using rep(2) pp1 by auto
  note s' = store_byD [OF rep(1), unfolded HH U]
  define recs' where "recs' = recs(p := filter (\<lambda>r. rv_hash r AND new_bit = 0) (recs p),
         p1 := filter (\<lambda>r. rv_hash r AND new_bit \<noteq> 0) (recs p))"
  have "recs' q = concat (map ?ct (?ids q))" if q: "q \<in> insert p1 H" for q
  proof (cases "q \<in> ?P")
    case True
    then have eq: "map ?ct (?ids q) = map ct' (?n q)" by auto
    have "recs' q = concat (map ct' (?n q))" using True d(11,12) recs p pp1 by (auto simp: recs'_def)
    then show ?thesis unfolding eq .
  next
    case False
    then have q': "q \<in> H" "q \<noteq> p" "q \<noteq> p1" using q by auto
    have "set (ids q) \<inter> (set ids0 \<union> set ns) = {}"
      using s'(7) [of q p] s'(7) [of q p1] q' p pp1 by auto
    then have eq: "map ?ct (?ids q) = map ct (ids q)" using False unfolding U by auto
    have "recs' q = concat (map ct (ids q))" using q' recs by (simp add: recs'_def)
    then show ?thesis unfolding eq .
  qed
  then have "store bs c' (insert p1 H) recs'" using rep(1) unfolding store_def HH by blast
  then show ?thesis using sp p1 d(2-4,14,15) len rep(3) unfolding recs'_def by auto
qed

lemma store_create_bucket:
  assumes S: "store bs c H recs" and rw: "cont_rw c" and os: "os_serves os" "capacity os bs (c_count c)"
  shows "\<exists>c' n. create_bucket os bs c pb = Inr (c', n) \<and> n \<notin> H \<and> store bs c' (insert n H) (recs(n := []))
    \<and> cont_rw c' \<and> c_count c \<le> c_count c' \<and> c_count c' \<le> c_count c + 1 \<and> b_prefix_bits (c_buckets c' n) = pb
    \<and> (\<forall>q \<in> H. c_buckets c' q = c_buckets c q)"
proof -
  from S obtain fs ids ct where S': "store_by bs c fs H ids ct" and recs: "\<forall>q \<in> H. recs q = concat (map ct (ids q))"
    unfolding store_def by blast
  note s = store_byD [OF S']
  obtain c' n fs' where new: "create_bucket os bs c pb = Inr (c', n)" and fresh: "fresh_bucket bs c fs pb c' n fs'"
    by (rule create_bucket_spec [OF s(1) rw os])
  note b = fresh_bucketD [OF fresh s(1)]
  have o: "set [n] \<union> set fs' = set fs \<union> {c_count c..<c_count c'}"
    using obtained_fresh [OF fresh s(1)] unfolding obtained_def by blast
  let ?ids = "\<lambda>q. if q \<in> {n} then [n] else ids q"
    and ?ct = "\<lambda>j. if j \<in> (\<Union>q \<in> {n}. set [n]) then [] else ct j"
  have ch: "\<forall>q \<in> {n}. chain (nexts c') q [n] \<and> [n] \<noteq> [] \<and> holds_chain bs c' [n] (\<lambda>_. []) \<and> set [n] \<inter> set fs' = {}"
    using b(3,4,7,10,11) by (simp add: nexts_def bucket_holds_Nil)
  have acc: "(\<Union>q \<in> {n}. set [n]) \<union> set fs' = (\<Union>p \<in> {}. set (ids p)) \<union> set fs \<union> {c_count c..<c_count c'}"
    using o by simp
  have frame: "\<forall>j. j \<notin> (\<Union>p \<in> {}. set (ids p)) \<union> (\<Union>q \<in> {n}. set [n]) \<longrightarrow> c_buckets c' j = c_buckets c j"
    using b(13) by simp
  note rep = store_by_replace [OF S' _ b(1,5) ch _ acc frame, simplified]
  have n: "n \<notin> H" using rep(2) by simp
  have "n \<notin> set (ids q)" if "q \<in> H" for q
  proof -
    have "set (ids q) \<subseteq> {..<c_count c}" using s(2) that by blast
    then show ?thesis using s(6) [OF that] b(9) by auto
  qed
  then have "\<forall>q \<in> insert n H. (recs(n := [])) q = concat (map (\<lambda>j. if j = n then [] else ct j) (if q = n then [n] else ids q))"
    using recs n by (auto intro!: arg_cong [of _ _ concat])
  then have "store bs c' (insert n H) (recs(n := []))" using rep(1) unfolding store_def by blast
  then show ?thesis using new n rep(3) b(2,5,6,12) by blast
qed

lemma store_empty: "cont_inv bs c [] \<Longrightarrow> c_count c = 0 \<Longrightarrow> store bs c {} recs"
  by (force simp: store_def store_by_def)

lemma store_get_bucket:
  assumes "store bs c H recs" and "p \<in> H"
  shows "get_bucket bs c p = Inr (c_buckets c p)" and "p < c_count c"
  using assms store_byD(1,9) get_bucket_eq unfolding store_def by blast+

lemma store_bucket_to_split:
  assumes S: "store bs c H recs" and p: "p \<in> H"
  shows "\<exists>b. bucket_to_split bs c p = Inr b"
proof -
  from S obtain fs ids ct where S': "store_by bs c fs H ids ct" unfolding store_def by blast
  note s = store_byD [OF S']
  obtain "is" where ids: "ids p = p # is" using s(3,4) [OF p] by (cases "ids p") auto
  note g = get_bucket_eq [OF s(1)]
  show ?thesis
  proof (cases "is")
    case Nil
    then have "b_next (c_buckets c p) = INVALID_BUCKET_ID"
      using s(3) [OF p] ids by (simp add: nexts_def INVALID_BUCKET_ID_def)
    then show ?thesis using g [OF s(9) [OF p]] by (auto simp: bucket_to_split_def)
  next
    case (Cons j js)
    then have j: "b_next (c_buckets c p) = j" "j < c_count c"
      using s(3,5) [OF p] ids by (simp_all add: nexts_def)
    then show ?thesis using g [OF s(9) [OF p]] g [OF j(2)] by (auto simp: bucket_to_split_def)
  qed
qed

section \<open>Properties\<close>

text \<open>A container with one bucket of 64 bytes that holds one record, to evaluate examples on.\<close>

definition demo_record :: record_view where
  "demo_record = \<lparr>rv_hash = 7, rv_key = [1], rv_value = [2]\<rparr>"

definition demo_cont :: container where
  "demo_cont = \<lparr>c_signature = CONT_SIGNATURE, c_count = 1, c_first_free = INVALID_BUCKET_ID,
     c_buckets = (\<lambda>_. \<lparr>b_prefix_bits = 1, b_bytes_used = 8, b_next = INVALID_BUCKET_ID, b_data = enc demo_record @ replicate 56 0\<rparr>),
     c_file_map = demo_fm\<rparr>"

lemma demo_enc: "length (enc demo_record) = 8"
  by code_simp

lemma demo_store: "store 64 demo_cont {0} (\<lambda>_. [demo_record])" "cont_rw demo_cont" "c_count demo_cont = 1"
proof -
  have "store_by 64 demo_cont [] {0} (\<lambda>_. [0]) (\<lambda>_. [demo_record])"
    by (auto simp: store_by_def cont_inv_def demo_cont_def demo_fm_def readable_def bucket_off_def bucket_size_def
        bucket_header_size_def cont_header_size_def INVALID_ID_def INVALID_BUCKET_ID_def nexts_def bucket_holds_def demo_enc)
  then show "store 64 demo_cont {0} (\<lambda>_. [demo_record])"
    unfolding store_def by (intro exI [of _ "[]"] exI [of _ "\<lambda>_. [0]"] exI [of _ "\<lambda>_. [demo_record]"]) simp
qed (simp_all add: cont_rw_def demo_cont_def demo_fm_def)

lemma demo_capacity: "n \<le> 1000000 \<Longrightarrow> capacity demo_os 64 n"
  by (simp add: capacity_def demo_os_serves(3) bucket_off_def bucket_size_def bucket_header_size_def cont_header_size_def)

lemma demo_fits: "bytes_required [3] [4] \<le> 64"
  by code_simp

lemma demo_lookup: "lookup [demo_record] h k = (if h = 7 \<and> k = [1] then Some [2] else None)"
  by (simp add: lookup_def kv_def demo_record_def)

text \<open>What \<open>find_record\<close> answers on every chain of a container: it returns, and shows the value that a
  table of contents \<open>f\<close> has for the chain, the hash and the key.\<close>

definition answers :: "nat \<Rightarrow> container \<Rightarrow> nat set \<Rightarrow> (nat \<Rightarrow> hash_t \<Rightarrow> bytes \<Rightarrow> bytes option) \<Rightarrow> bool" where
  "answers bs c H f \<longleftrightarrow>
     (\<forall>q \<in> H. \<forall>h k. \<exists>res. find_record bs c q h k = Some (Inr res) \<and> shown bs c (f q h k) res)"

lemma store_answers:
  assumes "store bs c H recs" and "\<forall>q \<in> H. \<forall>h k. lookup (recs q) h k = f q h k"
  shows "answers bs c H f"
  unfolding answers_def
proof (intro ballI allI)
  fix q h k assume "q \<in> H"
  then show "\<exists>res. find_record bs c q h k = Some (Inr res) \<and> shown bs c (f q h k) res"
    using store_find [OF assms(1), of q h k] assms(2) by simp
qed

text \<open>C17. \<open>find_record\<close> returns the value of the first record of the chain with this hash and key, and
  nothing when there is none; it always returns.\<close>

theorem find_record_correct:
  assumes "store bs c H recs" and "p \<in> H"
  shows "\<exists>res. find_record bs c p h k = Some (Inr res) \<and> shown bs c (lookup (recs p) h k) res"
  by (rule store_find [OF assms])

theorem find_record_correct_witness:
  "\<exists>sv. find_record 64 demo_cont 0 7 [1] = Some (Inr (Some sv)) \<and> sv_read 64 demo_cont sv = Inr [2]"
  using find_record_correct [OF demo_store(1), of 0 7 "[1]"] by (auto simp: demo_lookup shown_def)

text \<open>C16. \<open>create_record\<close> of a record that fits a bucket returns a view of the stored value; from then on
  this hash and key are found with this value, and nothing else that could be found in any chain
  changes.\<close>

theorem create_record_correct:
  assumes "store bs c H recs" and "p \<in> H" and "cont_rw c" and "os_serves os" and "capacity os bs (c_count c)"
    and "bytes_required k v \<le> bs" and none: "lookup (recs p) h k = None"
  shows "\<exists>c' sv. create_record os bs c p h k v = Some (Inr (c', sv)) \<and> sv_read bs c' sv = Inr v
    \<and> answers bs c' H (\<lambda>q h' k'. if (q, h', k') = (p, h, k) then Some v else lookup (recs q) h' k')"
proof -
  define r where "r = \<lparr>rv_hash = h, rv_key = k, rv_value = v\<rparr>"
  have r: "rv_hash r = h" "rv_key r = k" "rv_value r = v" by (simp_all add: r_def)
  from store_create [OF assms(1-6) r_def] obtain c' sv xs ys where
    c': "create_record os bs c p h k v = Some (Inr (c', sv))" "sv_read bs c' sv = Inr v"
    and xs: "recs p = xs @ ys" and S: "store bs c' H (recs(p := xs @ r # ys))" by blast
  have "lookup (xs @ r # ys) h' k' = (if (h', k') = (h, k) then Some v else lookup (recs p) h' k')" for h' k'
    using lookup_insert [of xs ys r h' k'] none xs r by simp
  then have "answers bs c' H (\<lambda>q h' k'. if (q, h', k') = (p, h, k) then Some v else lookup (recs q) h' k')"
    by (intro store_answers [OF S]) simp
  then show ?thesis using c' by blast
qed

theorem create_record_correct_witness:
  "\<exists>c' sv. create_record demo_os 64 demo_cont 0 7 [3] [4] = Some (Inr (c', sv)) \<and> sv_read 64 c' sv = Inr [4]
    \<and> answers 64 c' {0} (\<lambda>q h' k'. if (q, h', k') = (0, 7, [3]) then Some [4] else lookup [demo_record] h' k')"
  by (rule create_record_correct [OF demo_store(1) _ demo_store(2) demo_os_serves(1) _ demo_fits])
    (simp_all add: demo_store(3) demo_capacity demo_lookup)

text \<open>C18. \<open>remove_record\<close> says whether the hash and key were there; where no pair is stored twice, it
  is found no more afterwards, and nothing else changes in any chain.\<close>

theorem remove_record_correct:
  assumes "store bs c H recs" and "p \<in> H" and "cont_rw c" and dist: "distinct (map (fst \<circ> kv) (recs p))"
  shows "\<exists>c'. remove_record bs c p h k = Some (Inr (c', lookup (recs p) h k \<noteq> None))
    \<and> answers bs c' H (\<lambda>q h' k'. if (q, h', k') = (p, h, k) then None else lookup (recs q) h' k')"
proof (cases "lookup (recs p) h k")
  case None
  have "answers bs c H (\<lambda>q h' k'. if (q, h', k') = (p, h, k) then None else lookup (recs q) h' k')"
    using None by (intro store_answers [OF assms(1)]) simp
  then show ?thesis using store_remove(1) [OF assms(1-3) None] None by (intro exI [of _ c]) simp
next
  case (Some w)
  then have "lookup (recs p) h k \<noteq> None" by simp
  from store_remove(2) [OF assms(1-3) this] obtain c' xs r ys where
    c': "remove_record bs c p h k = Some (Inr (c', True))" and xs: "recs p = xs @ r # ys" and m: "matches h k r"
    and S: "store bs c' H (recs(p := xs @ ys))" by blast
  have r: "rv_hash r = h" "rv_key r = k" using m by (simp_all add: matches_def)
  have "lookup (xs @ ys) h' k' = (if (h', k') = (h, k) then None else lookup (recs p) h' k')" for h' k'
    using lookup_delete [of xs r ys h' k'] dist xs r by simp
  then have "answers bs c' H (\<lambda>q h' k'. if (q, h', k') = (p, h, k) then None else lookup (recs q) h' k')"
    by (intro store_answers [OF S]) simp
  then show ?thesis using c' Some by (intro exI [of _ c']) simp
qed

theorem remove_record_correct_witness:
  "\<exists>c'. remove_record 64 demo_cont 0 7 [1] = Some (Inr (c', True))
    \<and> answers 64 c' {0} (\<lambda>q h' k'. if (q, h', k') = (0, 7, [1]) then None else lookup [demo_record] h' k')"
  using remove_record_correct [OF demo_store(1) _ demo_store(2), of 0 7 "[1]"] by (simp add: demo_lookup)

text \<open>C15. Splitting a chain returns a new chain: the records whose hash has the next bit set are found there
  and no more in the old one, the others are found where they were, nothing changes in any other chain,
  and both chains have one more bit of prefix.\<close>

theorem split_partitions:
  assumes S: "store bs c H recs" and p: "p \<in> H" and "cont_rw c" and "os_serves os" and "capacity os bs (2 * c_count c)"
    and pb: "b_prefix_bits (c_buckets c p) < HASH_BITS"
  shows "\<exists>c' p1. cont_split os bs c p = Some (Inr (c', p1)) \<and> p1 \<notin> H
    \<and> answers bs c' (insert p1 H) (\<lambda>q h k.
        let moved = bit h (31 - b_prefix_bits (c_buckets c p)) in
        if q = p then (if moved then None else lookup (recs p) h k)
        else if q = p1 then (if moved then lookup (recs p) h k else None)
        else lookup (recs q) h k)
    \<and> b_prefix_bits (c_buckets c' p) = b_prefix_bits (c_buckets c p) + 1
    \<and> b_prefix_bits (c_buckets c' p1) = b_prefix_bits (c_buckets c p) + 1"
proof -
  let ?n = "31 - b_prefix_bits (c_buckets c p)"
  have bit: "h AND push_bit ?n 1 = 0 \<longleftrightarrow> \<not> bit h ?n" for h :: hash_t
    using and_exp_eq_0_iff_not_bit [of h ?n] by (simp add: push_bit_eq_mult)
  from store_split [OF S p assms(3-5) pb refl] obtain c' p1 where
    c': "cont_split os bs c p = Some (Inr (c', p1))" "p1 \<notin> H"
    and S': "store bs c' (insert p1 H) (recs(p := filter (\<lambda>r. rv_hash r AND push_bit ?n 1 = 0) (recs p),
         p1 := filter (\<lambda>r. rv_hash r AND push_bit ?n 1 \<noteq> 0) (recs p)))"
    and b: "b_prefix_bits (c_buckets c' p) = b_prefix_bits (c_buckets c p) + 1"
      "b_prefix_bits (c_buckets c' p1) = b_prefix_bits (c_buckets c p) + 1" by blast
  have l: "lookup (filter (\<lambda>r. P (rv_hash r)) (recs p)) h k = (if P h then lookup (recs p) h k else None)" for P h k
    by (cases "P h") (auto simp: lookup_filter [of P h] lookup_none matches_def)
  have "answers bs c' (insert p1 H) (\<lambda>q h k. let moved = bit h ?n in
      if q = p then (if moved then None else lookup (recs p) h k)
      else if q = p1 then (if moved then lookup (recs p) h k else None) else lookup (recs q) h k)"
    using c'(2) p l [of "\<lambda>h. \<not> bit h ?n"] l [of "\<lambda>h. bit h ?n"]
    by (intro store_answers [OF S' [unfolded bit not_not]]) (auto simp: Let_def)
  with c' b show ?thesis by blast
qed

theorem split_partitions_witness:
  "\<exists>c' p1. cont_split demo_os 64 demo_cont 0 = Some (Inr (c', p1)) \<and> p1 \<noteq> 0
    \<and> (\<exists>sv. find_record 64 c' 0 7 [1] = Some (Inr (Some sv)) \<and> sv_read 64 c' sv = Inr [2])
    \<and> find_record 64 c' p1 7 [1] = Some (Inr None)"
proof -
  have bits: "b_prefix_bits (c_buckets demo_cont 0) = 1" by (simp add: demo_cont_def)
  have cap: "capacity demo_os 64 (2 * c_count demo_cont)" by (simp add: demo_store(3) demo_capacity)
  have "b_prefix_bits (c_buckets demo_cont 0) < HASH_BITS" by (simp add: bits HASH_BITS_def)
  from split_partitions [OF demo_store(1) _ demo_store(2) demo_os_serves(1) cap this] obtain c' p1 where
    c': "cont_split demo_os 64 demo_cont 0 = Some (Inr (c', p1))" "p1 \<noteq> 0"
    and a: "answers 64 c' (insert p1 {0}) (\<lambda>q h k. let moved = bit h (31 - 1) in
        if q = 0 then (if moved then None else lookup [demo_record] h k)
        else if q = p1 then (if moved then lookup [demo_record] h k else None) else lookup [demo_record] h k)"
    unfolding bits by auto
  have "\<not> bit (7 :: hash_t) (31 - 1)" by simp
  then have "\<exists>res. find_record 64 c' 0 7 [1] = Some (Inr res) \<and> shown 64 c' (Some [2]) res"
    "\<exists>res. find_record 64 c' p1 7 [1] = Some (Inr res) \<and> shown 64 c' None res"
    using a [unfolded answers_def, rule_format, of 0 7 "[1]"] a [unfolded answers_def, rule_format, of p1 7 "[1]"] c'(2)
    by (simp_all add: demo_lookup)
  then show ?thesis using c' by (auto simp: shown_def)
qed

end
