(* ===== verification/Hash_Map.thy ===== *)
theory Hash_Map
  imports Store
begin

text \<open>
  The hash map of \<^verbatim>\<open>src/src/hash_map.h\<close>: a catalogue and a container, composed the way the class
  composes them, and its iterator. The caller supplies the hash; a string view returned by an
  operation is read with \<open>sv_read\<close>. All operations are defined here; \<open>Hash_Map_Refinement\<close> and
  \<open>Hash_Map_Iterator\<close> prove what they do. Reads of \<open>prefix_bits\<close> and \<open>buckets_count\<close> are reads of
  the two headers, which are mapped from the constructor on.
\<close>

section \<open>Operations\<close>

record hash_map =
  hm_catalogue :: catalogue
  hm_container :: container

definition hm_open :: "os_env \<Rightarrow> nat \<Rightarrow> string \<Rightarrow> bool \<Rightarrow> cat_layout \<Rightarrow> cont_layout \<Rightarrow> hash_map result" where
  "hm_open os bs filename read_only cat_disk cont_disk =
     bind_r (cat_open os (filename @ ''cat'') 1 read_only cat_disk) (\<lambda>cat.
     bind_r (cont_open os bs (filename @ ''dat'') read_only cont_disk) (\<lambda>c.
     if buckets_count c = 0 then
       bind_r (create_bucket os bs c 1) (\<lambda>(c, id0).
       bind_r (cat_find_assign cat 0 id0) (\<lambda>cat.
       bind_r (create_bucket os bs c 1) (\<lambda>(c, id1).
       bind_r (cat_find_assign cat (NOT 0) id1) (\<lambda>cat.
       Inr \<lparr>hm_catalogue = cat, hm_container = c\<rparr>))))
     else Inr \<lparr>hm_catalogue = cat, hm_container = c\<rparr>))"

text \<open>The three steps of \<open>get\<close> that make room before a record is stored: the catalogue is doubled,
  the chain is split, the new chain is entered into the catalogue.\<close>

definition hm_grow :: "os_env \<Rightarrow> nat \<Rightarrow> hash_map \<Rightarrow> nat \<Rightarrow> hash_map result" where
  "hm_grow os bs hm bucket_id =
     (let cat = hm_catalogue hm; c = hm_container hm in
      bind_r (bucket_prefix_bits bs c bucket_id) (\<lambda>bits.
      if bits = cat_prefix_bits cat then
        bind_r (shl64 1 (cat_prefix_bits cat)) (\<lambda>entries.
        if buckets_count c > unat entries
        then bind_r (cat_split os cat) (\<lambda>cat. Inr (hm\<lparr>hm_catalogue := cat\<rparr>))
        else Inr hm)
      else Inr hm))"

definition hm_enter :: "nat \<Rightarrow> hash_map \<Rightarrow> hash_t \<Rightarrow> nat \<Rightarrow> nat \<Rightarrow> (hash_map \<times> nat) result" where
  "hm_enter bs hm hash bucket_id new_bucket_id =
     bind_r (bucket_prefix_bits bs (hm_container hm) bucket_id) (\<lambda>prefix_bits.
     bind_r (bucket_prefix_bits bs (hm_container hm) new_bucket_id) (\<lambda>new_prefix_bits.
     if prefix_bits \<noteq> new_prefix_bits then Inl Assertion_failed
     else
       bind_r (shl32 1 (sz_sub HASH_BITS prefix_bits)) (\<lambda>new_bit.
       bind_r (cat_set (hm_catalogue hm) (hash OR new_bit) prefix_bits new_bucket_id) (\<lambda>cat.
       let bucket_id = (if hash AND new_bit \<noteq> 0 then new_bucket_id else bucket_id) in
       bind_r (cat_find cat hash) (\<lambda>found.
       if found \<noteq> bucket_id then Inl Assertion_failed
       else Inr (hm\<lparr>hm_catalogue := cat\<rparr>, bucket_id))))))"

definition hm_make_room :: "os_env \<Rightarrow> nat \<Rightarrow> hash_map \<Rightarrow> hash_t \<Rightarrow> nat \<Rightarrow> (hash_map \<times> nat) result option" where
  "hm_make_room os bs hm hash bucket_id =
     bind_o (Some (bucket_to_split bs (hm_container hm) bucket_id)) (\<lambda>to_split.
     if \<not> to_split then Some (Inr (hm, bucket_id))
     else
       bind_o (Some (hm_grow os bs hm bucket_id)) (\<lambda>hm.
       bind_o (Some (bucket_prefix_bits bs (hm_container hm) bucket_id)) (\<lambda>bits.
       if bits < cat_prefix_bits (hm_catalogue hm) then
         bind_o (cont_split os bs (hm_container hm) bucket_id) (\<lambda>(c, new_bucket_id).
         Some (hm_enter bs (hm\<lparr>hm_container := c\<rparr>) hash bucket_id new_bucket_id))
       else Some (Inr (hm, bucket_id)))))"

definition hm_get ::
  "os_env \<Rightarrow> nat \<Rightarrow> hash_map \<Rightarrow> hash_t \<Rightarrow> bytes \<Rightarrow> bytes \<Rightarrow> (hash_map \<times> string_view option) result option" where
  "hm_get os bs hm hash key default_value =
     bind_o (Some (cat_find (hm_catalogue hm) hash)) (\<lambda>bucket_id.
     bind_o (find_record bs (hm_container hm) bucket_id hash key) (\<lambda>found.
     case found of
       Some sv \<Rightarrow> Some (Inr (hm, Some sv))
     | None \<Rightarrow>
         bind_o (hm_make_room os bs hm hash bucket_id) (\<lambda>(hm, bucket_id).
         bind_o (create_record os bs (hm_container hm) bucket_id hash key default_value) (\<lambda>(c, sv).
         Some (Inr (hm\<lparr>hm_container := c\<rparr>, Some sv))))))"

definition hm_find :: "nat \<Rightarrow> hash_map \<Rightarrow> hash_t \<Rightarrow> bytes \<Rightarrow> string_view option result option" where
  "hm_find bs hm hash key =
     bind_o (Some (cat_find (hm_catalogue hm) hash)) (\<lambda>bucket_id.
     find_record bs (hm_container hm) bucket_id hash key)"

definition hm_remove :: "nat \<Rightarrow> hash_map \<Rightarrow> hash_t \<Rightarrow> bytes \<Rightarrow> (hash_map \<times> bool) result option" where
  "hm_remove bs hm hash key =
     bind_o (Some (cat_find (hm_catalogue hm) hash)) (\<lambda>bucket_id.
     bind_o (remove_record bs (hm_container hm) bucket_id hash key) (\<lambda>(c, removed).
     Some (Inr (hm\<lparr>hm_container := c\<rparr>, removed))))"

definition hm_bytes_allocated :: "hash_map \<Rightarrow> nat" where
  "hm_bytes_allocated hm = sz (cont_bytes_allocated (hm_container hm) + cat_bytes_allocated (hm_catalogue hm))"

text \<open>\<open>close\<close> does not reach the container when closing the catalogue throws.\<close>

definition hm_close :: "os_env \<Rightarrow> hash_map \<Rightarrow> hash_map \<times> unit result" where
  "hm_close os hm =
     (let (cat, r) = cat_close os (hm_catalogue hm); hm = hm\<lparr>hm_catalogue := cat\<rparr> in
      case r of
        Inl e \<Rightarrow> (hm, Inl e)
      | Inr _ \<Rightarrow>
          let (c, r) = cont_close os (hm_container hm) in (hm\<lparr>hm_container := c\<rparr>, r))"

section \<open>Iterator\<close>

text \<open>\<open>it_map\<close> tells whether \<^verbatim>\<open>map_\<close> points at the hash map or is null; the map itself is an argument
  of the member functions.\<close>

record const_iterator =
  it_map :: bool
  it_catalogue_index :: nat
  it_bucket_id :: nat
  it_byte_offset :: nat

definition it_end :: const_iterator where
  "it_end = \<lparr>it_map = False, it_catalogue_index = 0, it_bucket_id = 0, it_byte_offset = 0\<rparr>"

text \<open>The loop that skips the entries of the chain just left.\<close>

function it_skip :: "hash_map \<Rightarrow> nat \<Rightarrow> nat result" where
  "it_skip hm i =
     (if i < cat_buffer_size (hm_catalogue hm) then
        bind_r (cat_get (hm_catalogue hm) i) (\<lambda>a.
        bind_r (cat_get (hm_catalogue hm) (i - 1)) (\<lambda>b.
        if a = b then it_skip hm (i + 1) else Inr i))
      else Inr i)"
  by pat_completeness auto
termination
  by (relation "measure (\<lambda>(hm, i). cat_buffer_size (hm_catalogue hm) - i)") auto

declare it_skip.simps [simp del]

text \<open>One pass of the loop of \<open>find_next_record\<close>: \<open>Inl\<close> the iterator to return, or \<open>Inr\<close> the
  iterator to go on with.\<close>

definition it_step :: "nat \<Rightarrow> hash_map \<Rightarrow> const_iterator \<Rightarrow> (const_iterator + const_iterator) result" where
  "it_step bs hm it =
     bind_r (read_record bs (hm_container hm) (it_bucket_id it) (it_byte_offset it)) (\<lambda>probe.
     if probe \<noteq> None then Inr (Inl it)
     else
       bind_r (next_bucket bs (hm_container hm) (it_bucket_id it)) (\<lambda>nxt.
       if nxt \<noteq> INVALID_BUCKET_ID then Inr (Inr (it\<lparr>it_bucket_id := nxt, it_byte_offset := 0\<rparr>))
       else
         bind_r (it_skip hm (it_catalogue_index it + 1)) (\<lambda>i.
         if i \<ge> cat_buffer_size (hm_catalogue hm)
         then Inr (Inl (it\<lparr>it_catalogue_index := i, it_map := False\<rparr>))
         else
           bind_r (cat_get (hm_catalogue hm) i) (\<lambda>b.
           Inr (Inr (it\<lparr>it_catalogue_index := i, it_bucket_id := b, it_byte_offset := 0\<rparr>))))))"

partial_function (option) find_next_record :: "nat \<Rightarrow> hash_map \<Rightarrow> const_iterator \<Rightarrow> const_iterator result option" where
  "find_next_record bs hm it =
     (case it_step bs hm it of
        Inl e \<Rightarrow> Some (Inl e)
      | Inr (Inl it) \<Rightarrow> Some (Inr it)
      | Inr (Inr it) \<Rightarrow> find_next_record bs hm it)"

definition it_at :: "nat \<Rightarrow> hash_map \<Rightarrow> nat \<Rightarrow> const_iterator result option" where
  "it_at bs hm idx =
     (let it = \<lparr>it_map = True, it_catalogue_index = idx, it_bucket_id = 0, it_byte_offset = 0\<rparr> in
      if idx < cat_buffer_size (hm_catalogue hm) then
        bind_o (Some (cat_get (hm_catalogue hm) idx)) (\<lambda>b. find_next_record bs hm (it\<lparr>it_bucket_id := b\<rparr>))
      else Some (Inr (it\<lparr>it_map := False\<rparr>)))"

definition hm_begin :: "nat \<Rightarrow> hash_map \<Rightarrow> const_iterator result option" where
  "hm_begin bs hm = it_at bs hm 0"

definition hm_end :: const_iterator where
  "hm_end = it_end"

text \<open>\<open>operator*\<close>: at the end, \<^verbatim>\<open>map_\<close> is a null pointer. The code does not look at what \<open>read_record\<close>
  returns; where there is no record, key and value are the empty views they were initialised to.\<close>

definition it_deref :: "nat \<Rightarrow> hash_map \<Rightarrow> const_iterator \<Rightarrow> (bytes \<times> bytes) result" where
  "it_deref bs hm it =
     (if \<not> it_map it then Inl Bad_access
      else
        bind_r (read_record bs (hm_container hm) (it_bucket_id it) (it_byte_offset it)) (\<lambda>r.
        case r of None \<Rightarrow> Inr ([], []) | Some (rv, _) \<Rightarrow> Inr (rv_key rv, rv_value rv)))"

definition it_next :: "nat \<Rightarrow> hash_map \<Rightarrow> const_iterator \<Rightarrow> const_iterator result option" where
  "it_next bs hm it =
     (if \<not> it_map it then Some (Inl Bad_access)
      else
        bind_o (Some (read_record bs (hm_container hm) (it_bucket_id it) (it_byte_offset it))) (\<lambda>r.
        find_next_record bs hm (case r of None \<Rightarrow> it | Some (_, off) \<Rightarrow> it\<lparr>it_byte_offset := off\<rparr>)))"

definition it_eq :: "const_iterator \<Rightarrow> const_iterator \<Rightarrow> bool" where
  "it_eq a b =
     (if \<not> it_map a \<and> \<not> it_map b then True
      else if \<not> it_map a \<or> \<not> it_map b then False
      else it_catalogue_index a = it_catalogue_index b \<and> it_bucket_id a = it_bucket_id b
           \<and> it_byte_offset a = it_byte_offset b)"

text \<open>A loop over the map from \<open>it\<close> to \<open>end()\<close>, collecting what it sees.\<close>

partial_function (option) it_collect ::
  "nat \<Rightarrow> hash_map \<Rightarrow> const_iterator \<Rightarrow> (bytes \<times> bytes) list \<Rightarrow> (bytes \<times> bytes) list result option" where
  "it_collect bs hm it acc =
     (if it_eq it hm_end then Some (Inr acc)
      else case it_deref bs hm it of
        Inl e \<Rightarrow> Some (Inl e)
      | Inr x \<Rightarrow>
          (case it_next bs hm it of
             None \<Rightarrow> None
           | Some r \<Rightarrow>
               (case r of
                  Inl e \<Rightarrow> Some (Inl e)
                | Inr it \<Rightarrow> it_collect bs hm it (acc @ [x]))))"

end
