(* ===== verification/Kv_Store.thy ===== *)
theory Kv_Store
  imports Container
begin

text \<open>
  What the clients of the hash map (the sharded map of the server, the Python module, the typed
  wrapper) rely on, as contracts: \<open>kv_store\<close> for lookup, insertion and removal against a map from
  hashes and keys to values, \<open>keyed_store\<close> for a client that derives the hash from the key, and
  \<open>iterable_store\<close> for a client that also lists the contents. The lemmas of the locales are what the
  clients use; \<open>Hash_Map_Refinement\<close> and \<open>Hash_Map_Iterator\<close> interpret them on the hash map.
\<close>

type_synonym contents = "hash_t \<times> bytes \<Rightarrow> bytes option"
type_synonym key_contents = "bytes \<Rightarrow> bytes option"

locale kv_store =
  fixes repr :: "'s \<Rightarrow> contents \<Rightarrow> bool"
    and writes :: "'s \<Rightarrow> bool"
    and room :: "'s \<Rightarrow> bytes \<Rightarrow> bytes \<Rightarrow> bool"
    and view :: "'s \<Rightarrow> string_view \<Rightarrow> bytes result"
    and find :: "'s \<Rightarrow> hash_t \<Rightarrow> bytes \<Rightarrow> string_view option result option"
    and get :: "'s \<Rightarrow> hash_t \<Rightarrow> bytes \<Rightarrow> bytes \<Rightarrow> ('s \<times> string_view option) result option"
    and remove :: "'s \<Rightarrow> hash_t \<Rightarrow> bytes \<Rightarrow> ('s \<times> bool) result option"
  assumes find_absent: "repr s m \<Longrightarrow> m (h, k) = None \<Longrightarrow> find s h k = Some (Inr None)"
    and find_present: "repr s m \<Longrightarrow> m (h, k) = Some v \<Longrightarrow> \<exists>sv. find s h k = Some (Inr (Some sv)) \<and> view s sv = Inr v"
    and get_present: "repr s m \<Longrightarrow> m (h, k) = Some v \<Longrightarrow> \<exists>sv. get s h k d = Some (Inr (s, Some sv)) \<and> view s sv = Inr v"
    and get_absent: "repr s m \<Longrightarrow> writes s \<Longrightarrow> room s k d \<Longrightarrow> m (h, k) = None \<Longrightarrow>
      \<exists>s' sv. get s h k d = Some (Inr (s', Some sv)) \<and> view s' sv = Inr d \<and> repr s' (m((h, k) \<mapsto> d)) \<and> writes s'"
    and remove_any: "repr s m \<Longrightarrow> writes s \<Longrightarrow>
      \<exists>s'. remove s h k = Some (Inr (s', m (h, k) \<noteq> None)) \<and> repr s' (m((h, k) := None)) \<and> writes s'"
begin

text \<open>A store holds one map only.\<close>

lemma repr_unique: "repr s m \<Longrightarrow> repr s m' \<Longrightarrow> m = m'"
proof (rule ext, clarify)
  fix h k assume r: "repr s m" "repr s m'"
  show "m (h, k) = m' (h, k)"
  proof (cases "m (h, k)")
    case None
    with find_absent [OF r(1)] find_present [OF r(2), of h k] show ?thesis by (cases "m' (h, k)") auto
  next
    case (Some v)
    with find_present [OF r(1)] find_present [OF r(2), of h k] find_absent [OF r(2), of h k] show ?thesis
      by (cases "m' (h, k)") fastforce+
  qed
qed

end

text \<open>A client that always uses the hash \<open>H k\<close> for the key \<open>k\<close> sees a map from keys to values.\<close>

locale keyed_store = kv_store +
  fixes H :: "bytes \<Rightarrow> hash_t"
    and holds :: "'s \<Rightarrow> key_contents \<Rightarrow> bool"
  assumes holds_iff: "holds s mk \<longleftrightarrow> repr s (\<lambda>(h, k). if h = H k then mk k else None)"
begin

lemma key_find_absent: "holds s mk \<Longrightarrow> mk k = None \<Longrightarrow> find s (H k) k = Some (Inr None)"
  using find_absent [of s "\<lambda>(h, k). if h = H k then mk k else None" "H k" k] by (simp add: holds_iff)

lemma key_find_present:
  assumes "holds s mk" and "mk k = Some v"
  obtains sv where "find s (H k) k = Some (Inr (Some sv))" and "view s sv = Inr v"
  using find_present [OF assms(1) [unfolded holds_iff], of "H k" k v] assms(2) by auto

lemma key_put:
  assumes "holds s mk" and "writes s" and "room s k v" and "mk k = None"
  obtains s' sv where "find s (H k) k = Some (Inr None)" and "get s (H k) k v = Some (Inr (s', Some sv))"
    and "view s' sv = Inr v" and "holds s' (mk(k \<mapsto> v))" and "writes s'"
proof -
  have upd: "(\<lambda>(h, k'). if h = H k' then mk k' else None)((H k, k) \<mapsto> v) = (\<lambda>(h, k'). if h = H k' then (mk(k \<mapsto> v)) k' else None)"
    by (auto simp: fun_eq_iff)
  from get_absent [OF assms(1) [unfolded holds_iff] assms(2,3), of "H k"] assms(4) obtain s' sv where
    "get s (H k) k v = Some (Inr (s', Some sv))" "view s' sv = Inr v" "holds s' (mk(k \<mapsto> v))" "writes s'"
    unfolding upd holds_iff by auto
  with key_find_absent [OF assms(1,4)] show ?thesis by (rule that)
qed

lemma key_remove:
  assumes "holds s mk" and "writes s"
  obtains s' where "remove s (H k) k = Some (Inr (s', mk k \<noteq> None))" and "holds s' (mk(k := None))" and "writes s'"
proof -
  have upd: "(\<lambda>(h, k'). if h = H k' then mk k' else None)((H k, k) := None) = (\<lambda>(h, k'). if h = H k' then (mk(k := None)) k' else None)"
    by (auto simp: fun_eq_iff)
  from remove_any [OF assms(1) [unfolded holds_iff] assms(2), of "H k" k] show ?thesis
    unfolding upd using that by (auto simp: holds_iff)
qed

end

text \<open>A store that can be listed gives each pair once.\<close>

locale iterable_store = keyed_store +
  fixes listing :: "'s \<Rightarrow> (bytes \<times> bytes) list result option"
  assumes lists: "repr s m \<Longrightarrow> \<exists>ys. listing s = Some (Inr (map (\<lambda>((h, k), v). (k, v)) ys))
    \<and> distinct (map fst ys) \<and> (\<forall>hk v. (hk, v) \<in> set ys \<longleftrightarrow> m hk = Some v)"
begin

lemma key_lists:
  assumes "holds s mk"
  obtains xs where "listing s = Some (Inr xs)" and "distinct (map fst xs)" and "\<forall>k v. (k, v) \<in> set xs \<longleftrightarrow> mk k = Some v"
proof -
  let ?m = "\<lambda>(h, k). if h = H k then mk k else None" and ?f = "\<lambda>((h, k), v). (k, v)"
  from lists [OF assms [unfolded holds_iff]] obtain ys where
    ys: "listing s = Some (Inr (map ?f ys))" "distinct (map fst ys)" "\<And>hk v. (hk, v) \<in> set ys \<longleftrightarrow> ?m hk = Some v" by blast
  have h: "fst (fst y) = H (snd (fst y))" if "y \<in> set ys" for y
    using ys(3) [of "fst y" "snd y"] that by (auto split: if_splits prod.splits)
  have "inj_on (snd \<circ> fst) (set ys)"
  proof (rule inj_onI)
    fix y z assume yz: "y \<in> set ys" "z \<in> set ys" "(snd \<circ> fst) y = (snd \<circ> fst) z"
    then have "fst y = fst z" using h by (metis comp_apply prod_eqI)
    then show "y = z" using yz(1,2) ys(2) by (metis (no_types, lifting) eq_key_imp_eq_value prod.collapse)
  qed
  moreover have "distinct ys" using ys(2) by (simp add: distinct_map)
  moreover have "map fst (map ?f ys) = map (snd \<circ> fst) ys" by auto
  ultimately have "distinct (map fst (map ?f ys))" by (simp only: distinct_map)
  moreover have "(k, v) \<in> set (map ?f ys) \<longleftrightarrow> mk k = Some v" for k v
    using ys(3) by (force split: if_splits)
  ultimately show ?thesis using ys(1) that by blast
qed

end

end
