(* ===== verification/Fnv.thy ===== *)
theory Fnv
  imports Prelude
begin

text \<open>
  The 32-bit FNV-1a hash of \<^verbatim>\<open>src/src/fnv.h\<close>, as a left fold over the bytes of the key with
  wrap-around multiplication.
\<close>

definition fnv1a_step :: "hash_t \<Rightarrow> byte \<Rightarrow> hash_t" where
  "fnv1a_step h c = (h XOR ucast c) * 16777619"

fun fnv1a_loop :: "hash_t \<Rightarrow> bytes \<Rightarrow> hash_t" where
  "fnv1a_loop h [] = h"
| "fnv1a_loop h (c # sv) = fnv1a_loop (fnv1a_step h c) sv"

definition fnv1a :: "bytes \<Rightarrow> hash_t" where
  "fnv1a sv = fnv1a_loop 2166136261 sv"

lemma fnv1a_loop_append: "fnv1a_loop h (xs @ ys) = fnv1a_loop (fnv1a_loop h xs) ys"
  by (induction xs arbitrary: h) auto

text \<open>The FNV prime is odd, so a multiplication by it can be undone.\<close>

lemma fnv1a_step_inverse: "(899433627 :: hash_t) * fnv1a_step h c = h XOR ucast c"
proof -
  have "(899433627 :: hash_t) * 16777619 = 1" by simp
  then have "(899433627 :: hash_t) * (16777619 * x) = x" for x by (simp only: mult_1_left flip: mult.assoc)
  then show ?thesis by (simp add: fnv1a_step_def mult.commute)
qed

lemma fnv1a_step_inject: "fnv1a_step h c = fnv1a_step h' c \<longleftrightarrow> h = h'"
proof
  assume "fnv1a_step h c = fnv1a_step h' c"
  then have "h XOR ucast c = h' XOR ucast c" using fnv1a_step_inverse by metis
  then show "h = h'" by (metis (no_types, lifting) xor.assoc xor_self_eq xor.right_neutral)
qed simp

lemma fnv1a_loop_inject: "fnv1a_loop h ys = fnv1a_loop h' ys \<longleftrightarrow> h = h'"
  by (induction ys arbitrary: h h') (auto simp: fnv1a_step_inject)

text \<open>Keys that differ in one byte never collide: the hash tells them apart whatever comes before
  and behind that byte.\<close>

theorem fnv1a_single_byte:
  "fnv1a (xs @ [a] @ ys) = fnv1a (xs @ [b] @ ys) \<longleftrightarrow> a = b"
proof
  assume "fnv1a (xs @ [a] @ ys) = fnv1a (xs @ [b] @ ys)"
  then have "fnv1a_step (fnv1a xs) a = fnv1a_step (fnv1a xs) b"
    by (simp add: fnv1a_def fnv1a_loop_append fnv1a_loop_inject)
  then have "fnv1a xs XOR ucast a = fnv1a xs XOR ucast b" using fnv1a_step_inverse by metis
  then have "(ucast a :: hash_t) = ucast b" by (metis (no_types, lifting) xor.assoc xor_self_eq xor.left_neutral)
  then have "ucast (ucast a :: hash_t) = (ucast (ucast b :: hash_t) :: byte)" by simp
  then show "a = b" by (simp add: unsigned_ucast_eq take_bit_word_eq_self)
qed simp

end
