(* ===== verification/Hash_Map_Refinement.thy ===== *)
theory Hash_Map_Refinement
  imports Hash_Map Kv_Store Fnv
begin

text \<open>
  The hash map implements a finite map from pairs of a hash and a key to values. The catalogue is a
  directory of extensible hashing: the entries of a chain are the block of all prefixes that agree in
  the chain's own number of bits (\<open>dir_ok\<close>), every record is in the chain its hash selects, and
  no pair of hash and key is stored twice (\<open>hm_inv\<close>).
\<close>

section \<open>The directory\<close>

definition dir_ok :: "nat \<Rightarrow> (nat \<Rightarrow> nat) \<Rightarrow> (nat \<Rightarrow> nat) \<Rightarrow> bool" where
  "dir_ok n buf d \<longleftrightarrow> (\<forall>i < 2 ^ n. 1 \<le> d (buf i) \<and> d (buf i) \<le> n
     \<and> (\<forall>j < 2 ^ n. buf j = buf i \<longleftrightarrow> j div 2 ^ (n - d (buf i)) = i div 2 ^ (n - d (buf i))))"

lemma dir_okD:
  assumes "dir_ok n buf d" and "i < 2 ^ n"
  shows "1 \<le> d (buf i)" "d (buf i) \<le> n"
    "\<And>j. j < 2 ^ n \<Longrightarrow> buf j = buf i \<longleftrightarrow> j div 2 ^ (n - d (buf i)) = i div 2 ^ (n - d (buf i))"
  using assms unfolding dir_ok_def by blast+

lemma div_pow_Suc: "i div 2 ^ Suc m = i div 2 ^ m div (2 :: nat)"
  by (simp add: div_mult2_eq power_Suc2 del: power_Suc)

lemma half_less: "i < 2 ^ Suc n \<Longrightarrow> i div 2 < (2 :: nat) ^ n"
  by simp

lemma dir_double:
  assumes D: "dir_ok n buf d" and buf': "\<forall>i < 2 ^ Suc n. buf' i = buf (i div 2)"
  shows "dir_ok (Suc n) buf' d" and "buf' ` {..<2 ^ Suc n} = buf ` {..<2 ^ n}"
proof -
  have shift: "i div 2 div 2 ^ (n - e) = i div 2 ^ (Suc n - e)" if "e \<le> n" for i e :: nat
    using that by (simp add: Suc_diff_le div_mult2_eq)
  show "dir_ok (Suc n) buf' d"
    unfolding dir_ok_def
  proof (intro allI impI)
    fix i :: nat assume i: "i < 2 ^ Suc n"
    note k = dir_okD [OF D half_less [OF i]]
    have "buf' j = buf' i \<longleftrightarrow> j div 2 ^ (Suc n - d (buf' i)) = i div 2 ^ (Suc n - d (buf' i))" if "j < 2 ^ Suc n" for j
      using k(3) [OF half_less [OF that]] buf' i that shift [OF k(2)] by simp
    then show "1 \<le> d (buf' i) \<and> d (buf' i) \<le> Suc n \<and> (\<forall>j < 2 ^ Suc n. buf' j = buf' i \<longleftrightarrow>
        j div 2 ^ (Suc n - d (buf' i)) = i div 2 ^ (Suc n - d (buf' i)))"
      using k(1,2) buf' i by auto
  qed
  show "buf' ` {..<2 ^ Suc n} = buf ` {..<2 ^ n}"
  proof
    show "buf' ` {..<2 ^ Suc n} \<subseteq> buf ` {..<2 ^ n}" using buf' half_less by auto
    show "buf ` {..<2 ^ n} \<subseteq> buf' ` {..<2 ^ Suc n}"
    proof
      fix x assume "x \<in> buf ` {..<2 ^ n}"
      then obtain i where i: "i < 2 ^ n" "x = buf i" by auto
      then have "2 * i < 2 ^ Suc n" "buf' (2 * i) = x" using buf' by auto
      then show "x \<in> buf' ` {..<2 ^ Suc n}" by force
    qed
  qed
qed

text \<open>Splitting the chain \<open>p\<close>: the upper half of its block of entries goes to \<open>p1\<close>.\<close>

lemma dir_split:
  assumes D: "dir_ok n buf d" and i: "i < 2 ^ n" and p: "p = buf i" and e: "e = d p" "e < n"
    and p1: "p1 \<notin> buf ` {..<2 ^ n}" and b: "b = i div 2 ^ (n - e)"
    and buf': "buf' = (\<lambda>j. if j div 2 ^ (n - Suc e) = 2 * b + 1 then p1 else buf j)"
    and d': "d' p = Suc e" "d' p1 = Suc e" "\<forall>q \<in> buf ` {..<2 ^ n} - {p}. d' q = d q"
  shows "dir_ok n buf' d'" and "buf' ` {..<2 ^ n} = insert p1 (buf ` {..<2 ^ n})"
proof -
  define m where "m = n - Suc e"
  have m: "n - e = Suc m" "n - Suc e = m" "n = Suc e + m" using e(2) by (auto simp: m_def)
  have block: "buf j = p \<longleftrightarrow> j div 2 ^ m = 2 * b \<or> j div 2 ^ m = 2 * b + 1" if "j < 2 ^ n" for j
  proof -
    have "buf j = p \<longleftrightarrow> j div 2 ^ Suc m = b" using dir_okD(3) [OF D i that] p e(1) b m(1) by simp
    then show ?thesis unfolding div_pow_Suc by auto
  qed
  have p1': "buf j \<noteq> p1" if "j < 2 ^ n" for j using p1 that by auto
  have buf_eq: "buf' j = (if j div 2 ^ m = 2 * b + 1 then p1 else buf j)" for j using buf' m(2) by simp
  have is_p1: "buf' j = p1 \<longleftrightarrow> j div 2 ^ m = 2 * b + 1" if "j < 2 ^ n" for j using p1' [OF that] by (simp add: buf_eq)
  have is_p: "buf' j = p \<longleftrightarrow> j div 2 ^ m = 2 * b" if "j < 2 ^ n" for j
    using block [OF that] p1' [OF i] p by (auto simp: buf_eq)
  have other: "buf' j = q \<longleftrightarrow> buf j = q" if "j < 2 ^ n" "q \<noteq> p" "q \<noteq> p1" for j q
    using block [OF that(1)] that(2,3) by (auto simp: buf_eq)
  show "dir_ok n buf' d'"
    unfolding dir_ok_def
  proof (intro allI impI)
    fix k :: nat assume k: "k < 2 ^ n"
    consider "buf' k = p1" | "buf' k = p" "p \<noteq> p1" | "buf' k \<noteq> p" "buf' k \<noteq> p1" by blast
    then show "1 \<le> d' (buf' k) \<and> d' (buf' k) \<le> n
        \<and> (\<forall>j < 2 ^ n. buf' j = buf' k \<longleftrightarrow> j div 2 ^ (n - d' (buf' k)) = k div 2 ^ (n - d' (buf' k)))"
    proof cases
      case 1
      then have "k div 2 ^ m = 2 * b + 1" using is_p1 [OF k] by simp
      then show ?thesis unfolding 1 d'(2) m(2) using is_p1 e(2) by simp
    next
      case 2
      then have "k div 2 ^ m = 2 * b" using is_p [OF k] by simp
      then show ?thesis unfolding 2(1) d'(1) m(2) using is_p e(2) by simp
    next
      case 3
      then have bk: "buf' k = buf k" by (auto simp: buf_eq split: if_splits)
      then have "d' (buf k) = d (buf k)" using d'(3) 3 k by auto
      then show ?thesis using dir_okD [OF D k] other 3 bk by auto
    qed
  qed
  show "buf' ` {..<2 ^ n} = insert p1 (buf ` {..<2 ^ n})"
  proof
    show "buf' ` {..<2 ^ n} \<subseteq> insert p1 (buf ` {..<2 ^ n})" by (auto simp: buf_eq)
    have "i div 2 ^ Suc m < 2 ^ e" using i m(3) by (intro less_mult_imp_div_less) (simp add: power_add ac_simps)
    then have "2 * b + 2 \<le> 2 * 2 ^ e" using b m(1) by simp
    then have "(2 * b + 2) * 2 ^ m \<le> 2 * 2 ^ e * 2 ^ m" by (rule mult_le_mono1)
    also have "\<dots> = 2 ^ n" by (simp add: m(3) power_add)
    finally have le: "2 * b * 2 ^ m + 2 * 2 ^ m \<le> 2 ^ n" by (simp add: algebra_simps)
    have pos: "(0 :: nat) < 2 ^ m" by simp
    have "(2 * b + 1) * 2 ^ m < 2 ^ n" "2 * b * 2 ^ m < 2 ^ n" using le pos unfolding add_mult_distrib by linarith+
    then have "buf' ((2 * b + 1) * 2 ^ m) = p1" "buf' (2 * b * 2 ^ m) = p" using is_p1 is_p by simp_all
    then have "p1 \<in> buf' ` {..<2 ^ n}" "p \<in> buf' ` {..<2 ^ n}"
      using \<open>(2 * b + 1) * 2 ^ m < 2 ^ n\<close> \<open>2 * b * 2 ^ m < 2 ^ n\<close> by (metis imageI lessThan_iff)+
    moreover have "buf j \<in> buf' ` {..<2 ^ n}" if "j < 2 ^ n" "buf j \<noteq> p" for j
      using that other p1' [OF that(1)] by (metis imageI lessThan_iff)
    ultimately show "insert p1 (buf ` {..<2 ^ n}) \<subseteq> buf' ` {..<2 ^ n}" by auto
  qed
qed

section \<open>Invariant and abstraction\<close>

abbreviation hm_bits :: "hash_map \<Rightarrow> nat" where
  "hm_bits hm \<equiv> cat_prefix_bits (hm_catalogue hm)"

definition hm_heads :: "hash_map \<Rightarrow> nat set" where
  "hm_heads hm = cat_buffer (hm_catalogue hm) ` {..<2 ^ hm_bits hm}"

text \<open>The chain a hash selects.\<close>

definition hm_head :: "hash_map \<Rightarrow> hash_t \<Rightarrow> nat" where
  "hm_head hm h = cat_buffer (hm_catalogue hm) (prefix_of (hm_bits hm) h)"

definition hm_depth :: "hash_map \<Rightarrow> nat \<Rightarrow> nat" where
  "hm_depth hm p = b_prefix_bits (c_buckets (hm_container hm) p)"

definition hm_inv :: "nat \<Rightarrow> hash_map \<Rightarrow> (nat \<Rightarrow> record_view list) \<Rightarrow> bool" where
  "hm_inv bs hm recs \<longleftrightarrow> cat_inv (hm_catalogue hm)
     \<and> dir_ok (hm_bits hm) (cat_buffer (hm_catalogue hm)) (hm_depth hm)
     \<and> store bs (hm_container hm) (hm_heads hm) recs
     \<and> (\<forall>p \<in> hm_heads hm. \<forall>r \<in> set (recs p). hm_head hm (rv_hash r) = p)
     \<and> (\<forall>p \<in> hm_heads hm. distinct (map (fst \<circ> kv) (recs p)))
     \<and> (hm_bits hm = 1 \<or> 2 ^ (hm_bits hm - 1) < c_count (hm_container hm))"

definition hm_rw :: "hash_map \<Rightarrow> bool" where
  "hm_rw hm \<longleftrightarrow> cont_rw (hm_container hm) \<and> \<not> fm_read_only (cat_file_map (hm_catalogue hm))"

definition hm_abs :: "hash_map \<Rightarrow> (nat \<Rightarrow> record_view list) \<Rightarrow> contents" where
  "hm_abs hm recs = (\<lambda>(h, k). lookup (recs (hm_head hm h)) h k)"

definition hm_repr :: "nat \<Rightarrow> hash_map \<Rightarrow> contents \<Rightarrow> bool" where
  "hm_repr bs hm m \<longleftrightarrow> (\<exists>recs. hm_inv bs hm recs \<and> m = hm_abs hm recs)"

lemma hm_invD:
  assumes "hm_inv bs hm recs"
  shows "cat_inv (hm_catalogue hm)" "dir_ok (hm_bits hm) (cat_buffer (hm_catalogue hm)) (hm_depth hm)"
    "store bs (hm_container hm) (hm_heads hm) recs"
    "\<And>p r. p \<in> hm_heads hm \<Longrightarrow> r \<in> set (recs p) \<Longrightarrow> hm_head hm (rv_hash r) = p"
    "\<And>p. p \<in> hm_heads hm \<Longrightarrow> distinct (map (fst \<circ> kv) (recs p))"
    "hm_bits hm = 1 \<or> 2 ^ (hm_bits hm - 1) < c_count (hm_container hm)"
    "1 \<le> hm_bits hm" "hm_bits hm \<le> 32"
    "\<And>h. cat_find (hm_catalogue hm) h = Inr (hm_head hm h)" "\<And>h. hm_head hm h \<in> hm_heads hm"
proof -
  show 1: "cat_inv (hm_catalogue hm)" "dir_ok (hm_bits hm) (cat_buffer (hm_catalogue hm)) (hm_depth hm)"
    "store bs (hm_container hm) (hm_heads hm) recs"
    "\<And>p r. p \<in> hm_heads hm \<Longrightarrow> r \<in> set (recs p) \<Longrightarrow> hm_head hm (rv_hash r) = p"
    "\<And>p. p \<in> hm_heads hm \<Longrightarrow> distinct (map (fst \<circ> kv) (recs p))"
    "hm_bits hm = 1 \<or> 2 ^ (hm_bits hm - 1) < c_count (hm_container hm)"
    using assms unfolding hm_inv_def by blast+
  show 2: "1 \<le> hm_bits hm" "hm_bits hm \<le> 32" using 1(1) by (auto simp: cat_inv_def)
  show "cat_find (hm_catalogue hm) h = Inr (hm_head hm h)" for h by (simp add: cat_find_eq [OF 1(1)] hm_head_def)
  show "hm_head hm h \<in> hm_heads hm" for h unfolding hm_head_def hm_heads_def using prefix_of_less [OF 2(2)] by blast
qed

section \<open>Looking up and removing\<close>

lemma hm_find_spec:
  assumes "hm_repr bs hm m"
  shows "\<exists>res. hm_find bs hm h k = Some (Inr res) \<and> shown bs (hm_container hm) (m (h, k)) res"
proof -
  from assms obtain recs where I: "hm_inv bs hm recs" and m: "m = hm_abs hm recs" unfolding hm_repr_def by blast
  note i = hm_invD [OF I]
  from store_find [OF i(3) i(10) [of h], of h k] show ?thesis by (simp add: hm_find_def i(9) m hm_abs_def)
qed

text \<open>A change to the records of one chain is a change of the map at the hashes it serves.\<close>

lemma hm_abs_update:
  assumes "hm_head hm' = hm_head hm" and "\<And>h k. hm_head hm h = p \<Longrightarrow> lookup rs' h k = m' (h, k)"
    and "\<And>h k. hm_head hm h \<noteq> p \<Longrightarrow> hm_abs hm recs (h, k) = m' (h, k)"
  shows "hm_abs hm' (recs(p := rs')) = m'"
  using assms by (auto simp: hm_abs_def fun_eq_iff)

text \<open>An operation on one chain that leaves the directory alone.\<close>

lemma hm_inv_update:
  assumes I: "hm_inv bs hm recs" and S: "store bs c' (hm_heads hm) (recs(p := rs'))" and cnt: "c_count (hm_container hm) \<le> c_count c'"
    and pb: "\<forall>q \<in> hm_heads hm. b_prefix_bits (c_buckets c' q) = b_prefix_bits (c_buckets (hm_container hm) q)"
    and p: "p \<in> hm_heads hm" and route: "\<forall>r \<in> set rs'. hm_head hm (rv_hash r) = p" and dist: "distinct (map (fst \<circ> kv) rs')"
  shows "hm_inv bs (hm\<lparr>hm_container := c'\<rparr>) (recs(p := rs'))"
proof -
  note i = hm_invD [OF I]
  let ?hm = "hm\<lparr>hm_container := c'\<rparr>"
  have heads: "hm_heads ?hm = hm_heads hm" "hm_head ?hm = hm_head hm" by (simp_all add: hm_heads_def hm_head_def fun_eq_iff)
  have "hm_depth ?hm (cat_buffer (hm_catalogue hm) j) = hm_depth hm (cat_buffer (hm_catalogue hm) j)" if "j < 2 ^ hm_bits hm" for j
    using pb that by (auto simp: hm_heads_def hm_depth_def)
  then have "dir_ok (hm_bits hm) (cat_buffer (hm_catalogue hm)) (hm_depth ?hm)" using i(2) by (simp add: dir_ok_def)
  then show ?thesis using i(1,4-6) S route dist cnt unfolding hm_inv_def heads by auto
qed

lemma hm_remove_spec:
  assumes R: "hm_repr bs hm m" and rw: "hm_rw hm"
  shows "\<exists>hm'. hm_remove bs hm h k = Some (Inr (hm', m (h, k) \<noteq> None)) \<and> hm_repr bs hm' (m((h, k) := None)) \<and> hm_rw hm'
    \<and> c_count (hm_container hm') = c_count (hm_container hm)"
proof -
  from R obtain recs where I: "hm_inv bs hm recs" and m: "m = hm_abs hm recs" unfolding hm_repr_def by blast
  note i = hm_invD [OF I]
  let ?p = "hm_head hm h" and ?c = "hm_container hm"
  have crw: "cont_rw ?c" using rw by (simp add: hm_rw_def)
  have mk: "m (h, k) = lookup (recs ?p) h k" by (simp add: m hm_abs_def)
  show ?thesis
  proof (cases "lookup (recs ?p) h k")
    case None
    then have "hm_remove bs hm h k = Some (Inr (hm, False))"
      using store_remove(1) [OF i(3) i(10) crw None] by (simp add: hm_remove_def i(9))
    moreover have "m((h, k) := None) = m" using mk None by auto
    ultimately show ?thesis using R rw mk None by auto
  next
    case (Some v)
    then have "lookup (recs ?p) h k \<noteq> None" by simp
    from store_remove(2) [OF i(3) i(10) crw this] obtain c' xs r ys where
      rem: "remove_record bs ?c ?p h k = Some (Inr (c', True))" and rp: "recs ?p = xs @ r # ys" and mt: "matches h k r"
      and S: "store bs c' (hm_heads hm) (recs(?p := xs @ ys))" and rw': "cont_rw c'" and cnt: "c_count c' = c_count ?c"
      and pb: "\<forall>q \<in> hm_heads hm. b_prefix_bits (c_buckets c' q) = b_prefix_bits (c_buckets ?c q)" by blast
    let ?hm = "hm\<lparr>hm_container := c'\<rparr>"
    have route: "\<forall>r \<in> set (xs @ ys). hm_head hm (rv_hash r) = ?p" using i(4) [OF i(10) [of h]] rp by auto
    have dist: "distinct (map (fst \<circ> kv) (xs @ r # ys))" using i(5) [OF i(10) [of h]] rp by simp
    then have "distinct (map (fst \<circ> kv) (xs @ ys))" by auto
    from hm_inv_update [OF I S _ pb i(10) route this] cnt have I': "hm_inv bs ?hm (recs(?p := xs @ ys))" by simp
    have hk: "(h, k) = (rv_hash r, rv_key r)" using mt by (simp add: matches_def)
    have "hm_abs ?hm (recs(?p := xs @ ys)) = m((h, k) := None)"
    proof (rule hm_abs_update)
      show "hm_head ?hm = hm_head hm" by (simp add: hm_head_def fun_eq_iff)
      show "lookup (xs @ ys) h' k' = (m((h, k) := None)) (h', k')" if "hm_head hm h' = ?p" for h' k'
        using lookup_delete [OF dist, of h' k'] hk that rp by (simp add: m hm_abs_def)
      show "hm_abs hm recs (h', k') = (m((h, k) := None)) (h', k')" if "hm_head hm h' \<noteq> ?p" for h' k'
        using that by (auto simp: m)
    qed
    with I' have "hm_repr bs ?hm (m((h, k) := None))" unfolding hm_repr_def by metis
    moreover have "hm_remove bs hm h k = Some (Inr (?hm, True))" using rem by (simp add: hm_remove_def i(9))
    ultimately show ?thesis using rw rw' cnt mk Some by (auto simp: hm_rw_def)
  qed
qed

section \<open>Making room\<close>

text \<open>The catalogue is doubled only when there are more buckets than entries, so it never needs more
  memory than the buckets do, and never goes beyond 32 bits of prefix while there are at most
  \<open>2 ^ 32\<close> buckets.\<close>

definition hm_capacity :: "os_env \<Rightarrow> nat \<Rightarrow> hash_map \<Rightarrow> bool" where
  "hm_capacity os bs hm \<longleftrightarrow> capacity os bs (2 * c_count (hm_container hm)) \<and> c_count (hm_container hm) \<le> 2 ^ 32"

lemma hm_capacity_catalogue:
  assumes "hm_capacity os bs hm" and "2 ^ n < c_count (hm_container hm)"
  shows "n < 32" and "cat_header_size + 8 * 2 ^ Suc n < os_limit os"
proof -
  let ?c = "c_count (hm_container hm)"
  have "(2 :: nat) ^ n < 2 ^ 32" using assms by (simp add: hm_capacity_def)
  then show "n < 32" by (rule power_less_imp_less_exp [rotated]) simp
  have "8 * 2 ^ Suc n < 16 * ?c" using assms(2) by simp
  moreover have "2 * ?c + 1 < bucket_off bs (2 * ?c + 1)" by (rule less_bucket_off)
  moreover have "bucket_off bs (2 * ?c + 1) * 11 < os_limit os" using assms(1) by (simp add: hm_capacity_def capacity_def)
  moreover have "20 \<le> bucket_off bs (2 * ?c + 1)" by (simp add: bucket_off_def cont_header_size_def)
  ultimately show "cat_header_size + 8 * 2 ^ Suc n < os_limit os" unfolding cat_header_size_def by linarith
qed

lemma hm_grow_spec:
  assumes I: "hm_inv bs hm recs" and rw: "hm_rw hm" and os: "os_serves os" "hm_capacity os bs hm" and p: "p \<in> hm_heads hm"
  shows "\<exists>hm'. hm_grow os bs hm p = Inr hm' \<and> hm_inv bs hm' recs \<and> hm_rw hm' \<and> hm_head hm' = hm_head hm
    \<and> hm_heads hm' = hm_heads hm \<and> hm_container hm' = hm_container hm"
proof -
  let ?n = "hm_bits hm" and ?cat = "hm_catalogue hm" and ?c = "hm_container hm"
  note i = hm_invD [OF I]
  have bits: "bucket_prefix_bits bs ?c p = Inr (hm_depth hm p)"
    using store_get_bucket(1) [OF i(3) p] by (simp add: bucket_prefix_bits_def hm_depth_def)
  have entries: "shl64 1 ?n = Inr (push_bit ?n 1)" "unat (push_bit ?n 1 :: 64 word) = 2 ^ ?n"
    using i(8) unat_exp [of ?n, where 'a = 64] by (simp_all add: shl64_def del: push_bit_of_1)
  show ?thesis
  proof (cases "hm_depth hm p = ?n \<and> 2 ^ ?n < c_count ?c")
    case False
    then have "hm_grow os bs hm p = Inr hm"
      using bits entries by (auto simp: hm_grow_def Let_def buckets_count_def simp del: push_bit_of_1)
    with I rw show ?thesis by auto
  next
    case True
    note cap = hm_capacity_catalogue [OF os(2) conjunct2 [OF True]]
    have "\<not> fm_read_only (cat_file_map ?cat)" using rw by (simp add: hm_rw_def)
    from cat_split_eq [OF i(1) this cap(1) os(1) cap(2)] obtain cat' where
      sp: "cat_split os ?cat = Inr cat'" "cat_inv cat'" "\<not> fm_read_only (cat_file_map cat')" "cat_prefix_bits cat' = Suc ?n"
      and buf: "\<forall>j < 2 ^ Suc ?n. cat_buffer cat' j = cat_buffer ?cat (j div 2)" by blast
    let ?hm = "hm\<lparr>hm_catalogue := cat'\<rparr>"
    have "hm_grow os bs hm p = Inr ?hm"
      using bits entries True sp(1) by (simp add: hm_grow_def Let_def buckets_count_def del: push_bit_of_1)
    moreover have "hm_depth ?hm = hm_depth hm" by (simp add: hm_depth_def fun_eq_iff)
    with dir_double [OF i(2) buf] sp(4) have D: "dir_ok (hm_bits ?hm) (cat_buffer cat') (hm_depth ?hm)" and H: "hm_heads ?hm = hm_heads hm"
      by (simp_all add: hm_heads_def)
    have "prefix_of (Suc ?n) h < 2 ^ Suc ?n" "prefix_of (Suc ?n) h div 2 = prefix_of ?n h" for h
      using prefix_of_less [of "Suc ?n" h] prefix_of_shorter [of ?n "Suc ?n" h] cap(1) by simp_all
    then have hd: "hm_head ?hm = hm_head hm" using buf sp(4) by (simp add: hm_head_def fun_eq_iff)
    have "hm_inv bs ?hm recs"
      unfolding hm_inv_def hd H using D sp(2,4) i(3-5) True by simp
    ultimately show ?thesis using H hd rw sp(3) by (auto simp: hm_rw_def)
  qed
qed

text \<open>The catalogue after a split: the hashes of the old chain that have the new bit are moved.\<close>

lemma hm_head_split:
  assumes I: "hm_inv bs hm recs" and p: "p = hm_head hm h" and e: "e = hm_depth hm p" "e < hm_bits hm"
  shows "(if prefix_of (hm_bits hm) h' div 2 ^ (hm_bits hm - Suc e) = 2 * prefix_of e h + 1 then p1 else hm_head hm h') =
    (if hm_head hm h' = p \<and> bit h' (31 - e) then p1 else hm_head hm h')"
proof -
  let ?n = "hm_bits hm"
  note i = hm_invD [OF I]
  have n: "prefix_of ?n x < 2 ^ ?n" for x by (rule prefix_of_less [OF i(8)])
  have "hm_head hm h' = p \<longleftrightarrow> prefix_of ?n h' div 2 ^ (?n - e) = prefix_of ?n h div 2 ^ (?n - e)"
    using dir_okD(3) [OF i(2) n [of h] n [of h']] p e(1) by (simp add: hm_head_def)
  also have "\<dots> \<longleftrightarrow> prefix_of e h' = prefix_of e h"
    using prefix_of_shorter [of e ?n] e(2) i(8) by simp
  finally have "hm_head hm h' = p \<longleftrightarrow> prefix_of e h' = prefix_of e h" .
  moreover have "prefix_of ?n h' div 2 ^ (?n - Suc e) = 2 * prefix_of e h' + of_bool (bit h' (31 - e))"
    using prefix_of_shorter [of "Suc e" ?n h'] prefix_of_Suc [of e h'] e(2) i(8) by simp
  moreover have "2 * a + of_bool b = 2 * a' + 1 \<longleftrightarrow> a = a' \<and> b" for a a' :: nat and b
    by (cases b; simp; presburger)
  ultimately show ?thesis by simp
qed

lemma hm_split_spec:
  assumes I: "hm_inv bs hm recs" and rw: "hm_rw hm" and os: "os_serves os" "hm_capacity os bs hm"
    and p: "p = hm_head hm h" and e: "hm_depth hm p < hm_bits hm"
  shows "\<exists>c p1 hm' recs'. cont_split os bs (hm_container hm) p = Some (Inr (c, p1))
    \<and> hm_enter bs (hm\<lparr>hm_container := c\<rparr>) h p p1 = Inr (hm', hm_head hm' h) \<and> hm_inv bs hm' recs' \<and> hm_rw hm'
    \<and> hm_abs hm' recs' = hm_abs hm recs \<and> c_count (hm_container hm) \<le> c_count (hm_container hm')
    \<and> c_count (hm_container hm') \<le> 2 * c_count (hm_container hm)"
proof -
  let ?n = "hm_bits hm" and ?cat = "hm_catalogue hm" and ?c = "hm_container hm"
  define e where "e = hm_depth hm p"
  define new_bit :: hash_t where "new_bit = push_bit (31 - e) 1"
  note i = hm_invD [OF I]
  have e': "e < ?n" "e < 32" "1 \<le> Suc e" "Suc e \<le> ?n" using assms(6) i(8) by (simp_all add: e_def)
  have pH: "p \<in> hm_heads hm" using i(10) p by simp
  have crw: "cont_rw ?c" "\<not> fm_read_only (cat_file_map ?cat)" using rw by (simp_all add: hm_rw_def)
  have cap: "capacity os bs (2 * c_count ?c)" using os(2) by (simp add: hm_capacity_def)
  have bit: "x AND new_bit \<noteq> 0 \<longleftrightarrow> bit x (31 - e)" for x by (simp only: new_bit_def bit_iff_and_push_bit_not_eq_0)
  let ?f0 = "filter (\<lambda>r. rv_hash r AND new_bit = 0) (recs p)" and ?f1 = "filter (\<lambda>r. rv_hash r AND new_bit \<noteq> 0) (recs p)"
  have "b_prefix_bits (c_buckets ?c p) < HASH_BITS" "new_bit = push_bit (31 - b_prefix_bits (c_buckets ?c p)) 1"
    using e'(2) by (simp_all only: e_def hm_depth_def new_bit_def HASH_BITS_def)
  from store_split [OF i(3) pH crw(1) os(1) cap this] obtain c p1 where
    sp: "cont_split os bs ?c p = Some (Inr (c, p1))" and p1: "p1 \<notin> hm_heads hm"
    and S: "store bs c (insert p1 (hm_heads hm)) (recs(p := ?f0, p1 := ?f1))" and rw': "cont_rw c"
    and cnt: "c_count ?c \<le> c_count c" "c_count c \<le> 2 * c_count ?c"
    and d: "b_prefix_bits (c_buckets c p) = Suc e" "b_prefix_bits (c_buckets c p1) = Suc e"
      "\<forall>q \<in> hm_heads hm - {p}. b_prefix_bits (c_buckets c q) = hm_depth hm q"
    unfolding e_def hm_depth_def by auto
  define buf' where "buf' = (\<lambda>j. if j div 2 ^ (?n - Suc e) = 2 * prefix_of e h + 1 then p1 else cat_buffer ?cat j)"
  define hm' where "hm' = \<lparr>hm_catalogue = ?cat\<lparr>cat_buffer := buf'\<rparr>, hm_container = c\<rparr>"
  define recs' where "recs' = recs(p := ?f0, p1 := ?f1)"
  have pp1: "p \<noteq> p1" using pH p1 by auto
  have head': "hm_head hm' x = (if hm_head hm x = p \<and> bit x (31 - e) then p1 else hm_head hm x)" for x
  proof -
    have "hm_head hm' x = (if prefix_of ?n x div 2 ^ (?n - Suc e) = 2 * prefix_of e h + 1 then p1 else hm_head hm x)"
      by (simp add: hm'_def buf'_def hm_head_def)
    also note hm_head_split [OF I p e_def e'(1), of x p1]
    finally show ?thesis .
  qed
  have depth': "hm_depth hm' q = b_prefix_bits (c_buckets c q)" for q by (simp add: hm'_def hm_depth_def)
  have blk: "prefix_of e h = prefix_of ?n h div 2 ^ (?n - e)" using prefix_of_shorter [of e ?n h] e'(1) i(8) by simp
  have "cat_buffer ?cat (prefix_of ?n h) = p" by (simp add: p hm_head_def)
  note dirs = dir_split [OF i(2) prefix_of_less [OF i(8), of h] this [symmetric] e_def e'(1)
    p1 [unfolded hm_heads_def] blk buf'_def, of "hm_depth hm'"]
  have D: "dir_ok ?n buf' (hm_depth hm')" "buf' ` {..<2 ^ ?n} = insert p1 (hm_heads hm)"
    using dirs d unfolding depth' hm_heads_def by simp_all
  have heads': "hm_heads hm' = insert p1 (hm_heads hm)" using D(2) by (simp add: hm_heads_def hm'_def)
  have I': "hm_inv bs hm' recs'"
    unfolding hm_inv_def heads'
  proof (intro conjI ballI)
    show "cat_inv (hm_catalogue hm')" using i(1) by (simp add: hm'_def)
    show "dir_ok (hm_bits hm') (cat_buffer (hm_catalogue hm')) (hm_depth hm')" using D(1) by (simp add: hm'_def)
    show "store bs (hm_container hm') (insert p1 (hm_heads hm)) recs'" using S by (simp add: hm'_def recs'_def)
    show "hm_bits hm' = 1 \<or> 2 ^ (hm_bits hm' - 1) < c_count (hm_container hm')" using i(6) cnt(1) by (auto simp: hm'_def)
    fix q assume q: "q \<in> insert p1 (hm_heads hm)"
    show "distinct (map (fst \<circ> kv) (recs' q))"
      using q i(5) [OF pH] i(5) [of q] by (auto simp: recs'_def distinct_map_filter)
    fix r assume r: "r \<in> set (recs' q)"
    show "hm_head hm' (rv_hash r) = q"
    proof (cases "q = p \<or> q = p1")
      case True
      then have "r \<in> set (recs p)" "bit (rv_hash r) (31 - e) \<longleftrightarrow> q = p1"
        using r bit pp1 by (auto simp: recs'_def split: if_splits)
      then show ?thesis using head' i(4) [OF pH] True pp1 by auto
    next
      case False
      then have "hm_head hm (rv_hash r) = q" using q r i(4) [of q r] by (auto simp: recs'_def)
      then show ?thesis using head' False by simp
    qed
  qed
  have abs: "hm_abs hm' recs' = hm_abs hm recs"
  proof (rule ext, clarify)
    fix x k
    have "lookup ?f0 x k = lookup (recs p) x k" if "\<not> bit x (31 - e)"
      using lookup_filter [of "\<lambda>h. h AND new_bit = 0" x "recs p" k] that bit [of x] by auto
    moreover have "lookup ?f1 x k = lookup (recs p) x k" if "bit x (31 - e)"
      using lookup_filter [of "\<lambda>h. h AND new_bit \<noteq> 0" x "recs p" k] that bit [of x] by auto
    ultimately show "hm_abs hm' recs' (x, k) = hm_abs hm recs (x, k)"
      using head' [of x] pp1 p1 i(10) [of x] by (auto simp: hm_abs_def recs'_def)
  qed
  have get: "bucket_prefix_bits bs c p = Inr (Suc e)" "bucket_prefix_bits bs c p1 = Inr (Suc e)"
    using store_get_bucket(1) [OF S] pH d by (simp_all add: bucket_prefix_bits_def)
  have shl: "shl32 1 (sz_sub HASH_BITS (Suc e)) = Inr new_bit"
    using e'(2) by (simp add: shl32_def HASH_BITS_def new_bit_def del: push_bit_of_1)
  have set: "cat_set ?cat (h OR new_bit) (Suc e) p1 = Inr (?cat\<lparr>cat_buffer := buf'\<rparr>)"
    using cat_set_eq [OF i(1) crw(2) e'(3,4), of "h OR new_bit" p1] prefix_of_OR_bit [OF e'(2), of h]
    by (simp only: new_bit_def buf'_def)
  have fnd: "cat_find (?cat\<lparr>cat_buffer := buf'\<rparr>) h = Inr (hm_head hm' h)"
    using hm_invD(9) [OF I', of h] by (simp add: hm'_def)
  have hd: "(if h AND new_bit \<noteq> 0 then p1 else p) = hm_head hm' h" using head' [of h] p bit by simp
  have "hm_enter bs (hm\<lparr>hm_container := c\<rparr>) h p p1 = Inr (hm', hm_head hm' h)"
    by (simp add: hm_enter_def get shl set fnd Let_def hd [simplified] hm'_def)
  then show ?thesis using sp I' abs cnt rw rw' by (auto simp: hm'_def hm_rw_def)
qed

lemma hm_make_room_spec:
  assumes I: "hm_inv bs hm recs" and rw: "hm_rw hm" and os: "os_serves os" "hm_capacity os bs hm"
  shows "\<exists>hm' recs'. hm_make_room os bs hm h (hm_head hm h) = Some (Inr (hm', hm_head hm' h))
    \<and> hm_inv bs hm' recs' \<and> hm_rw hm' \<and> hm_abs hm' recs' = hm_abs hm recs
    \<and> c_count (hm_container hm) \<le> c_count (hm_container hm')
    \<and> c_count (hm_container hm') \<le> 2 * c_count (hm_container hm)"
proof -
  let ?p = "hm_head hm h"
  note i = hm_invD [OF I]
  obtain b where b: "bucket_to_split bs (hm_container hm) ?p = Inr b" using store_bucket_to_split [OF i(3) i(10)] by blast
  obtain hm1 where g: "hm_grow os bs hm ?p = Inr hm1" "hm_inv bs hm1 recs" "hm_rw hm1" "hm_head hm1 = hm_head hm"
      "hm_heads hm1 = hm_heads hm" "hm_container hm1 = hm_container hm"
    using hm_grow_spec [OF I rw os i(10) [of h]] by blast
  have abs1: "hm_abs hm1 recs = hm_abs hm recs" by (simp add: hm_abs_def g(4))
  have bits: "bucket_prefix_bits bs (hm_container hm1) ?p = Inr (hm_depth hm1 ?p)"
    using store_get_bucket(1) [OF i(3) i(10) [of h]] by (simp add: bucket_prefix_bits_def hm_depth_def g(6))
  show ?thesis
  proof (cases "b \<and> hm_depth hm1 ?p < hm_bits hm1")
    case False
    show ?thesis
    proof (cases b)
      case True
      with False b g(1) bits have "hm_make_room os bs hm h ?p = Some (Inr (hm1, hm_head hm1 h))"
        by (simp add: hm_make_room_def g(4))
      then show ?thesis using g abs1 by auto
    next
      case False
      with b have "hm_make_room os bs hm h ?p = Some (Inr (hm, ?p))" by (simp add: hm_make_room_def)
      then show ?thesis using I rw by auto
    qed
  next
    case True
    have "hm_capacity os bs hm1" "?p = hm_head hm1 h" using os(2) g(4,6) by (simp_all add: hm_capacity_def)
    from hm_split_spec [OF g(2,3) os(1) this conjunct2 [OF True]] obtain c p1 hm' recs' where
      sp: "cont_split os bs (hm_container hm1) ?p = Some (Inr (c, p1))"
        "hm_enter bs (hm1\<lparr>hm_container := c\<rparr>) h ?p p1 = Inr (hm', hm_head hm' h)"
      and res: "hm_inv bs hm' recs'" "hm_rw hm'" "hm_abs hm' recs' = hm_abs hm1 recs"
        "c_count (hm_container hm1) \<le> c_count (hm_container hm')"
        "c_count (hm_container hm') \<le> 2 * c_count (hm_container hm1)" by blast
    have "hm_make_room os bs hm h ?p = Some (Inr (hm', hm_head hm' h))"
      using True b g(1) bits sp by (simp add: hm_make_room_def)
    then show ?thesis using res abs1 g(6) by auto
  qed
qed

section \<open>Looking up or inserting\<close>

lemma hm_insert_spec:
  assumes I: "hm_inv bs hm recs" and rw: "hm_rw hm" and os: "os_serves os" "capacity os bs (c_count (hm_container hm))"
    and fits: "bytes_required k v \<le> bs" and none: "hm_abs hm recs (h, k) = None"
  shows "\<exists>c' sv. create_record os bs (hm_container hm) (hm_head hm h) h k v = Some (Inr (c', sv)) \<and> sv_read bs c' sv = Inr v
    \<and> hm_repr bs (hm\<lparr>hm_container := c'\<rparr>) ((hm_abs hm recs)((h, k) \<mapsto> v)) \<and> cont_rw c' \<and> c_count c' \<le> c_count (hm_container hm) + 1"
proof -
  let ?p = "hm_head hm h" and ?c = "hm_container hm"
  define r where "r = \<lparr>rv_hash = h, rv_key = k, rv_value = v\<rparr>"
  note i = hm_invD [OF I]
  have crw: "cont_rw ?c" using rw by (simp add: hm_rw_def)
  from store_create [OF i(3) i(10) [of h] crw os fits r_def] obtain c' sv xs ys where
    cr: "create_record os bs ?c ?p h k v = Some (Inr (c', sv))" and rp: "recs ?p = xs @ ys"
    and S: "store bs c' (hm_heads hm) (recs(?p := xs @ r # ys))" and sv: "sv_read bs c' sv = Inr v" and rw': "cont_rw c'"
    and cnt: "c_count ?c \<le> c_count c'" "c_count c' \<le> c_count ?c + 1"
    and pb: "\<forall>q \<in> hm_heads hm. b_prefix_bits (c_buckets c' q) = b_prefix_bits (c_buckets ?c q)" by blast
  let ?hm = "hm\<lparr>hm_container := c'\<rparr>" and ?m = "(hm_abs hm recs)((h, k) \<mapsto> v)"
  have no: "lookup (xs @ ys) h k = None" using none rp by (simp add: hm_abs_def)
  have route: "\<forall>s \<in> set (xs @ r # ys). hm_head hm (rv_hash s) = ?p"
    using i(4) [OF i(10) [of h]] rp by (auto simp: r_def)
  have "(h, k) \<notin> fst ` set (map kv (xs @ ys))" using no unfolding lookup_def map_of_eq_None_iff .
  then have "(fst \<circ> kv) r \<notin> (fst \<circ> kv) ` set (xs @ ys)" by (simp only: set_map image_comp) (simp add: r_def kv_def)
  then have "distinct (map (fst \<circ> kv) (xs @ r # ys))" using i(5) [OF i(10) [of h]] rp by auto
  from hm_inv_update [OF I S cnt(1) pb i(10) route this] have I': "hm_inv bs ?hm (recs(?p := xs @ r # ys))" .
  have "hm_abs ?hm (recs(?p := xs @ r # ys)) = ?m"
  proof (rule hm_abs_update)
    show "hm_head ?hm = hm_head hm" by (simp add: hm_head_def fun_eq_iff)
    show "lookup (xs @ r # ys) h' k' = ?m (h', k')" if "hm_head hm h' = ?p" for h' k'
      using lookup_insert [of xs ys r h' k'] no that rp by (simp add: r_def hm_abs_def)
    show "hm_abs hm recs (h', k') = ?m (h', k')" if "hm_head hm h' \<noteq> ?p" for h' k' using that by auto
  qed
  with I' have "hm_repr bs ?hm ?m" unfolding hm_repr_def by metis
  with cr sv rw' cnt(2) show ?thesis by blast
qed

lemma hm_get_found:
  assumes R: "hm_repr bs hm m" and m: "m (h, k) = Some v"
  shows "\<exists>sv. hm_get os bs hm h k dv = Some (Inr (hm, Some sv)) \<and> sv_read bs (hm_container hm) sv = Inr v"
proof -
  from R obtain recs where I: "hm_inv bs hm recs" unfolding hm_repr_def by blast
  from hm_find_spec [OF R, of h k] m obtain sv where
    "hm_find bs hm h k = Some (Inr (Some sv))" "sv_read bs (hm_container hm) sv = Inr v" by (auto simp: shown_def)
  then show ?thesis using hm_invD(9) [OF I, of h] by (simp add: hm_find_def hm_get_def)
qed

lemma hm_get_new:
  assumes R: "hm_repr bs hm m" and rw: "hm_rw hm" and os: "os_serves os" "hm_capacity os bs hm"
    and fits: "bytes_required k dv \<le> bs" and m: "m (h, k) = None"
  shows "\<exists>hm' sv. hm_get os bs hm h k dv = Some (Inr (hm', Some sv)) \<and> sv_read bs (hm_container hm') sv = Inr dv
    \<and> hm_repr bs hm' (m((h, k) \<mapsto> dv)) \<and> hm_rw hm' \<and> c_count (hm_container hm') \<le> 2 * c_count (hm_container hm) + 1"
proof -
  from R obtain recs where I: "hm_inv bs hm recs" and mm: "m = hm_abs hm recs" unfolding hm_repr_def by blast
  have "hm_find bs hm h k = Some (Inr None)" using hm_find_spec [OF R, of h k] m by (auto simp: shown_def)
  then have fnd: "find_record bs (hm_container hm) (hm_head hm h) h k = Some (Inr None)"
    using hm_invD(9) [OF I, of h] by (simp add: hm_find_def)
  obtain hm1 recs1 where room: "hm_make_room os bs hm h (hm_head hm h) = Some (Inr (hm1, hm_head hm1 h))"
    and I1: "hm_inv bs hm1 recs1" "hm_rw hm1" and abs1: "hm_abs hm1 recs1 = m"
    and cnt: "c_count (hm_container hm1) \<le> 2 * c_count (hm_container hm)"
    using hm_make_room_spec [OF I rw os, of h] mm by blast
  have cap: "capacity os bs (c_count (hm_container hm1))"
    using os(2) cnt by (auto simp: hm_capacity_def intro: capacity_mono)
  from hm_insert_spec [OF I1 os(1) cap fits, of h] abs1 m obtain c' sv where
    cr: "create_record os bs (hm_container hm1) (hm_head hm1 h) h k dv = Some (Inr (c', sv))" "sv_read bs c' sv = Inr dv"
    and R': "hm_repr bs (hm1\<lparr>hm_container := c'\<rparr>) (m((h, k) \<mapsto> dv))" "cont_rw c'" "c_count c' \<le> c_count (hm_container hm1) + 1"
    by auto
  have "hm_get os bs hm h k dv = Some (Inr (hm1\<lparr>hm_container := c'\<rparr>, Some sv))"
    using fnd room cr(1) hm_invD(9) [OF I, of h] by (simp add: hm_get_def)
  then show ?thesis using cr(2) R' cnt I1(2) by (auto simp: hm_rw_def)
qed

section \<open>A new map\<close>

lemma cont_open_fresh:
  assumes os: "os_serves os" "os_opens os f" "capacity os bs 0" and bs: "bs < 2 ^ 31"
  shows "\<exists>c. cont_open os bs f False (empty_cont_layout bs) = Inr c \<and> cont_inv bs c [] \<and> cont_rw c \<and> c_count c = 0"
proof -
  have "0 < cont_layout_size bs" "cont_layout_size bs < os_limit os" "cont_header_size \<le> cont_layout_size bs"
    using os(3) by (simp_all add: capacity_def bucket_off_def cont_layout_size_def cont_header_size_def)
  from fm_open_served [OF os(1,2) this(1,2)] this(3) obtain fm where
    fm: "fm_open os f False (cont_layout_size bs) = Inr fm" "writable fm (cont_layout_size bs)" "fm_length fm = cont_layout_size bs"
      "writable fm cont_header_size" by (auto intro: writable_mono)
  define c where "c = cont_layout.extend (empty_cont_layout bs) \<lparr>c_file_map = fm\<rparr>\<lparr>c_signature := CONT_SIGNATURE, c_first_free := INVALID_BUCKET_ID\<rparr>"
  have "cont_open os bs f False (empty_cont_layout bs) = Inr c"
    using fm(1,4) by (simp add: cont_open_def c_def empty_cont_layout_def cont_layout.defs Let_def writable_readable)
  moreover have "cont_inv bs c []" "cont_rw c" "c_count c = 0"
    using fm bs by (auto simp: c_def cont_inv_def cont_rw_def empty_cont_layout_def empty_bucket_def cont_layout.defs
        writable_def bucket_off_def INVALID_ID_def INVALID_BUCKET_ID_def)
  ultimately show ?thesis by blast
qed

lemma hm_open_fresh:
  assumes os: "os_serves os" "os_opens os (f @ ''cat'')" "os_opens os (f @ ''dat'')" "capacity os bs 2" and bs: "bs < 2 ^ 31"
  shows "\<exists>hm. hm_open os bs f False empty_cat_layout (empty_cont_layout bs) = Inr hm \<and> hm_repr bs hm (\<lambda>_. None) \<and> hm_rw hm
    \<and> c_count (hm_container hm) \<le> 2"
proof -
  have lim: "0 < cat_layout_size" "cat_layout_size < os_limit os" "cat_header_size + 8 * 2 ^ 1 < os_limit os"
    using os(4) by (simp_all add: capacity_def bucket_off_def cont_header_size_def bucket_size_def bucket_header_size_def
        cat_layout_size_def cat_header_size_def)
  obtain fm where fm: "fm_open os (f @ ''cat'') False cat_layout_size = Inr fm" "writable fm cat_layout_size" "fm_length fm = cat_layout_size"
    using fm_open_served [OF os(1,2) lim(1,2)] by blast
  obtain cat where cat: "cat_open os (f @ ''cat'') 1 False empty_cat_layout = Inr cat" "cat_inv cat" "cat_prefix_bits cat = 1"
      "\<not> fm_read_only (cat_file_map cat)"
    using cat_open_fresh [OF os(1) fm _ _ lim(3)] by auto
  have cap: "capacity os bs 0" "capacity os bs 1" by (auto intro: capacity_mono [OF os(4)])
  obtain c where c: "cont_open os bs (f @ ''dat'') False (empty_cont_layout bs) = Inr c" "cont_inv bs c []" "cont_rw c" "c_count c = 0"
    using cont_open_fresh [OF os(1,3) cap(1) bs] by blast
  have S0: "store bs c {} (\<lambda>_. [])" by (rule store_empty [OF c(2,4)])
  from store_create_bucket [OF S0 c(3) os(1), of 1] cap(1) c(4) obtain c1 n0 where
    c1: "create_bucket os bs c 1 = Inr (c1, n0)" "store bs c1 {n0} (\<lambda>_. [])" "cont_rw c1" "c_count c1 \<le> 1"
      "b_prefix_bits (c_buckets c1 n0) = 1" by (auto simp: fun_upd_def)
  have "capacity os bs (c_count c1)" using c1(4) by (rule capacity_mono [OF cap(2)])
  from store_create_bucket [OF c1(2,3) os(1) this, of 1] c1(4,5) obtain c2 n1 where
    c2: "create_bucket os bs c1 1 = Inr (c2, n1)" "n1 \<noteq> n0" "store bs c2 {n1, n0} (\<lambda>_. [])" "cont_rw c2" "c_count c2 \<le> 2"
      "b_prefix_bits (c_buckets c2 n0) = 1" "b_prefix_bits (c_buckets c2 n1) = 1" by (auto simp: fun_upd_def)
  have top: "drop_bit 31 (NOT 0 :: hash_t) = 1" by (rule bit_word_eqI) (auto simp: bit_drop_bit_eq bit_1_iff)
  have "prefix_of 1 (NOT 0) = unat (drop_bit 31 (NOT 0 :: hash_t))"
    unfolding prefix_of_def unat_drop_bit_div by simp
  then have idx: "prefix_of 1 0 = 0" "prefix_of 1 (NOT 0) = 1" unfolding top by (simp_all add: prefix_of_def)
  define cat' where "cat' = cat\<lparr>cat_buffer := (cat_buffer cat)(0 := n0, 1 := n1)\<rparr>"
  define hm where "hm = \<lparr>hm_catalogue = cat', hm_container = c2\<rparr>"
  have "cat_find_assign cat 0 n0 = Inr (cat\<lparr>cat_buffer := (cat_buffer cat)(0 := n0)\<rparr>)"
    using cat_index_eq [OF cat(2)] cat_put_eq [OF cat(2,4)] idx cat(3) by (simp add: cat_find_assign_def)
  moreover have "cat_find_assign (cat\<lparr>cat_buffer := (cat_buffer cat)(0 := n0)\<rparr>) (NOT 0) n1 = Inr cat'"
    using cat_index_eq [of "cat\<lparr>cat_buffer := (cat_buffer cat)(0 := n0)\<rparr>"] cat_put_eq [of "cat\<lparr>cat_buffer := (cat_buffer cat)(0 := n0)\<rparr>"]
      cat idx by (simp add: cat_find_assign_def cat'_def)
  ultimately have op: "hm_open os bs f False empty_cat_layout (empty_cont_layout bs) = Inr hm"
    using cat(1) c(1,4) c1(1) c2(1) by (simp add: hm_open_def buckets_count_def hm_def)
  have two: "j < 2 ^ hm_bits hm \<longleftrightarrow> j = 0 \<or> j = 1" "hm_bits hm = 1" for j :: nat using cat(3) by (auto simp: hm_def cat'_def)
  have H: "hm_heads hm = {n1, n0}"
    unfolding hm_heads_def two(2) by (auto simp: hm_def cat'_def lessThan_nat_numeral numeral_2_eq_2 lessThan_Suc)
  have "dir_ok (hm_bits hm) (cat_buffer (hm_catalogue hm)) (hm_depth hm)"
    unfolding dir_ok_def two using c2(2,6,7) by (auto simp: hm_def cat'_def hm_depth_def)
  then have "hm_inv bs hm (\<lambda>_. [])" using cat(2) c2(3) H two(2) by (simp add: hm_inv_def) (simp add: hm_def cat'_def)
  moreover have "hm_abs hm (\<lambda>_. []) = (\<lambda>_. None)" by (auto simp: hm_abs_def lookup_def)
  ultimately have "hm_repr bs hm (\<lambda>_. None)" unfolding hm_repr_def by metis
  then show ?thesis using op c2(4,5) cat(4) by (auto simp: hm_def cat'_def hm_rw_def)
qed

section \<open>The contract of the clients\<close>

text \<open>Room for a record: it fits a bucket, and the system can hold the buckets the call may add.\<close>

definition hm_room :: "os_env \<Rightarrow> nat \<Rightarrow> hash_map \<Rightarrow> bytes \<Rightarrow> bytes \<Rightarrow> bool" where
  "hm_room os bs hm k v \<longleftrightarrow> os_serves os \<and> hm_capacity os bs hm \<and> bytes_required k v \<le> bs"

text \<open>The map from keys to values of a client that hashes its keys with FNV-1a.\<close>

definition hm_holds :: "nat \<Rightarrow> hash_map \<Rightarrow> key_contents \<Rightarrow> bool" where
  "hm_holds bs hm mk \<longleftrightarrow> hm_repr bs hm (\<lambda>(h, k). if h = fnv1a k then mk k else None)"

interpretation hm_kv: keyed_store "hm_repr bs" hm_rw "hm_room os bs" "\<lambda>hm. sv_read bs (hm_container hm)" "hm_find bs" "hm_get os bs"
  "hm_remove bs" fnv1a "hm_holds bs" for os bs
proof
  fix s m h k
  assume R: "hm_repr bs s m"
  note fnd = hm_find_spec [OF R, of h k]
  show "hm_find bs s h k = Some (Inr None)" if "m (h, k) = None" using fnd that by (auto simp: shown_def)
  show "\<exists>sv. hm_find bs s h k = Some (Inr (Some sv)) \<and> sv_read bs (hm_container s) sv = Inr v" if "m (h, k) = Some v" for v
    using fnd that by (auto simp: shown_def)
  show "\<exists>sv. hm_get os bs s h k d = Some (Inr (s, Some sv)) \<and> sv_read bs (hm_container s) sv = Inr v" if "m (h, k) = Some v" for v d
    using R that by (rule hm_get_found)
  assume rw: "hm_rw s"
  show "\<exists>s' sv. hm_get os bs s h k d = Some (Inr (s', Some sv)) \<and> sv_read bs (hm_container s') sv = Inr d
      \<and> hm_repr bs s' (m((h, k) \<mapsto> d)) \<and> hm_rw s'" if "hm_room os bs s k d" "m (h, k) = None" for d
    using hm_get_new [OF R rw, of os k d h] that by (auto simp: hm_room_def)
  show "\<exists>s'. hm_remove bs s h k = Some (Inr (s', m (h, k) \<noteq> None)) \<and> hm_repr bs s' (m((h, k) := None)) \<and> hm_rw s'"
    using hm_remove_spec [OF R rw, of h k] by blast
qed (rule hm_holds_def)

end
