(* ===== verification/Hash_Map_Iterator.thy ===== *)
theory Hash_Map_Iterator
  imports Hash_Map_Refinement
begin

text \<open>
  The iterator visits every record of the map once: the buckets of a chain in turn, then the chain of
  the next catalogue entry that differs from the one before it. A chain's entries are one block of
  the catalogue, so no chain is met twice.
\<close>

section \<open>Entries that start a block\<close>

definition head_list :: "hash_map \<Rightarrow> nat \<Rightarrow> nat list" where
  "head_list hm i = map (cat_buffer (hm_catalogue hm))
     (filter (\<lambda>k. k = 0 \<or> cat_buffer (hm_catalogue hm) k \<noteq> cat_buffer (hm_catalogue hm) (k - 1)) [i..<2 ^ hm_bits hm])"

lemma head_list_end: "2 ^ hm_bits hm \<le> i \<Longrightarrow> head_list hm i = []"
  by (simp add: head_list_def)

lemma head_list_step:
  assumes "i < 2 ^ hm_bits hm"
  shows "head_list hm i =
    (if i = 0 \<or> cat_buffer (hm_catalogue hm) i \<noteq> cat_buffer (hm_catalogue hm) (i - 1) then [cat_buffer (hm_catalogue hm) i] else [])
    @ head_list hm (Suc i)"
  using assms by (simp add: head_list_def upt_conv_Cons)

lemma it_skip_spec:
  assumes inv: "cat_inv (hm_catalogue hm)" and "1 \<le> i" and "i \<le> 2 ^ hm_bits hm"
  shows "\<exists>k. it_skip hm i = Inr k \<and> i \<le> k \<and> k \<le> 2 ^ hm_bits hm
    \<and> (if k < 2 ^ hm_bits hm then head_list hm i = cat_buffer (hm_catalogue hm) k # head_list hm (Suc k) else head_list hm i = [])"
  using assms(2,3)
proof (induction "2 ^ hm_bits hm - i" arbitrary: i)
  case 0
  then have "i = 2 ^ hm_bits hm" by simp
  moreover have "cat_buffer_size (hm_catalogue hm) = 2 ^ hm_bits hm" using inv by (simp add: cat_inv_def)
  ultimately have "it_skip hm i = Inr i" by (subst it_skip.simps) simp
  moreover have "head_list hm i = []" using 0 by (intro head_list_end) simp
  ultimately show ?case using \<open>i = 2 ^ hm_bits hm\<close> by auto
next
  case (Suc x)
  let ?buf = "cat_buffer (hm_catalogue hm)"
  have i: "i < 2 ^ hm_bits hm" "i - 1 < 2 ^ hm_bits hm" using Suc(2) by simp_all
  have size: "cat_buffer_size (hm_catalogue hm) = 2 ^ hm_bits hm" using inv by (simp add: cat_inv_def)
  note get = cat_get_eq [OF inv]
  show ?case
  proof (cases "?buf i = ?buf (i - 1)")
    case True
    then have "it_skip hm i = it_skip hm (i + 1)"
      using i get size by (simp add: it_skip.simps [of hm i])
    moreover have "head_list hm i = head_list hm (i + 1)" using head_list_step [OF i(1)] True Suc.prems(1) by simp
    ultimately show ?thesis using Suc.hyps(1) [of "i + 1"] Suc.hyps(2) i(1) by fastforce
  next
    case False
    then have "it_skip hm i = Inr i" using i get size by (simp add: it_skip.simps [of hm i])
    moreover have "head_list hm i = ?buf i # head_list hm (Suc i)" using head_list_step [OF i(1)] False by simp
    ultimately show ?thesis using i(1) by auto
  qed
qed

lemma block_convex:
  assumes D: "dir_ok n buf d" and "i \<le> j" "j \<le> k" and k: "k < 2 ^ n" and eq: "buf i = buf k"
  shows "buf j = buf k"
proof -
  let ?w = "2 ^ (n - d (buf k)) :: nat"
  have "i div ?w = k div ?w" using dir_okD(3) [OF D k, of i] eq assms(2,3) k by simp
  moreover have "i div ?w \<le> j div ?w" "j div ?w \<le> k div ?w" using assms(2,3) by (simp_all add: div_le_mono)
  ultimately show ?thesis using dir_okD(3) [OF D k, of j] assms(3) k by simp
qed

lemma head_list_distinct:
  assumes D: "dir_ok (hm_bits hm) (cat_buffer (hm_catalogue hm)) (hm_depth hm)"
  shows "distinct (head_list hm i)"
proof -
  let ?buf = "cat_buffer (hm_catalogue hm)" and ?n = "hm_bits hm"
  have neq: "?buf a \<noteq> ?buf b" if "a < b" "b < 2 ^ ?n" "b = 0 \<or> ?buf b \<noteq> ?buf (b - 1)" for a b
  proof
    assume "?buf a = ?buf b"
    moreover have "a \<le> b - 1" "b - 1 \<le> b" "b \<noteq> 0" using that(1) by simp_all
    ultimately show False using block_convex [OF D, of a "b - 1" b] that(2,3) by simp
  qed
  have "inj_on ?buf (set (filter (\<lambda>k. k = 0 \<or> ?buf k \<noteq> ?buf (k - 1)) [i..<2 ^ ?n]))"
  proof (rule inj_onI)
    fix a b assume a: "a \<in> set (filter (\<lambda>k. k = 0 \<or> ?buf k \<noteq> ?buf (k - 1)) [i..<2 ^ ?n])"
      and b: "b \<in> set (filter (\<lambda>k. k = 0 \<or> ?buf k \<noteq> ?buf (k - 1)) [i..<2 ^ ?n])" and eq: "?buf a = ?buf b"
    show "a = b"
    proof (cases a b rule: linorder_cases)
      case less
      then show ?thesis using neq [of a b] b eq by auto
    next
      case greater
      then show ?thesis using neq [of b a] a eq by auto
    qed simp
  qed
  then show ?thesis unfolding head_list_def distinct_map by simp
qed

lemma head_list_set: "set (head_list hm 0) = hm_heads hm"
proof
  let ?buf = "cat_buffer (hm_catalogue hm)" and ?n = "hm_bits hm"
  show "set (head_list hm 0) \<subseteq> hm_heads hm" by (auto simp: head_list_def hm_heads_def)
  have "?buf k \<in> set (head_list hm 0)" if "k < 2 ^ ?n" for k
    using that
  proof (induction k)
    case 0
    then show ?case by (auto simp: head_list_def)
  next
    case (Suc k)
    then show ?case by (cases "?buf (Suc k) = ?buf k") (auto simp: head_list_def)
  qed
  then show "hm_heads hm \<subseteq> set (head_list hm 0)" by (auto simp: hm_heads_def)
qed

section \<open>Positions\<close>

text \<open>The iterator is at bucket \<open>it_bucket_id\<close> of the chain of its catalogue entry, in front of the
  records \<open>zs\<close> of that bucket; the buckets \<open>vs\<close> of the chain follow.\<close>

definition it_pos ::
  "hash_map \<Rightarrow> (nat \<Rightarrow> nat list) \<Rightarrow> (nat \<Rightarrow> record_view list) \<Rightarrow> const_iterator \<Rightarrow> record_view list \<Rightarrow> nat list \<Rightarrow> bool" where
  "it_pos hm ids ct it zs vs \<longleftrightarrow> it_map it \<and> it_catalogue_index it < 2 ^ hm_bits hm
     \<and> (\<exists>us. ids (cat_buffer (hm_catalogue hm) (it_catalogue_index it)) = us @ it_bucket_id it # vs)
     \<and> (\<exists>as. ct (it_bucket_id it) = as @ zs \<and> it_byte_offset it = length (encs as))"

definition it_rest :: "hash_map \<Rightarrow> (nat \<Rightarrow> nat list) \<Rightarrow> const_iterator \<Rightarrow> nat list \<Rightarrow> nat list" where
  "it_rest hm ids it vs = vs @ concat (map ids (head_list hm (Suc (it_catalogue_index it))))"

abbreviation it_remaining ::
  "hash_map \<Rightarrow> (nat \<Rightarrow> nat list) \<Rightarrow> (nat \<Rightarrow> record_view list) \<Rightarrow> const_iterator \<Rightarrow> record_view list \<Rightarrow> nat list \<Rightarrow> record_view list" where
  "it_remaining hm ids ct it zs vs \<equiv> zs @ concat (map ct (it_rest hm ids it vs))"

text \<open>Where \<open>find_next_record\<close> leaves the iterator: in front of the first record that remains, or at
  the end.\<close>

definition it_ready ::
  "hash_map \<Rightarrow> (nat \<Rightarrow> nat list) \<Rightarrow> (nat \<Rightarrow> record_view list) \<Rightarrow> const_iterator \<Rightarrow> record_view list \<Rightarrow> bool" where
  "it_ready hm ids ct it R \<longleftrightarrow>
     (if R = [] then \<not> it_map it
      else \<exists>zs vs. it_pos hm ids ct it zs vs \<and> zs \<noteq> [] \<and> it_remaining hm ids ct it zs vs = R)"

lemma it_pos_bucket:
  assumes S: "store_by bs (hm_container hm) fs (hm_heads hm) ids ct" and P: "it_pos hm ids ct it zs vs"
  shows "read_record bs (hm_container hm) (it_bucket_id it) (it_byte_offset it) =
      Inr (case zs of [] \<Rightarrow> None | r # _ \<Rightarrow> Some (r, it_byte_offset it + length (enc r)))"
    and "next_bucket bs (hm_container hm) (it_bucket_id it) = Inr (case vs of [] \<Rightarrow> INVALID_BUCKET_ID | j # _ \<Rightarrow> j)"
    and "j \<in> set vs \<Longrightarrow> j \<noteq> INVALID_BUCKET_ID"
proof -
  let ?p = "cat_buffer (hm_catalogue hm) (it_catalogue_index it)" and ?c = "hm_container hm"
  note s = store_byD [OF S]
  from P obtain us as where us: "ids ?p = us @ it_bucket_id it # vs"
    and as: "ct (it_bucket_id it) = as @ zs" "it_byte_offset it = length (encs as)" unfolding it_pos_def by blast
  have p: "?p \<in> hm_heads hm" using P by (auto simp: it_pos_def hm_heads_def)
  have b: "it_bucket_id it < c_count ?c" "bucket_holds bs (c_buckets ?c (it_bucket_id it)) (as @ zs)"
    using s(5) [OF p] us as by auto
  show "read_record bs ?c (it_bucket_id it) (it_byte_offset it) =
      Inr (case zs of [] \<Rightarrow> None | r # _ \<Rightarrow> Some (r, it_byte_offset it + length (enc r)))"
    unfolding as(2) read_record_eq [OF s(1) b] by (cases zs) simp_all
  have "chain (nexts ?c) (nexts ?c (it_bucket_id it)) vs" using chain_suffix [OF s(3) [OF p, unfolded us]] .
  then have "nexts ?c (it_bucket_id it) = (case vs of [] \<Rightarrow> INVALID_BUCKET_ID | j # _ \<Rightarrow> j)"
    by (cases vs) (simp_all add: INVALID_BUCKET_ID_def)
  then show "next_bucket bs ?c (it_bucket_id it) = Inr (case vs of [] \<Rightarrow> INVALID_BUCKET_ID | j # _ \<Rightarrow> j)"
    by (simp add: next_bucket_def get_bucket_eq [OF s(1) b(1)] nexts_def)
  show "j \<in> set vs \<Longrightarrow> j \<noteq> INVALID_BUCKET_ID"
    using chain_not_INVALID_mem [OF s(3) [OF p]] us by (auto simp: INVALID_BUCKET_ID_def)
qed

text \<open>The three outcomes of a pass: a record, the next bucket of the chain, the next chain or the end.\<close>

lemma it_step_chain:
  assumes S: "store_by bs (hm_container hm) fs (hm_heads hm) ids ct" and P: "it_pos hm ids ct it [] (j # vs)"
  shows "it_step bs hm it = Inr (Inr (it\<lparr>it_bucket_id := j, it_byte_offset := 0\<rparr>))"
    and "it_pos hm ids ct (it\<lparr>it_bucket_id := j, it_byte_offset := 0\<rparr>) (ct j) vs"
proof -
  show "it_step bs hm it = Inr (Inr (it\<lparr>it_bucket_id := j, it_byte_offset := 0\<rparr>))"
    using it_pos_bucket [OF S P] by (simp add: it_step_def)
  obtain us where "ids (cat_buffer (hm_catalogue hm) (it_catalogue_index it)) = (us @ [it_bucket_id it]) @ j # vs"
    using P unfolding it_pos_def by auto
  moreover have "ct j = [] @ ct j" "0 = length (encs [])" by simp_all
  ultimately show "it_pos hm ids ct (it\<lparr>it_bucket_id := j, it_byte_offset := 0\<rparr>) (ct j) vs"
    using P unfolding it_pos_def by (simp del: append_assoc; blast?)
qed

lemma it_step_head:
  assumes inv: "cat_inv (hm_catalogue hm)" and S: "store_by bs (hm_container hm) fs (hm_heads hm) ids ct" and P: "it_pos hm ids ct it [] []"
  shows "head_list hm (Suc (it_catalogue_index it)) = [] \<and> (\<exists>it'. it_step bs hm it = Inr (Inl it') \<and> \<not> it_map it')
    \<or> (\<exists>it' vs' q. it_step bs hm it = Inr (Inr it') \<and> it_pos hm ids ct it' (ct q) vs' \<and> ids q = q # vs'
         \<and> head_list hm (Suc (it_catalogue_index it)) = q # head_list hm (Suc (it_catalogue_index it')))"
proof -
  let ?buf = "cat_buffer (hm_catalogue hm)" and ?i = "it_catalogue_index it"
  note s = store_byD [OF S]
  have i: "1 \<le> Suc ?i" "Suc ?i \<le> 2 ^ hm_bits hm" using P by (simp_all add: it_pos_def)
  have size: "cat_buffer_size (hm_catalogue hm) = 2 ^ hm_bits hm" using inv by (simp add: cat_inv_def)
  from it_skip_spec [OF inv i] obtain k where k: "it_skip hm (Suc ?i) = Inr k" "k \<le> 2 ^ hm_bits hm"
    "if k < 2 ^ hm_bits hm then head_list hm (Suc ?i) = ?buf k # head_list hm (Suc k) else head_list hm (Suc ?i) = []" by blast
  show ?thesis
  proof (cases "k < 2 ^ hm_bits hm")
    case False
    then have "it_step bs hm it = Inr (Inl (it\<lparr>it_catalogue_index := k, it_map := False\<rparr>))"
      using it_pos_bucket [OF S P] k(1) size by (simp add: it_step_def)
    with False k(3) show ?thesis by auto
  next
    case True
    define it' where "it' = it\<lparr>it_catalogue_index := k, it_bucket_id := ?buf k, it_byte_offset := 0\<rparr>"
    have q: "?buf k \<in> hm_heads hm" using True by (simp add: hm_heads_def)
    obtain vs' where vs': "ids (?buf k) = ?buf k # vs'" using s(3,4) [OF q] by (cases "ids (?buf k)") auto
    have "it_step bs hm it = Inr (Inr it')"
      using it_pos_bucket [OF S P] k(1) size True cat_get_eq [OF inv True] by (simp add: it_step_def it'_def)
    moreover have "it_pos hm ids ct it' (ct (?buf k)) vs'"
      using P True vs' unfolding it_pos_def by (simp add: it'_def)
    moreover have "head_list hm (Suc ?i) = ?buf k # head_list hm (Suc (it_catalogue_index it'))"
      using k(3) True by (simp add: it'_def)
    ultimately show ?thesis using vs' by blast
  qed
qed

lemma find_next_spec:
  assumes inv: "cat_inv (hm_catalogue hm)" and S: "store_by bs (hm_container hm) fs (hm_heads hm) ids ct"
    and "it_pos hm ids ct it zs vs" and "it_rest hm ids it vs = pend"
  shows "\<exists>it'. find_next_record bs hm it = Some (Inr it') \<and> it_ready hm ids ct it' (it_remaining hm ids ct it zs vs)"
  using assms(3,4)
proof (induction pend arbitrary: it zs vs rule: length_induct)
  case (1 pend)
  note P = 1(2) and pend = 1(3)
  show ?case
  proof (cases "zs = []")
    case False
    then have "it_step bs hm it = Inr (Inl it)" using it_pos_bucket(1) [OF S P] by (cases zs) (simp_all add: it_step_def)
    then have "find_next_record bs hm it = Some (Inr it)" by (simp add: find_next_record.simps)
    moreover have "it_ready hm ids ct it (it_remaining hm ids ct it zs vs)" using P False unfolding it_ready_def by auto
    ultimately show ?thesis by blast
  next
    case True
    have go: ?thesis if it': "it_step bs hm it = Inr (Inr it')" "it_pos hm ids ct it' (ct j) vs'"
        and rest: "it_rest hm ids it vs = j # it_rest hm ids it' vs'" for it' j vs'
    proof -
      have "length (it_rest hm ids it' vs') < length pend" using rest pend by simp
      from 1(1) [rule_format, OF this it'(2) refl] obtain it'' where
        "find_next_record bs hm it' = Some (Inr it'')" "it_ready hm ids ct it'' (it_remaining hm ids ct it' (ct j) vs')" by blast
      moreover have "it_remaining hm ids ct it zs vs = it_remaining hm ids ct it' (ct j) vs'" using rest True by simp
      moreover have "find_next_record bs hm it = find_next_record bs hm it'"
        using it'(1) by (subst find_next_record.simps) simp
      ultimately show ?thesis by metis
    qed
    show ?thesis
    proof (cases vs)
      case (Cons j vs')
      with P True have "it_pos hm ids ct it [] (j # vs')" by simp
      note st = it_step_chain [OF S this]
      from st(1,2) show ?thesis by (rule go) (simp add: it_rest_def Cons)
    next
      case Nil
      with P True have "it_pos hm ids ct it [] []" by simp
      from it_step_head [OF inv S this] show ?thesis
      proof (elim disjE exE conjE)
        fix it' assume "head_list hm (Suc (it_catalogue_index it)) = []" "it_step bs hm it = Inr (Inl it')" "\<not> it_map it'"
        then show ?thesis using True Nil by (auto simp: find_next_record.simps [of bs hm it] it_rest_def it_ready_def)
      next
        fix it' vs' q assume st: "it_step bs hm it = Inr (Inr it')" "it_pos hm ids ct it' (ct q) vs'"
          and "ids q = q # vs'" "head_list hm (Suc (it_catalogue_index it)) = q # head_list hm (Suc (it_catalogue_index it'))"
        then show ?thesis using Nil by (intro go [OF st]) (simp add: it_rest_def)
      qed
    qed
  qed
qed

section \<open>A whole pass\<close>

definition kvp :: "record_view \<Rightarrow> bytes \<times> bytes" where
  "kvp r = (rv_key r, rv_value r)"

lemma it_next_spec:
  assumes inv: "cat_inv (hm_catalogue hm)" and S: "store_by bs (hm_container hm) fs (hm_heads hm) ids ct"
    and P: "it_pos hm ids ct it (r # zs) vs"
  shows "it_deref bs hm it = Inr (kvp r)"
    and "\<exists>it'. it_next bs hm it = Some (Inr it') \<and> it_ready hm ids ct it' (it_remaining hm ids ct it zs vs)"
proof -
  note b = it_pos_bucket(1) [OF S P]
  have m: "it_map it" using P by (simp add: it_pos_def)
  then show "it_deref bs hm it = Inr (kvp r)" using b by (simp add: it_deref_def kvp_def)
  let ?it = "it\<lparr>it_byte_offset := it_byte_offset it + length (enc r)\<rparr>"
  have P': "it_pos hm ids ct ?it zs vs"
  proof -
    obtain as where "ct (it_bucket_id it) = as @ r # zs" "it_byte_offset it = length (encs as)"
      using P unfolding it_pos_def by blast
    then have "ct (it_bucket_id it) = (as @ [r]) @ zs" "it_byte_offset ?it = length (encs (as @ [r]))" by simp_all
    then show ?thesis using P unfolding it_pos_def by (simp del: append_assoc; blast?)
  qed
  have "it_rest hm ids ?it vs = it_rest hm ids it vs" by (simp add: it_rest_def)
  moreover have "it_next bs hm it = find_next_record bs hm ?it" using b m by (simp add: it_next_def)
  ultimately show "\<exists>it'. it_next bs hm it = Some (Inr it') \<and> it_ready hm ids ct it' (it_remaining hm ids ct it zs vs)"
    using find_next_spec [OF inv S P' refl] by simp
qed

lemma it_collect_spec:
  assumes inv: "cat_inv (hm_catalogue hm)" and S: "store_by bs (hm_container hm) fs (hm_heads hm) ids ct"
    and "it_ready hm ids ct it R"
  shows "it_collect bs hm it acc = Some (Inr (acc @ map kvp R))"
  using assms(3)
proof (induction R arbitrary: it acc)
  case Nil
  then show ?case by (simp add: it_collect.simps [of bs hm it] it_eq_def hm_end_def it_end_def it_ready_def)
next
  case (Cons r R)
  then obtain zs vs where P: "it_pos hm ids ct it zs vs" "zs \<noteq> []" "it_remaining hm ids ct it zs vs = r # R"
    by (auto simp: it_ready_def)
  then obtain zs' where zs: "zs = r # zs'" by (cases zs) auto
  note n = it_next_spec [OF inv S P(1) [unfolded zs]]
  have R: "it_remaining hm ids ct it zs' vs = R" using P(3) zs by simp
  obtain it' where it': "it_next bs hm it = Some (Inr it')" "it_ready hm ids ct it' R"
    using n(2) unfolding R by blast
  have "it_map it" using P(1) by (simp add: it_pos_def)
  then have "it_collect bs hm it acc = it_collect bs hm it' (acc @ [kvp r])"
    using n(1) it'(1) by (subst it_collect.simps) (simp add: it_eq_def hm_end_def it_end_def)
  with Cons.IH [OF it'(2)] show ?case by simp
qed

lemma hm_begin_spec:
  assumes inv: "cat_inv (hm_catalogue hm)" and S: "store_by bs (hm_container hm) fs (hm_heads hm) ids ct"
    and recs: "\<forall>p \<in> hm_heads hm. recs p = concat (map ct (ids p))"
  shows "\<exists>it. hm_begin bs hm = Some (Inr it) \<and> it_ready hm ids ct it (concat (map recs (head_list hm 0)))"
proof -
  let ?p = "cat_buffer (hm_catalogue hm) 0"
  note s = store_byD [OF S]
  have z: "0 < (2 :: nat) ^ hm_bits hm" by simp
  have p: "?p \<in> hm_heads hm" by (auto simp: hm_heads_def)
  obtain vs where vs: "ids ?p = ?p # vs" using s(3,4) [OF p] by (cases "ids ?p") auto
  define it where "it = \<lparr>it_map = True, it_catalogue_index = 0, it_bucket_id = ?p, it_byte_offset = 0\<rparr>"
  have P: "it_pos hm ids ct it (ct ?p) vs" unfolding it_pos_def using vs by (simp add: it_def)
  have bg: "hm_begin bs hm = find_next_record bs hm it"
    using cat_get_eq [OF inv z] inv by (simp add: hm_begin_def it_at_def it_def cat_inv_def)
  have hl: "head_list hm 0 = ?p # head_list hm (Suc 0)" using head_list_step [OF z] by simp
  have "\<forall>q \<in> set (head_list hm (Suc 0)). q \<in> hm_heads hm" using head_list_set [of hm] hl by auto
  moreover have "concat (map recs L) = concat (map ct (concat (map ids L)))" if "\<forall>q \<in> set L. q \<in> hm_heads hm" for L
    using that recs by (induction L) auto
  ultimately have "concat (map recs (head_list hm (Suc 0))) = concat (map ct (concat (map ids (head_list hm (Suc 0)))))"
    by blast
  then have "it_remaining hm ids ct it (ct ?p) vs = concat (map recs (head_list hm 0))"
    using recs p vs hl by (simp add: it_rest_def it_def)
  then show ?thesis using find_next_spec [OF inv S P refl] bg by simp
qed

lemma distinct_records:
  assumes I: "hm_inv bs hm recs" and "distinct L" and "set L \<subseteq> hm_heads hm"
  shows "distinct (map (fst \<circ> kv) (concat (map recs L)))"
  using assms(2,3)
proof (induction L)
  case (Cons q L)
  note i = hm_invD [OF I]
  have sep: False if "r \<in> set (recs q)" "p \<in> set L" "r' \<in> set (recs p)" "fst (kv r') = fst (kv r)" for r r' p
  proof -
    have "rv_hash r = rv_hash r'" using that(4) by (simp add: kv_def)
    then have "p = q" using i(4) that(1-3) Cons.prems(2) by (metis list.set_intros subsetD)
    then show False using that(2) Cons.prems(1) by simp
  qed
  have "set (map (fst \<circ> kv) (recs q)) \<inter> set (map (fst \<circ> kv) (concat (map recs L))) = {}"
    using sep by (auto simp: disjoint_iff)
  then show ?case using Cons i(5) [of q] by (simp add: o_def)
qed simp

text \<open>What a pass over the map sees is an enumeration of its contents.\<close>

lemma hm_iterate_spec:
  assumes "hm_repr bs hm m"
  shows "\<exists>it ys. hm_begin bs hm = Some (Inr it) \<and> it_collect bs hm it [] = Some (Inr (map (\<lambda>((h, k), v). (k, v)) ys))
    \<and> distinct (map fst ys) \<and> (\<forall>hk v. (hk, v) \<in> set ys \<longleftrightarrow> m hk = Some v)"
proof -
  from assms obtain recs where I: "hm_inv bs hm recs" and m: "m = hm_abs hm recs" unfolding hm_repr_def by blast
  note i = hm_invD [OF I]
  from i(3) obtain fs ids ct where S: "store_by bs (hm_container hm) fs (hm_heads hm) ids ct"
    and recs: "\<forall>p \<in> hm_heads hm. recs p = concat (map ct (ids p))" unfolding store_def by blast
  let ?R = "concat (map recs (head_list hm 0))"
  obtain it where it: "hm_begin bs hm = Some (Inr it)" "it_ready hm ids ct it ?R"
    using hm_begin_spec [OF i(1) S recs] by blast
  have "it_collect bs hm it [] = Some (Inr (map (\<lambda>((h, k), v). (k, v)) (map kv ?R)))"
    using it_collect_spec [OF i(1) S it(2), of "[]"] by (simp add: kvp_def kv_def o_def)
  moreover have dist: "distinct (map fst (map kv ?R))"
    using distinct_records [OF I head_list_distinct [OF i(2), of 0]] head_list_set [of hm] by simp
  moreover have "((h, k), v) \<in> set (map kv ?R) \<longleftrightarrow> m (h, k) = Some v" for h k v
  proof -
    have "((h, k), v) \<in> set (map kv ?R) \<longleftrightarrow> ((h, k), v) \<in> set (map kv (recs (hm_head hm h)))"
      using i(4,10) head_list_set [of hm] by (fastforce simp: kv_def)
    also have "\<dots> \<longleftrightarrow> m (h, k) = Some v"
      using i(5) [OF i(10) [of h]] by (simp add: m hm_abs_def lookup_def)
    finally show ?thesis .
  qed
  ultimately show ?thesis using it(1) by (metis surj_pair)
qed

definition hm_listing :: "nat \<Rightarrow> hash_map \<Rightarrow> (bytes \<times> bytes) list result option" where
  "hm_listing bs hm = bind_o (hm_begin bs hm) (\<lambda>it. it_collect bs hm it [])"

interpretation hm_it: iterable_store "hm_repr bs" hm_rw "hm_room os bs" "\<lambda>hm. sv_read bs (hm_container hm)" "hm_find bs" "hm_get os bs"
  "hm_remove bs" fnv1a "hm_holds bs" "hm_listing bs" for os bs
proof
  fix s m
  assume "hm_repr bs s m"
  from hm_iterate_spec [OF this] show "\<exists>ys. hm_listing bs s = Some (Inr (map (\<lambda>((h, k), v). (k, v)) ys))
    \<and> distinct (map fst ys) \<and> (\<forall>hk v. (hk, v) \<in> set ys \<longleftrightarrow> m hk = Some v)"
    unfolding hm_listing_def by (metis bind_o_simps(3))
qed

end
