(* ===== verification/Hash_Map_Traces.thy ===== *)
theory Hash_Map_Traces
  imports Hash_Map_Iterator
begin

text \<open>
  The hash map under sequences of calls. \<open>hm_do\<close> is one call with its answer copied out of the mapped
  memory, \<open>hm_run\<close> a sequence of them, and \<open>spec_do\<close>, \<open>spec_run\<close> are the same on a map from hashes and
  keys to values. \<open>hm_reach\<close> are the hash maps that calls can lead to from empty files. The
  properties of the hash map of \<^verbatim>\<open>src/src/hash_map.h\<close> are stated here.
\<close>

section \<open>Calls and their specification\<close>

datatype hm_op = Get hash_t bytes bytes | Find hash_t bytes | Remove hash_t bytes

datatype hm_answer = Value "bytes option" | Removed bool

text \<open>The bytes behind an optional view.\<close>

definition read_view :: "nat \<Rightarrow> hash_map \<Rightarrow> string_view option \<Rightarrow> bytes option result" where
  "read_view bs hm res =
     (case res of None \<Rightarrow> Inr None | Some sv \<Rightarrow> bind_r (sv_read bs (hm_container hm) sv) (\<lambda>v. Inr (Some v)))"

fun hm_do :: "os_env \<Rightarrow> nat \<Rightarrow> hash_map \<Rightarrow> hm_op \<Rightarrow> (hash_map \<times> hm_answer) result option" where
  "hm_do os bs hm (Get h k d) =
     bind_o (hm_get os bs hm h k d) (\<lambda>(hm, res). bind_o (Some (read_view bs hm res)) (\<lambda>v. Some (Inr (hm, Value v))))"
| "hm_do os bs hm (Find h k) =
     bind_o (hm_find bs hm h k) (\<lambda>res. bind_o (Some (read_view bs hm res)) (\<lambda>v. Some (Inr (hm, Value v))))"
| "hm_do os bs hm (Remove h k) =
     bind_o (hm_remove bs hm h k) (\<lambda>(hm, b). Some (Inr (hm, Removed b)))"

fun hm_run :: "os_env \<Rightarrow> nat \<Rightarrow> hash_map \<Rightarrow> hm_op list \<Rightarrow> (hash_map \<times> hm_answer list) result option" where
  "hm_run os bs hm [] = Some (Inr (hm, []))"
| "hm_run os bs hm (x # xs) =
     bind_o (hm_do os bs hm x) (\<lambda>(hm, a). bind_o (hm_run os bs hm xs) (\<lambda>(hm, as). Some (Inr (hm, a # as))))"

fun spec_do :: "contents \<Rightarrow> hm_op \<Rightarrow> contents \<times> hm_answer" where
  "spec_do m (Get h k d) =
     (case m (h, k) of Some v \<Rightarrow> (m, Value (Some v)) | None \<Rightarrow> (m((h, k) \<mapsto> d), Value (Some d)))"
| "spec_do m (Find h k) = (m, Value (m (h, k)))"
| "spec_do m (Remove h k) = (m((h, k) := None), Removed (m (h, k) \<noteq> None))"

fun spec_run :: "contents \<Rightarrow> hm_op list \<Rightarrow> contents \<times> hm_answer list" where
  "spec_run m [] = (m, [])"
| "spec_run m (x # xs) = (let (m, a) = spec_do m x; (m, as) = spec_run m xs in (m, a # as))"

text \<open>What the system and the caller owe before a call: room for the record a \<open>get\<close> may store.\<close>

fun op_served :: "os_env \<Rightarrow> nat \<Rightarrow> hash_map \<Rightarrow> hm_op \<Rightarrow> bool" where
  "op_served os bs hm (Get h k d) = hm_room os bs hm k d"
| "op_served os bs hm _ = True"

fun run_served :: "os_env \<Rightarrow> nat \<Rightarrow> hash_map \<Rightarrow> hm_op list \<Rightarrow> bool" where
  "run_served os bs hm [] = True"
| "run_served os bs hm (x # xs) =
     (op_served os bs hm x \<and> (case hm_do os bs hm x of Some (Inr (hm, _)) \<Rightarrow> run_served os bs hm xs | _ \<Rightarrow> True))"

lemma read_view_shown: "shown bs (hm_container hm) ov res \<Longrightarrow> read_view bs hm res = Inr ov"
  by (cases ov) (auto simp: shown_def read_view_def)

text \<open>One call refines its specification.\<close>

lemma hm_do_spec:
  assumes R: "hm_repr bs hm m" and rw: "hm_rw hm" and x: "op_served os bs hm x"
  shows "\<exists>hm'. hm_do os bs hm x = Some (Inr (hm', snd (spec_do m x))) \<and> hm_repr bs hm' (fst (spec_do m x)) \<and> hm_rw hm'"
proof (cases x)
  case (Get h k d)
  show ?thesis
  proof (cases "m (h, k)")
    case None
    obtain hm' sv where "hm_get os bs hm h k d = Some (Inr (hm', Some sv))" "sv_read bs (hm_container hm') sv = Inr d"
      "hm_repr bs hm' (m((h, k) \<mapsto> d))" "hm_rw hm'"
      using hm_kv.get_absent [OF R rw _ None, of os d] x Get by auto
    then show ?thesis using None Get by (simp add: read_view_def)
  next
    case (Some v)
    with hm_get_found [OF R Some, of os d] R rw Get show ?thesis by (auto simp: read_view_def)
  qed
next
  case (Find h k)
  obtain res where "hm_find bs hm h k = Some (Inr res)" "read_view bs hm res = Inr (m (h, k))"
    using hm_find_spec [OF R, of h k] read_view_shown by blast
  then show ?thesis using Find R rw by simp
next
  case (Remove h k)
  with hm_remove_spec [OF R rw, of h k] show ?thesis by auto
qed

lemma hm_run_spec:
  "hm_repr bs hm m \<Longrightarrow> hm_rw hm \<Longrightarrow> run_served os bs hm xs \<Longrightarrow>
    \<exists>hm'. hm_run os bs hm xs = Some (Inr (hm', snd (spec_run m xs))) \<and> hm_repr bs hm' (fst (spec_run m xs)) \<and> hm_rw hm'"
proof (induction xs arbitrary: hm m)
  case (Cons x xs)
  have "op_served os bs hm x" using Cons.prems(3) by simp
  with Cons.prems(1,2) obtain hm1 where d: "hm_do os bs hm x = Some (Inr (hm1, snd (spec_do m x)))"
    "hm_repr bs hm1 (fst (spec_do m x))" "hm_rw hm1" using hm_do_spec by blast
  moreover have "run_served os bs hm1 xs" using Cons.prems(3) d(1) by simp
  ultimately obtain hm2 where "hm_run os bs hm1 xs = Some (Inr (hm2, snd (spec_run (fst (spec_do m x)) xs)))"
    "hm_repr bs hm2 (fst (spec_run (fst (spec_do m x)) xs))" "hm_rw hm2" using Cons.IH by blast
  then show ?case using d(1) by (simp add: split_def Let_def)
qed simp

text \<open>The hash maps that calls lead to.\<close>

inductive hm_reach :: "os_env \<Rightarrow> nat \<Rightarrow> hash_map \<Rightarrow> bool" for os bs where
  opened: "hm_open os bs f False empty_cat_layout (empty_cont_layout bs) = Inr hm \<Longrightarrow>
    os_opens os (f @ ''cat'') \<Longrightarrow> os_opens os (f @ ''dat'') \<Longrightarrow> hm_reach os bs hm"
| called: "hm_reach os bs hm \<Longrightarrow> op_served os bs hm x \<Longrightarrow> hm_do os bs hm x = Some (Inr (hm', a)) \<Longrightarrow>
    hm_reach os bs hm'"

lemma hm_reach_repr:
  assumes "hm_reach os bs hm" and os: "os_serves os" "capacity os bs 2" "bs < 2 ^ 31"
  shows "\<exists>m. hm_repr bs hm m \<and> hm_rw hm"
  using assms(1)
proof induction
  case (opened f hm)
  with hm_open_fresh [OF os(1) opened(2,3) os(2,3)] show ?case by auto
next
  case (called hm x hm' a)
  with hm_do_spec show ?case by fastforce
qed

section \<open>Examples\<close>

text \<open>A hash map with a catalogue of two entries and two buckets of 64 bytes, the first of which holds
  one record.\<close>

definition demo_hm :: hash_map where
  "demo_hm = \<lparr>hm_catalogue = demo_cat,
     hm_container = demo_cont\<lparr>c_count := 2, c_buckets := (\<lambda>i. if i = 0 then c_buckets demo_cont 0
       else \<lparr>b_prefix_bits = 1, b_bytes_used = 0, b_next = INVALID_BUCKET_ID, b_data = replicate 64 0\<rparr>)\<rparr>\<rparr>"

definition demo_map :: contents where
  "demo_map = [(7, [1]) \<mapsto> [2]]"

lemma demo_heads: "hm_heads demo_hm = {0, 1}" "hm_head demo_hm 7 = 0"
proof -
  have "{..<2 :: nat} = {0, 1}" by auto
  then show "hm_heads demo_hm = {0, 1}" by (simp add: hm_heads_def demo_hm_def demo_cat_def)
  show "hm_head demo_hm 7 = 0" by (simp add: hm_head_def demo_hm_def demo_cat_def prefix_of_def)
qed

lemma demo_hm_store: "store 64 (hm_container demo_hm) {0, 1} (\<lambda>p. if p = 0 then [demo_record] else [])"
proof -
  have "store_by 64 (hm_container demo_hm) [] {0, 1} (\<lambda>p. [p]) (\<lambda>p. if p = 0 then [demo_record] else [])"
    by (auto simp: store_by_def cont_inv_def holds_chain_def demo_hm_def demo_cont_def demo_fm_def readable_def bucket_off_def
        bucket_size_def bucket_header_size_def cont_header_size_def INVALID_ID_def INVALID_BUCKET_ID_def nexts_def
        bucket_holds_def demo_enc)
  then show ?thesis
    unfolding store_def by (intro exI [of _ "[]"] exI [of _ "\<lambda>p. [p]"] exI [of _ "\<lambda>p. if p = 0 then [demo_record] else []"]) simp
qed

lemma demo_hm_repr: "hm_repr 64 demo_hm demo_map" "hm_rw demo_hm" "c_count (hm_container demo_hm) = 2"
proof -
  let ?recs = "\<lambda>p. if p = 0 then [demo_record] else []"
  have cat: "hm_catalogue demo_hm = demo_cat" "hm_bits demo_hm = 1" "cat_buffer demo_cat = (\<lambda>i. i)"
    by (simp_all add: demo_hm_def demo_cat_def)
  have "hm_depth demo_hm p = 1" for p by (simp add: hm_depth_def demo_hm_def demo_cont_def)
  then have "dir_ok (hm_bits demo_hm) (cat_buffer (hm_catalogue demo_hm)) (hm_depth demo_hm)"
    unfolding dir_ok_def cat(2) by (simp add: cat(1,3))
  moreover have "rv_hash demo_record = 7" by (simp add: demo_record_def)
  ultimately have "hm_inv 64 demo_hm ?recs"
    using demo_cat_inv(1) demo_hm_store by (simp add: hm_inv_def demo_heads cat demo_cat_inv(3))
  moreover have "demo_map = hm_abs demo_hm ?recs"
  proof (rule ext, clarify)
    fix h :: hash_t and k
    show "demo_map (h, k) = hm_abs demo_hm ?recs (h, k)"
      using demo_heads(2) by (cases "h = 7") (auto simp: demo_map_def hm_abs_def lookup_def kv_def demo_record_def)
  qed
  ultimately show "hm_repr 64 demo_hm demo_map" unfolding hm_repr_def by blast
  show "hm_rw demo_hm" by (simp add: hm_rw_def demo_hm_def demo_cont_def cont_rw_def demo_cat_def demo_fm_def)
  show "c_count (hm_container demo_hm) = 2" by (simp add: demo_hm_def)
qed

lemma demo_room: "hm_room demo_os 64 demo_hm [3] [4]"
  using demo_capacity [of 4] by (simp add: hm_room_def hm_capacity_def demo_os_serves(1) demo_hm_repr(3) demo_fits)

lemma demo_reach:
  obtains hm where "hm_open demo_os 64 ''db'' False empty_cat_layout (empty_cont_layout 64) = Inr hm" and "hm_reach demo_os 64 hm"
proof -
  have "\<exists>hm. hm_open demo_os 64 ''db'' False empty_cat_layout (empty_cont_layout 64) = Inr hm"
    using hm_open_fresh [OF demo_os_serves(1), of "''db''" 64] demo_os_serves demo_capacity [of 2] by auto
  then show ?thesis using that hm_reach.opened demo_os_serves(2) by blast
qed

section \<open>Properties\<close>

text \<open>C1. The hash map implements a map from hashes and keys to values: any sequence of \<open>get\<close>, \<open>find\<close> and
  \<open>remove\<close>, with whatever splits of chains and of the catalogue it causes, returns the answers of the
  specification and ends in a hash map that holds what the specification holds.\<close>

theorem hash_map_refines:
  assumes "hm_repr bs hm m" and "hm_rw hm" and "run_served os bs hm xs"
  shows "\<exists>hm'. hm_run os bs hm xs = Some (Inr (hm', snd (spec_run m xs))) \<and> hm_repr bs hm' (fst (spec_run m xs)) \<and> hm_rw hm'"
  by (rule hm_run_spec [OF assms])

theorem hash_map_refines_witness:
  "\<exists>hm'. hm_run demo_os 64 demo_hm [Find 7 [1], Get 5 [3] [4], Find 5 [3], Remove 7 [1], Find 7 [1]] =
      Some (Inr (hm', [Value (Some [2]), Value (Some [4]), Value (Some [4]), Removed True, Value None]))
    \<and> hm_repr 64 hm' [(5, [3]) \<mapsto> [4]] \<and> hm_rw hm'"
proof -
  let ?xs = "[Find 7 [1], Get 5 [3] [4], Find 5 [3], Remove 7 [1], Find 7 [1]]"
  have fnd: "\<exists>res. hm_find 64 demo_hm 7 [1] = Some (Inr res) \<and> read_view 64 demo_hm res = Inr (demo_map (7, [1]))"
    using hm_find_spec [OF demo_hm_repr(1), of 7 "[1]"] read_view_shown by blast
  then have "run_served demo_os 64 demo_hm ?xs"
    by (auto simp: demo_room split: option.splits sum.splits)
  moreover have "spec_run demo_map ?xs = ([(5, [3]) \<mapsto> [4]], [Value (Some [2]), Value (Some [4]), Value (Some [4]), Removed True, Value None])"
    by (auto simp: demo_map_def fun_eq_iff)
  ultimately show ?thesis using hash_map_refines [OF demo_hm_repr(1,2), of demo_os ?xs] by simp
qed

text \<open>On empty files the constructor makes an empty, writable hash map.\<close>

theorem hash_map_opens_empty:
  assumes "os_serves os" and "os_opens os (f @ ''cat'')" and "os_opens os (f @ ''dat'')" and "capacity os bs 2" and "bs < 2 ^ 31"
  shows "\<exists>hm. hm_open os bs f False empty_cat_layout (empty_cont_layout bs) = Inr hm \<and> hm_repr bs hm (\<lambda>_. None) \<and> hm_rw hm"
  using hm_open_fresh [OF assms] by blast

theorem hash_map_opens_empty_witness:
  "\<exists>hm. hm_open demo_os 64 ''db'' False empty_cat_layout (empty_cont_layout 64) = Inr hm \<and> hm_repr 64 hm (\<lambda>_. None) \<and> hm_rw hm"
  by (rule hash_map_opens_empty) (simp_all add: demo_os_serves demo_capacity)

text \<open>C5. Every hash map that calls lead to from empty files satisfies the invariant of the structure: the
  catalogue's entries name the heads of disjoint chains by their prefixes, every record is in the chain
  its hash selects, no pair of hash and key is stored twice, and every bucket of the file is in exactly
  one chain or on the free list.\<close>

theorem hash_map_invariant:
  assumes "hm_reach os bs hm" and "os_serves os" and "capacity os bs 2" and "bs < 2 ^ 31"
  shows "\<exists>recs. hm_inv bs hm recs"
  using hm_reach_repr [OF assms] by (auto simp: hm_repr_def)

theorem hash_map_invariant_witness:
  "\<exists>hm recs. hm_open demo_os 64 ''db'' False empty_cat_layout (empty_cont_layout 64) = Inr hm \<and> hm_inv 64 hm recs"
proof -
  obtain hm where hm: "hm_open demo_os 64 ''db'' False empty_cat_layout (empty_cont_layout 64) = Inr hm" and reach: "hm_reach demo_os 64 hm"
    by (rule demo_reach)
  from reach have "\<exists>recs. hm_inv 64 hm recs" by (rule hash_map_invariant) (simp_all add: demo_os_serves demo_capacity)
  with hm show ?thesis by blast
qed

text \<open>C35. The catalogue stays proportional to the data: it never has more than twice as many entries as the
  file has buckets.\<close>

theorem hash_map_catalogue_bound:
  assumes "hm_reach os bs hm" and "os_serves os" and "capacity os bs 2" and "bs < 2 ^ 31"
  shows "cat_buffer_size (hm_catalogue hm) \<le> 2 * buckets_count (hm_container hm)"
proof -
  from hm_reach_repr [OF assms] obtain recs where I: "hm_inv bs hm recs" by (auto simp: hm_repr_def)
  note i = hm_invD [OF I]
  have "0 < c_count (hm_container hm)" using store_get_bucket(2) [OF i(3) i(10) [of 0]] by simp
  moreover have "(2 :: nat) ^ hm_bits hm = 2 * 2 ^ (hm_bits hm - 1)" using i(7) by (cases "hm_bits hm") simp_all
  ultimately have "2 ^ hm_bits hm \<le> 2 * c_count (hm_container hm)" using i(6) by auto
  moreover have "cat_buffer_size (hm_catalogue hm) = 2 ^ hm_bits hm" using i(1) by (simp add: cat_inv_def)
  ultimately show ?thesis by (simp add: buckets_count_def)
qed

theorem hash_map_catalogue_bound_witness:
  "\<exists>hm. hm_open demo_os 64 ''db'' False empty_cat_layout (empty_cont_layout 64) = Inr hm
    \<and> cat_buffer_size (hm_catalogue hm) \<le> 2 * buckets_count (hm_container hm)"
proof -
  obtain hm where hm: "hm_open demo_os 64 ''db'' False empty_cat_layout (empty_cont_layout 64) = Inr hm" and reach: "hm_reach demo_os 64 hm"
    by (rule demo_reach)
  from reach have "cat_buffer_size (hm_catalogue hm) \<le> 2 * buckets_count (hm_container hm)"
    by (rule hash_map_catalogue_bound) (simp_all add: demo_os_serves demo_capacity)
  with hm show ?thesis by blast
qed

text \<open>C19. Making room before a record is stored, by doubling the catalogue or splitting a chain, ends, fails
  no assertion, changes nothing the map holds, and yields the bucket that the catalogue has for the hash
  from then on.\<close>

theorem make_room_keeps_contents:
  assumes "hm_repr bs hm m" and "hm_rw hm" and "os_serves os" and "hm_capacity os bs hm"
  shows "\<exists>hm' p p'. cat_find (hm_catalogue hm) h = Inr p \<and> hm_make_room os bs hm h p = Some (Inr (hm', p'))
    \<and> cat_find (hm_catalogue hm') h = Inr p' \<and> hm_repr bs hm' m \<and> hm_rw hm'"
proof -
  from assms(1) obtain recs where I: "hm_inv bs hm recs" and m: "m = hm_abs hm recs" unfolding hm_repr_def by blast
  from hm_make_room_spec [OF I assms(2-4), of h] obtain hm' recs' where
    r: "hm_make_room os bs hm h (hm_head hm h) = Some (Inr (hm', hm_head hm' h))" "hm_inv bs hm' recs'" "hm_rw hm'"
      "hm_abs hm' recs' = hm_abs hm recs" by blast
  then have "hm_repr bs hm' m" unfolding hm_repr_def m by metis
  then show ?thesis using r(1,3) hm_invD(9) [OF I, of h] hm_invD(9) [OF r(2), of h] by blast
qed

theorem make_room_keeps_contents_witness:
  "\<exists>hm' p p'. cat_find (hm_catalogue demo_hm) 7 = Inr p \<and> hm_make_room demo_os 64 demo_hm 7 p = Some (Inr (hm', p'))
    \<and> cat_find (hm_catalogue hm') 7 = Inr p' \<and> hm_repr 64 hm' demo_map \<and> hm_rw hm'"
  using make_room_keeps_contents [OF demo_hm_repr(1,2) demo_os_serves(1), of 7] demo_room by (simp add: hm_room_def)

text \<open>C20. A loop from \<open>begin()\<close> to \<open>end()\<close> ends and sees every stored pair exactly once.\<close>

theorem hash_map_iterates:
  assumes "hm_repr bs hm m"
  shows "\<exists>it ys. hm_begin bs hm = Some (Inr it) \<and> it_collect bs hm it [] = Some (Inr (map (\<lambda>((h, k), v). (k, v)) ys))
    \<and> distinct (map fst ys) \<and> (\<forall>hk v. (hk, v) \<in> set ys \<longleftrightarrow> m hk = Some v)"
  by (rule hm_iterate_spec [OF assms])

theorem hash_map_iterates_witness:
  "\<exists>it. hm_begin 64 demo_hm = Some (Inr it) \<and> it_collect 64 demo_hm it [] = Some (Inr [([1], [2])])"
proof -
  from hash_map_iterates [OF demo_hm_repr(1)] obtain it ys where
    it: "hm_begin 64 demo_hm = Some (Inr it)" "it_collect 64 demo_hm it [] = Some (Inr (map (\<lambda>((h, k), v). (k, v)) ys))"
    and ys: "distinct (map fst ys)" "\<forall>hk v. (hk, v) \<in> set ys \<longleftrightarrow> demo_map hk = Some v" by blast
  have "(hk, v) \<in> set ys \<longleftrightarrow> hk = (7, [1]) \<and> v = [2]" for hk v
    using spec [OF spec [OF ys(2), of hk], of v] by (auto simp: demo_map_def split: if_splits)
  then have "set ys = {((7, [1]), [2])}" by auto
  moreover have "distinct ys" using ys(1) by (simp add: distinct_map)
  ultimately have "ys = [((7, [1]), [2])]" by (cases ys; cases "tl ys") auto
  with it show ?thesis by simp
qed

end
