(* ===== verification/Sharded_Hash_Map.thy ===== *)
theory Sharded_Hash_Map
  imports Hash_Map_Traces
begin

text \<open>
  The store of the server, \<^verbatim>\<open>src/src/server/sharded_hash_map.h\<close>: hash maps selected by the hash of
  the key. Every member function holds the mutex of the shard it works on from before the first to
  after the last access (shared for \<open>get\<close> and \<open>keys\<close>, exclusive for the others), so a call is one
  step of the model; \<open>keys\<close> takes the mutexes one after the other. The theory \<^verbatim>\<open>Sharded_Concurrency\<close> has the
  interleaved calls.
\<close>

section \<open>Model\<close>

abbreviation BS :: nat where
  "BS \<equiv> DEFAULT_BUCKET_SIZE"

record sharded_hash_map =
  sh_shards :: "hash_map list"
  sh_num_shards :: nat

text \<open>\<^verbatim>\<open>std::to_string\<close> on a \<^verbatim>\<open>size_t\<close>.\<close>

fun to_string :: "nat \<Rightarrow> string" where
  "to_string n = (if n < 10 then [char_of (48 + n)] else to_string (n div 10) @ [char_of (48 + n mod 10)])"

declare to_string.simps [simp del]

definition shard_path :: "string \<Rightarrow> nat \<Rightarrow> string" where
  "shard_path base_path i = base_path @ ''_shard'' @ to_string i"

text \<open>The constructor, on files with the given contents: \<open>n\<close> shards from shard \<open>i\<close> on.\<close>

primrec sh_open_loop ::
  "os_env \<Rightarrow> string \<Rightarrow> (string \<Rightarrow> cat_layout) \<Rightarrow> (string \<Rightarrow> cont_layout) \<Rightarrow> nat \<Rightarrow> nat \<Rightarrow> hash_map list result" where
  "sh_open_loop os base_path cats dats i 0 = Inr []"
| "sh_open_loop os base_path cats dats i (Suc n) =
     (let path = shard_path base_path i in
      bind_r (hm_open os BS path False (cats path) (dats path)) (\<lambda>hm.
      bind_r (sh_open_loop os base_path cats dats (i + 1) n) (\<lambda>hms. Inr (hm # hms))))"

definition sh_open ::
  "os_env \<Rightarrow> string \<Rightarrow> nat \<Rightarrow> (string \<Rightarrow> cat_layout) \<Rightarrow> (string \<Rightarrow> cont_layout) \<Rightarrow> sharded_hash_map result" where
  "sh_open os base_path num_shards cats dats =
     bind_r (sh_open_loop os base_path cats dats 0 num_shards) (\<lambda>hms.
     Inr \<lparr>sh_shards = hms, sh_num_shards = num_shards\<rparr>)"

text \<open>\<open>shard_index\<close>: a division by zero when there are no shards.\<close>

definition shard_index :: "sharded_hash_map \<Rightarrow> bytes \<Rightarrow> nat result" where
  "shard_index s key = (if sh_num_shards s = 0 then Inl Undefined else Inr (unat (fnv1a key) mod sh_num_shards s))"

definition hash_key :: "bytes \<Rightarrow> hash_t" where
  "hash_key key = fnv1a key"

text \<open>The shard of a key: \<^verbatim>\<open>shards_[shard_index(key)]\<close>.\<close>

definition shard_of :: "sharded_hash_map \<Rightarrow> bytes \<Rightarrow> (nat \<times> hash_map) result" where
  "shard_of s key =
     bind_r (shard_index s key) (\<lambda>idx.
     if idx < length (sh_shards s) then Inr (idx, sh_shards s ! idx) else Inl Undefined)"

definition sh_put_shard :: "sharded_hash_map \<Rightarrow> nat \<Rightarrow> hash_map \<Rightarrow> sharded_hash_map" where
  "sh_put_shard s idx hm = s\<lparr>sh_shards := (sh_shards s)[idx := hm]\<rparr>"

definition sh_get :: "sharded_hash_map \<Rightarrow> bytes \<Rightarrow> bytes option result option" where
  "sh_get s key =
     bind_o (Some (shard_of s key)) (\<lambda>(idx, hm).
     bind_o (hm_find BS hm (hash_key key) key) (\<lambda>result.
     case result of
       Some sv \<Rightarrow> bind_o (Some (sv_read BS (hm_container hm) sv)) (\<lambda>v. Some (Inr (Some v)))
     | None \<Rightarrow> Some (Inr None)))"

definition sh_set :: "os_env \<Rightarrow> sharded_hash_map \<Rightarrow> bytes \<Rightarrow> bytes \<Rightarrow> (sharded_hash_map \<times> bool) result option" where
  "sh_set os s key value =
     bind_o (Some (shard_of s key)) (\<lambda>(idx, hm).
     bind_o (hm_find BS hm (hash_key key) key) (\<lambda>found.
     if found \<noteq> None then Some (Inr (s, False))
     else
       bind_o (hm_get os BS hm (hash_key key) key value) (\<lambda>(hm, _).
       Some (Inr (sh_put_shard s idx hm, True)))))"

definition sh_remove :: "sharded_hash_map \<Rightarrow> bytes \<Rightarrow> (sharded_hash_map \<times> bool) result option" where
  "sh_remove s key =
     bind_o (Some (shard_of s key)) (\<lambda>(idx, hm).
     bind_o (hm_remove BS hm (hash_key key) key) (\<lambda>(hm, removed).
     Some (Inr (sh_put_shard s idx hm, removed))))"

text \<open>\<open>keys\<close>: the keys of one shard after the other.\<close>

primrec sh_keys_loop :: "hash_map list \<Rightarrow> bytes list \<Rightarrow> bytes list result option" where
  "sh_keys_loop [] acc = Some (Inr acc)"
| "sh_keys_loop (hm # hms) acc =
     bind_o (hm_listing BS hm) (\<lambda>xs. sh_keys_loop hms (acc @ map fst xs))"

definition sh_keys :: "sharded_hash_map \<Rightarrow> bytes list result option" where
  "sh_keys s = sh_keys_loop (sh_shards s) []"

primrec sh_close_loop :: "os_env \<Rightarrow> hash_map list \<Rightarrow> hash_map list \<times> unit result" where
  "sh_close_loop os [] = ([], Inr ())"
| "sh_close_loop os (hm # hms) =
     (let (hm, r) = hm_close os hm in
      case r of
        Inl e \<Rightarrow> (hm # hms, Inl e)
      | Inr _ \<Rightarrow> let (hms, r) = sh_close_loop os hms in (hm # hms, r))"

definition sh_close :: "os_env \<Rightarrow> sharded_hash_map \<Rightarrow> sharded_hash_map \<times> unit result" where
  "sh_close os s = (let (hms, r) = sh_close_loop os (sh_shards s) in (s\<lparr>sh_shards := hms\<rparr>, r))"

section \<open>One map from keys to values\<close>

definition sh_idx :: "sharded_hash_map \<Rightarrow> bytes \<Rightarrow> nat" where
  "sh_idx s key = unat (fnv1a key) mod sh_num_shards s"

definition shard_part :: "sharded_hash_map \<Rightarrow> key_contents \<Rightarrow> nat \<Rightarrow> key_contents" where
  "shard_part s mk i = (\<lambda>k. if sh_idx s k = i then mk k else None)"

definition sh_holds :: "sharded_hash_map \<Rightarrow> key_contents \<Rightarrow> bool" where
  "sh_holds s mk \<longleftrightarrow> 0 < sh_num_shards s \<and> length (sh_shards s) = sh_num_shards s
     \<and> (\<forall>i < sh_num_shards s. hm_holds BS (sh_shards s ! i) (shard_part s mk i) \<and> hm_rw (sh_shards s ! i))"

definition sh_room :: "os_env \<Rightarrow> sharded_hash_map \<Rightarrow> bytes \<Rightarrow> bytes \<Rightarrow> bool" where
  "sh_room os s k v \<longleftrightarrow> hm_room os BS (sh_shards s ! sh_idx s k) k v"

lemma sh_holdsD:
  assumes "sh_holds s mk"
  shows "shard_of s k = Inr (sh_idx s k, sh_shards s ! sh_idx s k)" "sh_idx s k < sh_num_shards s"
    "hm_holds BS (sh_shards s ! sh_idx s k) (shard_part s mk (sh_idx s k))" "hm_rw (sh_shards s ! sh_idx s k)"
    "shard_part s mk (sh_idx s k) k = mk k"
  using assms by (auto simp: sh_holds_def shard_of_def shard_index_def sh_idx_def shard_part_def)

lemma sh_put_shard_fields [simp]:
  "sh_num_shards (sh_put_shard s i hm) = sh_num_shards s" "sh_shards (sh_put_shard s i hm) = (sh_shards s)[i := hm]"
  "sh_idx (sh_put_shard s i hm) = sh_idx s"
  by (simp_all add: sh_put_shard_def sh_idx_def fun_eq_iff)

text \<open>A change to the shard of a key is a change of the map at that key.\<close>

lemma sh_holds_upd:
  assumes S: "sh_holds s mk" and hm: "hm_holds BS hm ((shard_part s mk (sh_idx s k))(k := ov))" "hm_rw hm"
  shows "sh_holds (sh_put_shard s (sh_idx s k) hm) (mk(k := ov))"
proof -
  let ?s = "sh_put_shard s (sh_idx s k) hm"
  have part: "shard_part ?s (mk(k := ov)) i = (if i = sh_idx s k then (shard_part s mk i)(k := ov) else shard_part s mk i)" for i
    by (auto simp: shard_part_def fun_eq_iff)
  show ?thesis using S hm sh_holdsD(2) [OF S, of k] unfolding sh_holds_def part by (auto simp: nth_list_update)
qed

lemma sh_get_spec:
  assumes S: "sh_holds s mk"
  shows "sh_get s k = Some (Inr (mk k))"
proof -
  note s = sh_holdsD [OF S, of k]
  show ?thesis
  proof (cases "mk k")
    case None
    then show ?thesis using hm_kv.key_find_absent [OF s(3)] s(1,5) by (simp add: sh_get_def hash_key_def)
  next
    case (Some v)
    then have "shard_part s mk (sh_idx s k) k = Some v" using s(5) by simp
    then obtain sv where "hm_find BS (sh_shards s ! sh_idx s k) (fnv1a k) k = Some (Inr (Some sv))"
      "sv_read BS (hm_container (sh_shards s ! sh_idx s k)) sv = Inr v" by (rule hm_kv.key_find_present [OF s(3)])
    then show ?thesis using s(1) Some by (simp add: sh_get_def hash_key_def)
  qed
qed

lemma sh_set_spec:
  assumes S: "sh_holds s mk"
  shows "mk k = Some v' \<Longrightarrow> sh_set os s k v = Some (Inr (s, False))"
    and "mk k = None \<Longrightarrow> sh_room os s k v \<Longrightarrow> \<exists>s'. sh_set os s k v = Some (Inr (s', True)) \<and> sh_holds s' (mk(k \<mapsto> v))"
proof -
  note s = sh_holdsD [OF S, of k]
  show "sh_set os s k v = Some (Inr (s, False))" if "mk k = Some v'"
  proof -
    have "shard_part s mk (sh_idx s k) k = Some v'" using s(5) that by simp
    then obtain sv where "hm_find BS (sh_shards s ! sh_idx s k) (fnv1a k) k = Some (Inr (Some sv))"
      by (rule hm_kv.key_find_present [OF s(3)])
    then show ?thesis using s(1) by (simp add: sh_set_def hash_key_def)
  qed
  assume no: "mk k = None" and room: "sh_room os s k v"
  have "shard_part s mk (sh_idx s k) k = None" using s(5) no by simp
  then obtain hm' sv where "hm_find BS (sh_shards s ! sh_idx s k) (fnv1a k) k = Some (Inr None)"
    "hm_get os BS (sh_shards s ! sh_idx s k) (fnv1a k) k v = Some (Inr (hm', Some sv))"
    "hm_holds BS hm' ((shard_part s mk (sh_idx s k))(k \<mapsto> v))" "hm_rw hm'"
    by (rule hm_kv.key_put [OF s(3,4) room [unfolded sh_room_def]])
  then show "\<exists>s'. sh_set os s k v = Some (Inr (s', True)) \<and> sh_holds s' (mk(k \<mapsto> v))"
    using sh_holds_upd [OF S] s(1) by (auto simp: sh_set_def hash_key_def)
qed

lemma sh_remove_spec:
  assumes S: "sh_holds s mk"
  shows "\<exists>s'. sh_remove s k = Some (Inr (s', mk k \<noteq> None)) \<and> sh_holds s' (mk(k := None))"
proof -
  note s = sh_holdsD [OF S, of k]
  obtain hm' where
    "hm_remove BS (sh_shards s ! sh_idx s k) (fnv1a k) k = Some (Inr (hm', shard_part s mk (sh_idx s k) k \<noteq> None))"
    "hm_holds BS hm' ((shard_part s mk (sh_idx s k))(k := None))" "hm_rw hm'"
    by (rule hm_kv.key_remove [OF s(3,4)])
  then show ?thesis using sh_holds_upd [OF S] s(1,5) by (auto simp: sh_remove_def hash_key_def)
qed

lemma sh_keys_loop_spec:
  assumes "\<forall>i < length hms. hm_holds BS (hms ! i) (parts i)"
    and "\<forall>i < length hms. \<forall>j < length hms. i \<noteq> j \<longrightarrow> dom (parts i) \<inter> dom (parts j) = {}"
  shows "\<exists>ks. sh_keys_loop hms acc = Some (Inr (acc @ ks)) \<and> distinct ks \<and> set ks = (\<Union>i < length hms. dom (parts i))"
  using assms
proof (induction hms arbitrary: acc parts)
  case (Cons hm hms)
  have "hm_holds BS hm (parts 0)" using Cons.prems(1) by auto
  then obtain xs where xs: "hm_listing BS hm = Some (Inr xs)" "distinct (map fst xs)"
    "\<forall>k v. (k, v) \<in> set xs \<longleftrightarrow> parts 0 k = Some v" by (rule hm_it.key_lists)
  have dom0: "fst ` set xs = dom (parts 0)" using xs(3) by force
  have "\<forall>i < length hms. hm_holds BS (hms ! i) (parts (Suc i))"
    "\<forall>i < length hms. \<forall>j < length hms. i \<noteq> j \<longrightarrow> dom (parts (Suc i)) \<inter> dom (parts (Suc j)) = {}"
    using Cons.prems by auto
  from Cons.IH [OF this, of "acc @ map fst xs"] obtain ks where
    ks: "sh_keys_loop hms (acc @ map fst xs) = Some (Inr ((acc @ map fst xs) @ ks))" "distinct ks"
      "set ks = (\<Union>i < length hms. dom (parts (Suc i)))" by blast
  have "dom (parts 0) \<inter> set ks = {}" using Cons.prems(2) unfolding ks(3) by fastforce
  then have "distinct (map fst xs @ ks)" using xs(2) ks(2) dom0 by simp
  moreover have "set (map fst xs @ ks) = (\<Union>i < length (hm # hms). dom (parts i))"
    using dom0 ks(3) by (simp add: lessThan_Suc_eq_insert_0 image_image)
  ultimately show ?case using xs(1) ks(1) by (intro exI [of _ "map fst xs @ ks"]) simp
qed simp

lemma sh_keys_spec:
  assumes S: "sh_holds s mk"
  shows "\<exists>ks. sh_keys s = Some (Inr ks) \<and> distinct ks \<and> set ks = dom mk"
proof -
  have len: "length (sh_shards s) = sh_num_shards s" "0 < sh_num_shards s" using S by (simp_all add: sh_holds_def)
  have 1: "\<forall>i < length (sh_shards s). hm_holds BS (sh_shards s ! i) (shard_part s mk i)" using S by (simp add: sh_holds_def)
  have 2: "\<forall>i < length (sh_shards s). \<forall>j < length (sh_shards s). i \<noteq> j \<longrightarrow> dom (shard_part s mk i) \<inter> dom (shard_part s mk j) = {}"
    by (auto simp: shard_part_def dom_def)
  have "(\<Union>i < sh_num_shards s. dom (shard_part s mk i)) = dom mk"
    using len(2) by (auto simp: shard_part_def dom_def sh_idx_def split: if_splits)
  then show ?thesis using sh_keys_loop_spec [OF 1 2, of "[]"] len(1) by (auto simp: sh_keys_def)
qed

section \<open>Opening on empty files\<close>

lemma capacity_BS: "capacity os BS 4"
  by (cases "os_platform os")
    (simp_all add: capacity_def os_limit_def bucket_off_def bucket_size_def bucket_header_size_def cont_header_size_def DEFAULT_BUCKET_SIZE_def)

lemma hm_holds_empty: "hm_repr bs hm (\<lambda>_. None) \<Longrightarrow> hm_holds bs hm (\<lambda>_. None)"
proof -
  have "(\<lambda>(h, k). if h = fnv1a k then None else None) = (\<lambda>_. None :: bytes option)" by auto
  then show "hm_repr bs hm (\<lambda>_. None) \<Longrightarrow> hm_holds bs hm (\<lambda>_. None)" unfolding hm_holds_def by metis
qed

definition shard_files_open :: "os_env \<Rightarrow> string \<Rightarrow> nat \<Rightarrow> bool" where
  "shard_files_open os base_path i \<longleftrightarrow>
     os_opens os (shard_path base_path i @ ''cat'') \<and> os_opens os (shard_path base_path i @ ''dat'')"

lemma sh_open_loop_fresh:
  assumes os: "os_serves os"
  shows "\<forall>j < n. shard_files_open os base (i + j) \<Longrightarrow>
    \<exists>hms. sh_open_loop os base (\<lambda>_. empty_cat_layout) (\<lambda>_. empty_cont_layout BS) i n = Inr hms \<and> length hms = n
      \<and> (\<forall>hm \<in> set hms. hm_holds BS hm (\<lambda>_. None) \<and> hm_rw hm \<and> c_count (hm_container hm) \<le> 2)"
proof (induction n arbitrary: i)
  case (Suc n)
  have "shard_files_open os base i" using Suc.prems by auto
  then obtain hm where hm: "hm_open os BS (shard_path base i) False empty_cat_layout (empty_cont_layout BS) = Inr hm"
    "hm_holds BS hm (\<lambda>_. None)" "hm_rw hm" "c_count (hm_container hm) \<le> 2"
    using hm_open_fresh [OF os _ _ capacity_mono [OF capacity_BS], of "shard_path base i"] hm_holds_empty
    by (auto simp: shard_files_open_def DEFAULT_BUCKET_SIZE_def)
  have "\<forall>j < n. shard_files_open os base (i + 1 + j)" using Suc.prems by auto
  from Suc.IH [OF this] hm show ?case by auto
qed simp

lemma sh_open_fresh:
  assumes os: "os_serves os" and f: "\<forall>i < n. shard_files_open os base i" and n: "0 < n"
  shows "\<exists>s. sh_open os base n (\<lambda>_. empty_cat_layout) (\<lambda>_. empty_cont_layout BS) = Inr s \<and> sh_holds s (\<lambda>_. None)
    \<and> (\<forall>k v. bytes_required k v \<le> BS \<longrightarrow> sh_room os s k v)"
proof -
  from sh_open_loop_fresh [OF os, of n base 0] f obtain hms where
    hms: "sh_open_loop os base (\<lambda>_. empty_cat_layout) (\<lambda>_. empty_cont_layout BS) 0 n = Inr hms" "length hms = n"
      "\<forall>hm \<in> set hms. hm_holds BS hm (\<lambda>_. None) \<and> hm_rw hm \<and> c_count (hm_container hm) \<le> 2" by auto
  let ?s = "\<lparr>sh_shards = hms, sh_num_shards = n\<rparr>"
  have "sh_room os ?s k v" if "bytes_required k v \<le> BS" for k v
  proof -
    have "hms ! sh_idx ?s k \<in> set hms" using n hms(2) by (simp add: sh_idx_def)
    then have "c_count (hm_container (hms ! sh_idx ?s k)) \<le> 2" using hms(3) by blast
    then show ?thesis
      using that os capacity_mono [OF capacity_BS, of "2 * c_count (hm_container (hms ! sh_idx ?s k))"]
      by (simp add: sh_room_def hm_room_def hm_capacity_def)
  qed
  moreover have "shard_part ?s (\<lambda>_. None) i = (\<lambda>_. None)" for i by (simp add: shard_part_def fun_eq_iff)
  ultimately show ?thesis using hms n by (auto simp: sh_open_def sh_holds_def)
qed

section \<open>Sequences of calls\<close>

datatype sh_op = SGet bytes | SSet bytes bytes | SRemove bytes | SKeys

datatype sh_answer = SValue "bytes option" | SDone bool | SList "bytes list"

fun sh_do :: "os_env \<Rightarrow> sharded_hash_map \<Rightarrow> sh_op \<Rightarrow> (sharded_hash_map \<times> sh_answer) result option" where
  "sh_do os s (SGet k) = bind_o (sh_get s k) (\<lambda>v. Some (Inr (s, SValue v)))"
| "sh_do os s (SSet k v) = bind_o (sh_set os s k v) (\<lambda>(s, b). Some (Inr (s, SDone b)))"
| "sh_do os s (SRemove k) = bind_o (sh_remove s k) (\<lambda>(s, b). Some (Inr (s, SDone b)))"
| "sh_do os s SKeys = bind_o (sh_keys s) (\<lambda>ks. Some (Inr (s, SList ks)))"

text \<open>What a call may answer on a map from keys to values, and what it leaves: \<open>set\<close> never overwrites, and
  \<open>keys\<close> may list the keys in any order.\<close>

fun sh_after :: "key_contents \<Rightarrow> sh_op \<Rightarrow> key_contents" where
  "sh_after m (SSet k v) = (if m k = None then m(k \<mapsto> v) else m)"
| "sh_after m (SRemove k) = m(k := None)"
| "sh_after m _ = m"

fun sh_allows :: "key_contents \<Rightarrow> sh_op \<Rightarrow> sh_answer \<Rightarrow> bool" where
  "sh_allows m (SGet k) a \<longleftrightarrow> a = SValue (m k)"
| "sh_allows m (SSet k v) a \<longleftrightarrow> a = SDone (m k = None)"
| "sh_allows m (SRemove k) a \<longleftrightarrow> a = SDone (m k \<noteq> None)"
| "sh_allows m SKeys a \<longleftrightarrow> (\<exists>ks. a = SList ks \<and> distinct ks \<and> set ks = dom m)"

fun sh_served :: "os_env \<Rightarrow> sharded_hash_map \<Rightarrow> sh_op \<Rightarrow> bool" where
  "sh_served os s (SSet k v) = (sh_get s k = Some (Inr None) \<longrightarrow> sh_room os s k v)"
| "sh_served os s _ = True"

lemma sh_do_spec:
  assumes S: "sh_holds s m" and x: "sh_served os s x"
  shows "\<exists>s' a. sh_do os s x = Some (Inr (s', a)) \<and> sh_allows m x a \<and> sh_holds s' (sh_after m x)"
proof (cases x)
  case (SGet k)
  then show ?thesis using sh_get_spec [OF S, of k] S by simp
next
  case (SSet k v)
  then show ?thesis using sh_set_spec(1) [OF S, of k _ os v] sh_set_spec(2) [OF S, of k os v] sh_get_spec [OF S, of k] S x
    by (cases "m k") auto
next
  case (SRemove k)
  then show ?thesis using sh_remove_spec [OF S, of k] by auto
next
  case SKeys
  then show ?thesis using sh_keys_spec [OF S] S by auto
qed

fun sh_run :: "os_env \<Rightarrow> sharded_hash_map \<Rightarrow> sh_op list \<Rightarrow> (sharded_hash_map \<times> sh_answer list) result option" where
  "sh_run os s [] = Some (Inr (s, []))"
| "sh_run os s (x # xs) =
     bind_o (sh_do os s x) (\<lambda>(s, a). bind_o (sh_run os s xs) (\<lambda>(s, as). Some (Inr (s, a # as))))"

fun sh_run_served :: "os_env \<Rightarrow> sharded_hash_map \<Rightarrow> sh_op list \<Rightarrow> bool" where
  "sh_run_served os s [] = True"
| "sh_run_served os s (x # xs) =
     (sh_served os s x \<and> (case sh_do os s x of Some (Inr (s, _)) \<Rightarrow> sh_run_served os s xs | _ \<Rightarrow> True))"

fun sh_run_allows :: "key_contents \<Rightarrow> sh_op list \<Rightarrow> sh_answer list \<Rightarrow> bool" where
  "sh_run_allows m [] as = (as = [])"
| "sh_run_allows m (x # xs) [] = False"
| "sh_run_allows m (x # xs) (a # as) = (sh_allows m x a \<and> sh_run_allows (sh_after m x) xs as)"

lemma sh_run_spec:
  "sh_holds s m \<Longrightarrow> sh_run_served os s xs \<Longrightarrow>
    \<exists>s' as. sh_run os s xs = Some (Inr (s', as)) \<and> sh_run_allows m xs as \<and> sh_holds s' (fold (\<lambda>x m. sh_after m x) xs m)"
proof (induction xs arbitrary: s m)
  case (Cons x xs)
  have "sh_served os s x" using Cons.prems(2) by simp
  from sh_do_spec [OF Cons.prems(1) this] obtain s1 a where
    d: "sh_do os s x = Some (Inr (s1, a))" "sh_allows m x a" "sh_holds s1 (sh_after m x)" by blast
  moreover have "sh_run_served os s1 xs" using Cons.prems(2) d(1) by simp
  ultimately obtain s2 as where "sh_run os s1 xs = Some (Inr (s2, as))" "sh_run_allows (sh_after m x) xs as"
    "sh_holds s2 (fold (\<lambda>x m. sh_after m x) xs (sh_after m x))" using Cons.IH by blast
  then show ?case using d(1,2) by simp
qed auto

section \<open>Closing\<close>

lemma hm_close_twice:
  assumes "hm_close os hm = (hm', Inr ())"
  shows "hm_close os hm' = (hm', Inr ())"
proof -
  obtain f1 r1 where c1: "fm_close os (cat_file_map (hm_catalogue hm)) = (f1, r1)" by fastforce
  obtain f2 r2 where c2: "fm_close os (c_file_map (hm_container hm)) = (f2, r2)" by fastforce
  note c = c1 c2
  have r: "r1 = Inr ()" "r2 = Inr ()"
    and hm': "hm' = hm\<lparr>hm_catalogue := (hm_catalogue hm)\<lparr>cat_file_map := f1\<rparr>, hm_container := (hm_container hm)\<lparr>c_file_map := f2\<rparr>\<rparr>"
    using assms c by (auto simp: hm_close_def cat_close_def cont_close_def Let_def split: sum.splits)
  show ?thesis
    using fm_close_twice [OF c(1) [unfolded r]] fm_close_twice [OF c(2) [unfolded r]]
    by (simp add: hm' hm_close_def cat_close_def cont_close_def Let_def)
qed

lemma sh_close_loop_twice: "sh_close_loop os hms = (hms', Inr ()) \<Longrightarrow> sh_close_loop os hms' = (hms', Inr ())"
proof (induction hms arbitrary: hms')
  case (Cons hm hms)
  obtain hm1 r where c: "hm_close os hm = (hm1, r)" by (metis surj_pair)
  then obtain hms1 where "r = Inr ()" "sh_close_loop os hms = (hms1, Inr ())" "hms' = hm1 # hms1"
    using Cons.prems by (cases "sh_close_loop os hms") (auto simp: Let_def split: sum.splits)
  then show ?case using hm_close_twice [of os hm hm1] c Cons.IH [of hms1] by simp
qed simp

lemma sh_close_again:
  assumes "sh_close os s = (s', Inr ())"
  shows "sh_close os s' = (s', Inr ())"
proof (cases "sh_close_loop os (sh_shards s)")
  case (Pair hms r)
  then have r: "r = Inr ()" "s' = s\<lparr>sh_shards := hms\<rparr>" using assms by (auto simp: sh_close_def)
  then show ?thesis using sh_close_loop_twice [of os "sh_shards s" hms] Pair by (simp add: sh_close_def)
qed

section \<open>Names of the files\<close>

lemma to_string_digit: "char_of (48 + n mod 10 :: nat) = (char_of (48 + m mod 10 :: nat) :: char) \<longleftrightarrow> n mod 10 = m mod 10"
proof -
  have "(48 + k mod 10) mod 256 = 48 + k mod 10" for k :: nat
    using mod_less_divisor [of 10 k] by (intro mod_less) linarith
  then show ?thesis by (metis add_left_cancel of_char_of)
qed

lemma to_string_inj: "to_string n = to_string m \<Longrightarrow> n = m"
proof (induction n arbitrary: m rule: to_string.induct)
  case (1 n)
  have ne: "to_string k \<noteq> []" for k by (subst to_string.simps) simp
  have l: "last (to_string k) = char_of (48 + k mod 10)" "butlast (to_string k) = (if k < 10 then [] else to_string (k div 10))" for k
    by (subst to_string.simps, simp)+
  have "n mod 10 = m mod 10" using l(1) [of n] l(1) [of m] 1(2) to_string_digit by metis
  moreover have b: "(if n < 10 then [] else to_string (n div 10)) = (if m < 10 then [] else to_string (m div 10))"
    using l(2) [of n] l(2) [of m] 1(2) by simp
  have "n div 10 = m div 10"
  proof (cases "n < 10")
    case True
    with b ne have "m < 10" by (metis (full_types))
    with True show ?thesis by simp
  next
    case False
    with b ne have "\<not> m < 10" "to_string (n div 10) = to_string (m div 10)" by (metis (full_types))+
    with 1(1) [OF False] show ?thesis by blast
  qed
  ultimately show ?case by (metis div_mult_mod_eq)
qed

section \<open>Properties\<close>

lemma demo_shards:
  obtains s where "sh_open demo_os ''db'' 4 (\<lambda>_. empty_cat_layout) (\<lambda>_. empty_cont_layout BS) = Inr s"
    and "sh_holds s (\<lambda>_. None)" and "sh_room demo_os s [3] [4]"
proof -
  have "bytes_required [3] [4] \<le> BS" using demo_fits by (simp add: DEFAULT_BUCKET_SIZE_def)
  then show ?thesis
    using that sh_open_fresh [OF demo_os_serves(1), of 4 "''db''"] demo_os_serves(2) by (auto simp: shard_files_open_def)
qed

text \<open>C2. The sharded map implements one map from keys to values: any sequence of calls gives answers the
  specification allows (\<open>get\<close> the value of the key, \<open>set\<close> true exactly when the key was new, \<open>remove\<close>
  true exactly when it was there, \<open>keys\<close> every key once) and leaves the shards holding what the
  specification holds.\<close>

theorem sharded_refines:
  assumes "sh_holds s m" and "sh_run_served os s xs"
  shows "\<exists>s' as. sh_run os s xs = Some (Inr (s', as)) \<and> sh_run_allows m xs as \<and> sh_holds s' (fold (\<lambda>x m. sh_after m x) xs m)"
  by (rule sh_run_spec [OF assms])

theorem sharded_refines_witness:
  "\<exists>s s' as. sh_open demo_os ''db'' 4 (\<lambda>_. empty_cat_layout) (\<lambda>_. empty_cont_layout BS) = Inr s
    \<and> sh_run demo_os s [SSet [3] [4], SGet [3], SRemove [3]] = Some (Inr (s', as))
    \<and> sh_run_allows (\<lambda>_. None) [SSet [3] [4], SGet [3], SRemove [3]] as"
proof -
  obtain s where s: "sh_open demo_os ''db'' 4 (\<lambda>_. empty_cat_layout) (\<lambda>_. empty_cont_layout BS) = Inr s"
    "sh_holds s (\<lambda>_. None)" "sh_room demo_os s [3] [4]" by (rule demo_shards)
  then have "sh_run_served demo_os s [SSet [3] [4], SGet [3], SRemove [3]]"
    by (auto split: option.splits sum.splits)
  then show ?thesis using s(1) sharded_refines [OF s(2)] by blast
qed

text \<open>On empty files the constructor makes an empty sharded map, for any positive number of shards.\<close>

theorem sharded_opens_empty:
  assumes "os_serves os" and "\<forall>i < n. shard_files_open os base i" and "0 < n"
  shows "\<exists>s. sh_open os base n (\<lambda>_. empty_cat_layout) (\<lambda>_. empty_cont_layout BS) = Inr s \<and> sh_holds s (\<lambda>_. None)"
  using sh_open_fresh [OF assms] by blast

theorem sharded_opens_empty_witness:
  "\<exists>s. sh_open demo_os ''db'' 3 (\<lambda>_. empty_cat_layout) (\<lambda>_. empty_cont_layout BS) = Inr s \<and> sh_holds s (\<lambda>_. None)"
  by (rule sharded_opens_empty) (simp_all add: demo_os_serves shard_files_open_def)

text \<open>No two shards share a file: the paths of different shards differ, and so do all the names of
  their catalogue and data files.\<close>

theorem shard_files_distinct:
  assumes "i \<noteq> j"
  shows "shard_path base i \<noteq> shard_path base j \<and> shard_path base i @ ''cat'' \<noteq> shard_path base j @ ''cat''
    \<and> shard_path base i @ ''dat'' \<noteq> shard_path base j @ ''dat'' \<and> shard_path base i @ ''cat'' \<noteq> shard_path base j @ ''dat''"
  using assms to_string_inj by (auto simp: shard_path_def)

theorem shard_files_distinct_witness: "shard_path ''db'' 1 @ ''cat'' \<noteq> shard_path ''db'' 11 @ ''cat''"
  using shard_files_distinct [of 1 11 "''db''"] by simp

text \<open>With no shards every access to a key divides by zero, although the constructor succeeds.\<close>

theorem sharded_zero_shards:
  "\<exists>s. sh_open os base 0 cats dats = Inr s \<and> sh_get s k = Some (Inl Undefined)
    \<and> sh_set os s k v = Some (Inl Undefined) \<and> sh_remove s k = Some (Inl Undefined) \<and> sh_keys s = Some (Inr [])"
  by (simp add: sh_open_def sh_get_def sh_set_def sh_remove_def sh_keys_def shard_of_def shard_index_def)

text \<open>Closing the shards a second time, as the server's destructor does after \<open>wait()\<close>, changes
  nothing and does not fail.\<close>

theorem sharded_close_twice:
  assumes "sh_close os s = (s', Inr ())"
  shows "sh_close os s' = (s', Inr ())"
  by (rule sh_close_again [OF assms])

theorem sharded_close_twice_witness:
  "\<exists>s. sh_close demo_os \<lparr>sh_shards = [demo_hm], sh_num_shards = 1\<rparr> = (s, Inr ()) \<and> sh_close demo_os s = (s, Inr ())"
proof -
  have "\<exists>s. sh_close demo_os \<lparr>sh_shards = [demo_hm], sh_num_shards = 1\<rparr> = (s, Inr ())"
    by (simp add: sh_close_def hm_close_def cat_close_def cont_close_def demo_os_close)
  then show ?thesis using sharded_close_twice by blast
qed

end
