(* ===== verification/Base64url.thy ===== *)
theory Base64url
  imports Prelude
begin

text \<open>
  The base64url codec of \<^verbatim>\<open>src/src/server/http_server.cpp\<close>, with which keys travel in query strings
  and in the listing of the keys: the alphabet, the decoding table built at compile time, the decoder and
  the encoder with their \<^verbatim>\<open>int\<close> accumulator. The accumulator is never masked, so it runs over: it is a
  32-bit word, shifted left modulo \<open>2 ^ 32\<close> (as C++20 defines it) and right arithmetically. The
  lemmas show that only its lowest bits reach the output, that decoding an encoding gives the bytes
  back, and what the decoder makes of other input.
\<close>

section \<open>Model\<close>

type_synonym int32 = "32 word"

definition ascii :: "string \<Rightarrow> bytes" where
  "ascii s = map of_char s"

definition base64url_chars :: bytes where
  "base64url_chars = ascii ''ABCDEFGHIJKLMNOPQRSTUVWXYZabcdefghijklmnopqrstuvwxyz0123456789-_''"

definition make_decode_table :: "int list" where
  "make_decode_table = fold (\<lambda>i table. table[unat (base64url_chars ! i) := int i]) [0..<64] (replicate 256 (- 1))"

definition base64url_decode_table :: "int list" where
  "base64url_decode_table = make_decode_table"

text \<open>The loop of the decoder: the accumulator, the number of its bits that are still to be written, and
  the result so far.\<close>

fun decode_loop :: "bytes \<Rightarrow> int32 \<Rightarrow> nat \<Rightarrow> bytes \<Rightarrow> bytes" where
  "decode_loop [] val bits result = result"
| "decode_loop (c # cs) val bits result =
     (if c = 0x3D then result
      else
        let d = base64url_decode_table ! unat c in
        if d < 0 then decode_loop cs val bits result
        else
          let val = push_bit 6 val OR word_of_int d; bits = bits + 6 in
          if bits \<ge> 8 then
            let bits = bits - 8 in decode_loop cs val bits (result @ [ucast (signed_drop_bit bits val AND 0xFF)])
          else decode_loop cs val bits result)"

definition base64url_decode :: "bytes \<Rightarrow> bytes" where
  "base64url_decode str = decode_loop str 0 0 []"

text \<open>The inner loop of the encoder.\<close>

fun encode_emit :: "int32 \<Rightarrow> nat \<Rightarrow> bytes \<Rightarrow> nat \<times> bytes" where
  "encode_emit val bits result =
     (if bits \<ge> 6
      then encode_emit val (bits - 6) (result @ [base64url_chars ! unat (signed_drop_bit (bits - 6) val AND 0x3F)])
      else (bits, result))"

declare encode_emit.simps [simp del]

fun encode_loop :: "bytes \<Rightarrow> int32 \<Rightarrow> nat \<Rightarrow> bytes \<Rightarrow> int32 \<times> nat \<times> bytes" where
  "encode_loop [] val bits result = (val, bits, result)"
| "encode_loop (c # cs) val bits result =
     (let val = push_bit 8 val OR ucast c; (bits, result) = encode_emit val (bits + 8) result in
      encode_loop cs val bits result)"

text \<open>The bits left over at the end, filled up with zeros.\<close>

definition encode_rest :: "int32 \<times> nat \<times> bytes \<Rightarrow> bytes" where
  "encode_rest = (\<lambda>(val, bits, result).
     if bits > 0 then result @ [base64url_chars ! unat (push_bit (6 - bits) val AND 0x3F)] else result)"

definition base64url_encode :: "bytes \<Rightarrow> bytes" where
  "base64url_encode str = encode_rest (encode_loop str 0 0 [])"

section \<open>The alphabet\<close>

lemma length_chars: "length base64url_chars = 64"
  by (simp add: base64url_chars_def ascii_def)

lemma chars_table: "list_all (\<lambda>i. base64url_decode_table ! unat (base64url_chars ! i) = int i) [0..<64]"
  by code_simp

lemma chars_plain: "list_all (\<lambda>c. c \<noteq> 0x3D \<and> c \<noteq> 0x25 \<and> c \<noteq> 0x2B \<and> c \<noteq> 0x26 \<and> c \<noteq> 10) base64url_chars"
  by code_simp

lemma chars_table_nth: "i < 64 \<Longrightarrow> base64url_decode_table ! unat (base64url_chars ! i) = int i"
  using chars_table by (simp add: list_all_iff)

lemma fold_updates_other: "j \<notin> f ` set xs \<Longrightarrow> fold (\<lambda>i t. t[f i := g i]) xs t ! j = t ! j"
  by (induction xs arbitrary: t) auto

lemma table_valid: "base64url_decode_table ! unat c < 0 \<longleftrightarrow> c \<notin> set base64url_chars"
proof (cases "c \<in> set base64url_chars")
  case True
  then obtain i where "i < 64" "base64url_chars ! i = c" by (auto simp: in_set_conv_nth length_chars)
  then show ?thesis using True chars_table_nth [of i] by simp
next
  case False
  have "unat c \<notin> (\<lambda>i. unat (base64url_chars ! i)) ` set [0..<64]"
  proof
    assume "unat c \<in> (\<lambda>i. unat (base64url_chars ! i)) ` set [0..<64]"
    then obtain i where "i < 64" "c = base64url_chars ! i" by (auto simp: word_unat_eq_iff)
    then show False using False nth_mem [of i base64url_chars] by (simp add: length_chars)
  qed
  then have "base64url_decode_table ! unat c = replicate 256 (- 1) ! unat c"
    unfolding base64url_decode_table_def make_decode_table_def by (rule fold_updates_other)
  moreover have "unat c < 2 ^ LENGTH(8)" by (rule unsigned_less)
  ultimately show ?thesis using False by simp
qed

text \<open>The character of the lowest six bits.\<close>

definition sextet :: "int32 \<Rightarrow> byte" where
  "sextet x = base64url_chars ! unat (x AND 0x3F)"

lemma sextet_index: "unat (x AND 0x3F :: int32) < 64"
proof -
  have "x AND 0x3F \<le> 0x3F" by (rule word_and_le1)
  then show ?thesis by (simp add: word_le_nat_alt)
qed

lemma sextet_table: "base64url_decode_table ! unat (sextet x) = int (unat (x AND 0x3F))"
  unfolding sextet_def by (rule chars_table_nth [OF sextet_index])

lemma sextet_in_chars: "sextet x \<in> set base64url_chars"
  unfolding sextet_def using sextet_index by (intro nth_mem) (simp add: length_chars)

lemma sextet_plain: "sextet x \<noteq> 0x3D" "sextet x \<noteq> 0x25" "sextet x \<noteq> 0x2B" "sextet x \<noteq> 0x26" "sextet x \<noteq> 10"
  using chars_plain sextet_in_chars [of x] by (auto simp: list_all_iff)

section \<open>One group of the stream\<close>

lemma decode_sextet:
  "decode_loop (sextet x # cs) val bits result =
     (let val = push_bit 6 val OR (x AND 0x3F); bits = bits + 6 in
      if bits \<ge> 8 then
        let bits = bits - 8 in decode_loop cs val bits (result @ [ucast (signed_drop_bit bits val AND 0xFF)])
      else decode_loop cs val bits result)"
proof -
  have "(word_of_int (int (unat (x AND 0x3F))) :: int32) = x AND 0x3F" by simp
  then show ?thesis by (simp add: sextet_table sextet_plain Let_def)
qed

lemma decode_steps:
  "decode_loop (sextet x # cs) w 0 r = decode_loop cs (push_bit 6 w OR (x AND 0x3F)) 6 r"
  "decode_loop (sextet x # cs) w 6 r =
     decode_loop cs (push_bit 6 w OR (x AND 0x3F)) 4 (r @ [ucast (signed_drop_bit 4 (push_bit 6 w OR (x AND 0x3F)) AND 0xFF)])"
  "decode_loop (sextet x # cs) w 4 r =
     decode_loop cs (push_bit 6 w OR (x AND 0x3F)) 2 (r @ [ucast (signed_drop_bit 2 (push_bit 6 w OR (x AND 0x3F)) AND 0xFF)])"
  "decode_loop (sextet x # cs) w 2 r =
     decode_loop cs (push_bit 6 w OR (x AND 0x3F)) 0 (r @ [ucast (signed_drop_bit 0 (push_bit 6 w OR (x AND 0x3F)) AND 0xFF)])"
  unfolding decode_sextet by (simp_all add: Let_def)

lemma encode_emit_steps:
  "encode_emit val 8 result = (2, result @ [sextet (signed_drop_bit 2 val)])"
  "encode_emit val 10 result = (4, result @ [sextet (signed_drop_bit 4 val)])"
  "encode_emit val 12 result = (0, result @ [sextet (signed_drop_bit 6 val), sextet val])"
  by (simp_all add: encode_emit.simps sextet_def)

lemma encode_group1: "encode_loop (a # cs) val 0 result =
    (let v1 = push_bit 8 val OR ucast a in encode_loop cs v1 2 (result @ [sextet (signed_drop_bit 2 v1)]))"
  by (simp add: encode_emit_steps Let_def)

lemma encode_group2: "encode_loop (b # cs) v1 2 result =
    (let v2 = push_bit 8 v1 OR ucast b in encode_loop cs v2 4 (result @ [sextet (signed_drop_bit 4 v2)]))"
  by (simp add: encode_emit_steps Let_def)

lemma encode_group3: "encode_loop (c # cs) v2 4 result =
    (let v3 = push_bit 8 v2 OR ucast c in encode_loop cs v3 0 (result @ [sextet (signed_drop_bit 6 v3), sextet v3]))"
  by (simp add: encode_emit_steps Let_def)

lemma byte_eqI:
  assumes "bit x 0 = bit y 0" "bit x 1 = bit y 1" "bit x 2 = bit y 2" "bit x 3 = bit y 3"
    "bit x 4 = bit y 4" "bit x 5 = bit y 5" "bit x 6 = bit y 6" "bit x 7 = bit y 7"
  shows "x = (y :: byte)"
proof (rule bit_word_eqI)
  fix n assume "n < LENGTH(8)"
  then have "n = 0 \<or> n = 1 \<or> n = 2 \<or> n = 3 \<or> n = 4 \<or> n = 5 \<or> n = 6 \<or> n = 7" by simp linarith
  then show "bit x n = bit y n" using assms by blast
qed

lemma byte_high [simp]: "8 \<le> n \<Longrightarrow> \<not> bit (b :: byte) n"
  using bit_imp_le_length [of b n] by auto

text \<open>The bytes that four, three or two characters of the encoder give back, whatever else is in the
  two accumulators.\<close>

lemma decoded_bytes:
  fixes a b c :: byte and v w :: int32
  assumes v1: "v1 = push_bit 8 v OR ucast a" and v2: "v2 = push_bit 8 v1 OR ucast b" and v3: "v3 = push_bit 8 v2 OR ucast c"
    and w1: "w1 = push_bit 6 w OR (signed_drop_bit 2 v1 AND 0x3F)"
  shows "ucast (signed_drop_bit 4 (push_bit 6 w1 OR (signed_drop_bit 4 v2 AND 0x3F)) AND 0xFF) = a"
    and "ucast (signed_drop_bit 2 (push_bit 6 (push_bit 6 w1 OR (signed_drop_bit 4 v2 AND 0x3F)) OR (signed_drop_bit 6 v3 AND 0x3F)) AND 0xFF) = b"
    and "ucast (signed_drop_bit 0 (push_bit 6 (push_bit 6 (push_bit 6 w1 OR (signed_drop_bit 4 v2 AND 0x3F)) OR (signed_drop_bit 6 v3 AND 0x3F)) OR (v3 AND 0x3F)) AND 0xFF) = c"
    and "ucast (signed_drop_bit 4 (push_bit 6 w1 OR (push_bit 4 v1 AND 0x3F)) AND 0xFF) = a"
    and "ucast (signed_drop_bit 2 (push_bit 6 (push_bit 6 w1 OR (signed_drop_bit 4 v2 AND 0x3F)) OR (push_bit 2 v2 AND 0x3F)) AND 0xFF) = b"
  by (rule byte_eqI; simp add: w1 v3 v2 v1 bit_simps)+

lemma group_induct [case_names none one two three]:
  assumes "P []" "\<And>a. P [a]" "\<And>a b. P [a, b]" "\<And>a b c cs. P cs \<Longrightarrow> P (a # b # c # cs)"
  shows "P s"
proof (induction s rule: length_induct)
  case (1 s)
  consider "s = []" | a where "s = [a]" | a b where "s = [a, b]" | a b c cs where "s = a # b # c # cs"
    by (metis list.exhaust)
  then show ?case using 1 assms by cases auto
qed

section \<open>The stream\<close>

lemma encode_rest_simps:
  "encode_rest (v, 0, r) = r"
  "encode_rest (v, 2, r) = r @ [sextet (push_bit 4 v)]"
  "encode_rest (v, 4, r) = r @ [sextet (push_bit 2 v)]"
  by (simp_all add: encode_rest_def sextet_def)

text \<open>What the encoder writes for a group of three bytes, and for the one or two bytes at the end.\<close>

lemma encode_groups:
  fixes v :: int32
  assumes v1: "v1 = push_bit 8 v OR ucast a" and v2: "v2 = push_bit 8 v1 OR ucast b" and v3: "v3 = push_bit 8 v2 OR ucast c"
  shows "encode_rest (encode_loop [a] v 0 r) = r @ [sextet (signed_drop_bit 2 v1), sextet (push_bit 4 v1)]"
    and "encode_rest (encode_loop [a, b] v 0 r) =
      r @ [sextet (signed_drop_bit 2 v1), sextet (signed_drop_bit 4 v2), sextet (push_bit 2 v2)]"
    and "encode_loop (a # b # c # s) v 0 r =
      encode_loop s v3 0 (r @ [sextet (signed_drop_bit 2 v1), sextet (signed_drop_bit 4 v2), sextet (signed_drop_bit 6 v3), sextet v3])"
  using encode_group1 [of a "[]" v r] encode_group1 [of a "[b]" v r] encode_group2 [of b "[]" v1]
    encode_group1 [of a "b # c # s" v r] encode_group2 [of b "c # s" v1] encode_group3 [of c s v2]
  by (simp_all add: v1 v2 v3 Let_def encode_rest_simps)

lemma encode_decode:
  "\<exists>t. encode_rest (encode_loop s v 0 r) = r @ t \<and> set t \<subseteq> set base64url_chars \<and> length t = (4 * length s + 2) div 3
     \<and> (\<forall>w r'. decode_loop t w 0 r' = r' @ s)"
proof (induction s arbitrary: v r rule: group_induct)
  case none
  then show ?case by (simp add: encode_rest_simps)
next
  case (one a)
  define v1 where "v1 = push_bit 8 v OR (ucast a :: int32)"
  have "decode_loop [sextet (signed_drop_bit 2 v1), sextet (push_bit 4 v1)] w 0 r' = r' @ [a]" for w r'
    by (simp only: decode_steps decode_loop.simps(1) decoded_bytes(4) [OF v1_def refl refl refl])
  then show ?case using encode_groups(1) [OF v1_def refl refl] sextet_in_chars by auto
next
  case (two a b)
  define v1 where "v1 = push_bit 8 v OR (ucast a :: int32)"
  define v2 where "v2 = push_bit 8 v1 OR (ucast b :: int32)"
  have "decode_loop [sextet (signed_drop_bit 2 v1), sextet (signed_drop_bit 4 v2), sextet (push_bit 2 v2)] w 0 r' = r' @ [a, b]" for w r'
    by (simp only: decode_steps decode_loop.simps(1) decoded_bytes(1,5) [OF v1_def v2_def refl refl] append_assoc append.simps)
  then show ?case using encode_groups(2) [OF v1_def v2_def refl] sextet_in_chars by auto
next
  case (three a b c cs)
  define v1 where "v1 = push_bit 8 v OR (ucast a :: int32)"
  define v2 where "v2 = push_bit 8 v1 OR (ucast b :: int32)"
  define v3 where "v3 = push_bit 8 v2 OR (ucast c :: int32)"
  let ?q = "[sextet (signed_drop_bit 2 v1), sextet (signed_drop_bit 4 v2), sextet (signed_drop_bit 6 v3), sextet v3]"
  obtain t where t: "encode_rest (encode_loop cs v3 0 (r @ ?q)) = (r @ ?q) @ t" "set t \<subseteq> set base64url_chars"
    "length t = (4 * length cs + 2) div 3" "\<forall>w r'. decode_loop t w 0 r' = r' @ cs" using three by metis
  moreover have "decode_loop (?q @ t) w 0 r' = r' @ [a, b, c] @ cs" for w r'
    by (simp only: append.simps decode_steps decoded_bytes(1-3) [OF v1_def v2_def v3_def refl] t(4) append_assoc)
  ultimately show ?case using encode_groups(3) [OF v1_def v2_def v3_def] sextet_in_chars by (intro exI [of _ "?q @ t"]) auto
qed

lemma base64url_encode_chars: "set (base64url_encode s) \<subseteq> set base64url_chars"
  using encode_decode [of s 0 "[]"] by (auto simp: base64url_encode_def)

lemma base64url_encode_plain:
  assumes "c \<in> set (base64url_encode s)"
  shows "c \<noteq> 0x3D" "c \<noteq> 0x25" "c \<noteq> 0x2B" "c \<noteq> 0x26" "c \<noteq> 10"
  using assms base64url_encode_chars [of s] chars_plain by (auto simp: list_all_iff)

lemma base64url_decode_encode: "base64url_decode (base64url_encode s) = s"
  using encode_decode [of s 0 "[]"] by (auto simp: base64url_encode_def base64url_decode_def)

lemma length_base64url_encode: "length (base64url_encode s) = (4 * length s + 2) div 3"
  using encode_decode [of s 0 "[]"] by (auto simp: base64url_encode_def)

section \<open>Properties\<close>

text \<open>C30. Decoding an encoded key gives the key back, for every byte string and although the accumulators
  overflow; the encoding consists of characters of the alphabet only and fits the \<open>(n + 2) / 3 * 4\<close> bytes
  reserved for it.\<close>

theorem base64url_roundtrip:
  "base64url_decode (base64url_encode s) = s \<and> set (base64url_encode s) \<subseteq> set base64url_chars
    \<and> length (base64url_encode s) \<le> (length s + 2) div 3 * 4"
proof -
  have "(4 * n + 2) div 3 \<le> (n + 2) div 3 * 4" for n :: nat by presburger
  then show ?thesis using base64url_decode_encode base64url_encode_chars length_base64url_encode by simp
qed

text \<open>The decoder reads up to the first \<open>=\<close> and skips every character outside the alphabet: what it
  returns depends on the remaining characters only, so padded, wrapped and bare forms of a key agree.\<close>

theorem base64url_decode_lenient:
  "base64url_decode s = base64url_decode (filter (\<lambda>c. c \<in> set base64url_chars) (takeWhile (\<lambda>c. c \<noteq> 0x3D) s))"
proof -
  have "decode_loop s v b r = decode_loop (filter (\<lambda>c. c \<in> set base64url_chars) (takeWhile (\<lambda>c. c \<noteq> 0x3D) s)) v b r" for v b r
  proof (induction s arbitrary: v b r)
    case (Cons c s)
    show ?case
    proof (cases "c = 0x3D \<or> c \<notin> set base64url_chars")
      case True
      then show ?thesis using Cons table_valid [of c] by auto
    next
      case False
      then show ?thesis using Cons table_valid [of c] by (simp add: Let_def)
    qed
  qed simp
  then show ?thesis by (simp add: base64url_decode_def)
qed

end
