(* ===== verification/Url.thy ===== *)
theory Url
  imports Base64url
begin

text \<open>
  The URL utilities of \<^verbatim>\<open>src/src/server/http_server.cpp\<close>: percent decoding and the extraction of a
  parameter from the query string. \<open>hex_read\<close> is what \<^verbatim>\<open>iss >> std::hex >> value\<close> extracts from a string
  stream over a few characters: white space is skipped, a sign and a prefix \<^verbatim>\<open>0x\<close> are taken, and the
  digits end at the first other character.
\<close>

section \<open>Percent decoding\<close>

definition is_space :: "byte \<Rightarrow> bool" where
  "is_space c \<longleftrightarrow> c = 32 \<or> 9 \<le> c \<and> c \<le> 13"

definition hex_digit :: "byte \<Rightarrow> int option" where
  "hex_digit c =
     (if 0x30 \<le> c \<and> c \<le> 0x39 then Some (uint c - 0x30)
      else if 0x61 \<le> c \<and> c \<le> 0x66 then Some (uint c - 0x57)
      else if 0x41 \<le> c \<and> c \<le> 0x46 then Some (uint c - 0x37)
      else None)"

definition hex_number :: "bytes \<Rightarrow> int" where
  "hex_number ds = fold (\<lambda>d n. 16 * n + the (hex_digit d)) ds 0"

definition hex_read :: "bytes \<Rightarrow> int option" where
  "hex_read s =
     (let s = dropWhile is_space s;
          neg = (s \<noteq> [] \<and> hd s = 0x2D);
          s = (if s \<noteq> [] \<and> (hd s = 0x2D \<or> hd s = 0x2B) then tl s else s);
          s = (case s of z # x # r \<Rightarrow> if z = 0x30 \<and> (x = 0x78 \<or> x = 0x58) then r else s | _ \<Rightarrow> s);
          ds = takeWhile (\<lambda>c. hex_digit c \<noteq> None) s
      in if ds = [] then None else Some (if neg then - hex_number ds else hex_number ds))"

function url_decode :: "bytes \<Rightarrow> bytes" where
  "url_decode [] = []"
| "url_decode (c # cs) =
     (if c = 0x25 \<and> 2 \<le> length cs then
        (case hex_read (take 2 cs) of
           Some value \<Rightarrow> word_of_int value # url_decode (drop 2 cs)
         | None \<Rightarrow> c # url_decode cs)
      else if c = 0x2B then 0x20 # url_decode cs
      else c # url_decode cs)"
  by pat_completeness auto
termination
  by (relation "measure length") auto

section \<open>Query parameters\<close>

text \<open>\<^verbatim>\<open>std::string::find\<close> of a character, from a position on.\<close>

definition find_byte :: "byte \<Rightarrow> bytes \<Rightarrow> nat \<Rightarrow> nat option" where
  "find_byte c s pos =
     (let n = pos + length (takeWhile (\<lambda>x. x \<noteq> c) (drop pos s)) in if n < length s then Some n else None)"

lemma find_byte_ge: "find_byte c s pos = Some n \<Longrightarrow> pos \<le> n \<and> n < length s"
  by (auto simp: find_byte_def Let_def split: if_splits)

function query_loop :: "bytes \<Rightarrow> bytes \<Rightarrow> nat \<Rightarrow> bytes" where
  "query_loop query search pos =
     (if pos < length query then
        let amp = find_byte 0x26 query pos;
            pair = (case amp of Some a \<Rightarrow> segment pos (a - pos) query | None \<Rightarrow> drop pos query)
        in if take (length search) pair = search then drop (length search) pair
           else (case amp of None \<Rightarrow> [] | Some a \<Rightarrow> query_loop query search (a + 1))
      else [])"
  by pat_completeness auto
termination
  by (relation "measure (\<lambda>(query, search, pos). length query - pos)") (auto dest!: find_byte_ge [OF sym])

declare query_loop.simps [simp del]

definition extract_query_param :: "bytes \<Rightarrow> bytes \<Rightarrow> bytes" where
  "extract_query_param target param =
     (case find_byte 0x3F target 0 of
        None \<Rightarrow> []
      | Some query_pos \<Rightarrow> query_loop (drop (query_pos + 1) target) (param @ [0x3D]) 0)"

section \<open>What they compute\<close>

text \<open>The ways to write a byte string with percent escapes: a byte stands for itself unless it is \<open>%\<close> or
  \<open>+\<close>, any byte may be escaped with two hexadecimal digits of either case, and \<open>+\<close> stands for a space.\<close>

inductive url_encodes :: "bytes \<Rightarrow> bytes \<Rightarrow> bool" where
  empty: "url_encodes [] []"
| plain: "url_encodes s t \<Longrightarrow> c \<noteq> 0x25 \<Longrightarrow> c \<noteq> 0x2B \<Longrightarrow> url_encodes (c # s) (c # t)"
| plus: "url_encodes s t \<Longrightarrow> url_encodes (0x20 # s) (0x2B # t)"
| escape: "url_encodes s t \<Longrightarrow> hex_digit a = Some x \<Longrightarrow> hex_digit b = Some y \<Longrightarrow>
    url_encodes (word_of_int (16 * x + y) # s) (0x25 # a # b # t)"

lemma hex_digit_plain:
  assumes "hex_digit c = Some x"
  shows "\<not> is_space c" "c \<noteq> 0x2D" "c \<noteq> 0x2B" "c \<noteq> 0x78" "c \<noteq> 0x58"
  using assms by (auto simp: hex_digit_def is_space_def word_le_nat_alt word_unat_eq_iff split: if_splits)

lemma hex_read_two:
  assumes "hex_digit a = Some x" and "hex_digit b = Some y"
  shows "hex_read [a, b] = Some (16 * x + y)"
  using assms hex_digit_plain [OF assms(1)] hex_digit_plain [OF assms(2)]
  by (simp add: hex_read_def hex_number_def Let_def)

lemma url_decode_encodes: "url_encodes s t \<Longrightarrow> url_decode t = s"
  by (induction rule: url_encodes.induct) (simp_all add: hex_read_two)

lemma url_decode_plain: "0x25 \<notin> set t \<Longrightarrow> 0x2B \<notin> set t \<Longrightarrow> url_decode t = t"
  by (rule url_decode_encodes, induction t) (auto intro: url_encodes.intros)

text \<open>The pairs of a query string, and the value of the first pair that starts with what is searched.\<close>

fun join_amp :: "bytes list \<Rightarrow> bytes" where
  "join_amp [] = []"
| "join_amp [p] = p"
| "join_amp (p # ps) = p @ 0x26 # join_amp ps"

definition query_value :: "bytes list \<Rightarrow> bytes \<Rightarrow> bytes" where
  "query_value pairs search =
     (case List.find (\<lambda>p. take (length search) p = search) pairs of None \<Rightarrow> [] | Some p \<Rightarrow> drop (length search) p)"

lemma find_byte_here:
  assumes "drop pos s = p @ c # r" and "c \<notin> set p"
  shows "find_byte c s pos = Some (pos + length p)"
proof -
  have t: "takeWhile (\<lambda>x. x \<noteq> c) (drop pos s) = p" unfolding assms(1) using assms(2) by (subst takeWhile_append2) auto
  have "length (drop pos s) = length p + 1 + length r" using assms(1) by simp
  then have "pos + length p < length s" by simp
  then show ?thesis using t by (simp add: find_byte_def Let_def)
qed

lemma find_byte_none: "c \<notin> set (drop pos s) \<Longrightarrow> pos \<le> length s \<Longrightarrow> find_byte c s pos = None"
proof -
  assume "c \<notin> set (drop pos s)" "pos \<le> length s"
  then have "takeWhile (\<lambda>x. x \<noteq> c) (drop pos s) = drop pos s" by (auto simp: takeWhile_eq_all_conv)
  then have "pos + length (takeWhile (\<lambda>x. x \<noteq> c) (drop pos s)) = length s" using \<open>pos \<le> length s\<close> by (simp only: length_drop)
  then show ?thesis by (simp add: find_byte_def)
qed

lemma query_loop_spec:
  assumes "drop pos query = join_amp pairs" and "pos \<le> length query" and "\<forall>p \<in> set pairs. 0x26 \<notin> set p" and "search \<noteq> []"
  shows "query_loop query search pos = query_value pairs search"
  using assms
proof (induction pairs arbitrary: pos rule: join_amp.induct)
  case 1
  then show ?case by (simp add: query_loop.simps query_value_def)
next
  case (2 p)
  have "find_byte 0x26 query pos = None" using 2 by (intro find_byte_none) simp_all
  then show ?case using 2 by (subst query_loop.simps) (auto simp: query_value_def)
next
  case (3 p p' ps)
  have d: "drop pos query = p @ 0x26 # join_amp (p' # ps)" using 3(2) by simp
  then have f: "find_byte 0x26 query pos = Some (pos + length p)" using 3(4) by (intro find_byte_here) auto
  then have lt: "pos < length query" "pos + length p < length query" using find_byte_ge [OF f] by auto
  have seg: "segment pos (pos + length p - pos) query = p" using d by (simp add: segment_def)
  have "drop (pos + length p + 1) query = join_amp (p' # ps)"
    using drop_add_eq [of pos query "p @ [0x26]" "join_amp (p' # ps)"] d by simp
  then have "query_loop query search (pos + length p + 1) = query_value (p' # ps) search" using 3 lt by auto
  then show ?case using lt f seg by (simp add: query_loop.simps [of query search pos] query_value_def Let_def)
qed

lemma extract_query_param_spec:
  assumes "0x3F \<notin> set path" and "\<forall>p \<in> set pairs. 0x26 \<notin> set p"
  shows "extract_query_param (path @ 0x3F # join_amp pairs) param = query_value pairs (param @ [0x3D])"
proof -
  have "find_byte 0x3F (path @ 0x3F # join_amp pairs) 0 = Some (length path)"
    using find_byte_here [of 0 "path @ 0x3F # join_amp pairs" path] assms(1) by simp
  then show ?thesis using query_loop_spec [of 0 "join_amp pairs" pairs] assms(2) by (simp add: extract_query_param_def)
qed

section \<open>Properties\<close>

text \<open>Percent decoding inverts every way of percent-encoding a byte string, with either case of the
  hexadecimal digits and with \<open>+\<close> for a space.\<close>

theorem url_decode_correct:
  assumes "url_encodes s t"
  shows "url_decode t = s"
  by (rule url_decode_encodes [OF assms])

theorem url_decode_correct_witness: "url_decode [0x61, 0x2B, 0x25, 0x66, 0x46, 0x25, 0x30, 0x30] = [0x61, 0x20, 0xFF, 0]"
proof (rule url_decode_correct)
  have "url_encodes [word_of_int (16 * 0 + 0)] [0x25, 0x30, 0x30]"
    by (rule url_encodes.escape) (simp_all add: url_encodes.empty hex_digit_def)
  then have "url_encodes [word_of_int (16 * 15 + 15), 0] [0x25, 0x66, 0x46, 0x25, 0x30, 0x30]"
    by (intro url_encodes.escape) (simp_all add: hex_digit_def)
  then show "url_encodes [0x61, 0x20, 0xFF, 0] [0x61, 0x2B, 0x25, 0x66, 0x46, 0x25, 0x30, 0x30]"
    by (intro url_encodes.plain url_encodes.plus) simp_all
qed

text \<open>C37. The value of a query parameter is what follows the equals sign of the first pair that has the
  name, and the empty string when no pair has it.\<close>

theorem extract_query_param_correct:
  assumes "0x3F \<notin> set path" and "\<forall>p \<in> set pairs. 0x26 \<notin> set p"
  shows "extract_query_param (path @ 0x3F # join_amp pairs) param = query_value pairs (param @ [0x3D])"
  by (rule extract_query_param_spec [OF assms])

theorem extract_query_param_correct_witness:
  "extract_query_param (ascii ''/get'' @ 0x3F # join_amp [ascii ''keys=a'', ascii ''key=b'', ascii ''key=c'']) (ascii ''key'') = ascii ''b''"
proof -
  have "extract_query_param (ascii ''/get'' @ 0x3F # join_amp [ascii ''keys=a'', ascii ''key=b'', ascii ''key=c'']) (ascii ''key'')
    = query_value [ascii ''keys=a'', ascii ''key=b'', ascii ''key=c''] (ascii ''key'' @ [0x3D])"
    by (rule extract_query_param_correct) (simp_all add: ascii_def)
  then show ?thesis by (simp add: query_value_def ascii_def)
qed

end
