(* ===== verification/Http_Server.thy ===== *)
theory Http_Server
  imports Sharded_Hash_Map Url
begin

text \<open>
  The request handling of \<^verbatim>\<open>src/src/server/http_server.cpp\<close> over the sharded map: the routing of
  \<open>handle_request\<close>, the handlers, the loop of a session, and the life cycle of the server.
  Requests and responses have the fields of the Beast messages that the code uses. Beast and Asio
  themselves are outside: what \<open>http::read\<close> and \<open>http::write\<close> report is the input of the session,
  and \<open>need_eof\<close> of a response is a parameter.
\<close>

section \<open>Messages\<close>

datatype verb = Verb_get | Verb_put | Verb_post | Verb_delete | Verb_other

datatype status = Ok_200 | Bad_request_400 | Not_found_404 | Conflict_409

record request =
  rq_method :: verb
  rq_target :: bytes
  rq_version :: nat
  rq_body :: bytes

record response =
  rs_status :: status
  rs_version :: nat
  rs_content_type :: string
  rs_body :: bytes
  rs_server :: "string option"

definition respond :: "status \<Rightarrow> nat \<Rightarrow> string \<Rightarrow> bytes \<Rightarrow> response" where
  "respond st version content_type body =
     \<lparr>rs_status = st, rs_version = version, rs_content_type = content_type, rs_body = body, rs_server = None\<rparr>"

section \<open>Handlers\<close>

definition handle_get :: "sharded_hash_map \<Rightarrow> bytes \<Rightarrow> response result option" where
  "handle_get db key =
     bind_o (sh_get db key) (\<lambda>result.
     Some (Inr (case result of
        Some v \<Rightarrow> respond Ok_200 11 ''application/octet-stream'' v
      | None \<Rightarrow> respond Not_found_404 11 ''text/plain'' (ascii ''Key not found''))))"

definition handle_set :: "os_env \<Rightarrow> sharded_hash_map \<Rightarrow> bytes \<Rightarrow> bytes \<Rightarrow> (sharded_hash_map \<times> response) result option" where
  "handle_set os db key v =
     bind_o (sh_set os db key v) (\<lambda>(db, done).
     Some (Inr (db,
       if done then respond Ok_200 11 ''text/plain'' (ascii ''OK'')
       else respond Conflict_409 11 ''text/plain'' (ascii ''Key already exists''))))"

definition handle_delete :: "sharded_hash_map \<Rightarrow> bytes \<Rightarrow> (sharded_hash_map \<times> response) result option" where
  "handle_delete db key =
     bind_o (sh_remove db key) (\<lambda>(db, done).
     Some (Inr (db,
       if done then respond Ok_200 11 ''text/plain'' (ascii ''OK'')
       else respond Not_found_404 11 ''text/plain'' (ascii ''Key not found''))))"

definition keys_body :: "bytes list \<Rightarrow> bytes" where
  "keys_body ks = concat (map (\<lambda>k. base64url_encode k @ [10]) ks)"

definition handle_keys :: "sharded_hash_map \<Rightarrow> response result option" where
  "handle_keys db =
     bind_o (sh_keys db) (\<lambda>all_keys. Some (Inr (respond Ok_200 11 ''text/plain'' (keys_body all_keys))))"

definition handle_health :: response where
  "handle_health = respond Ok_200 11 ''text/plain'' (ascii ''OK'')"

text \<open>The branches of \<open>handle_request\<close> that need a key.\<close>

definition missing_key :: "request \<Rightarrow> response" where
  "missing_key req = respond Bad_request_400 (rq_version req) ''text/plain'' (ascii (''Missing '' @ [CHR 0x27] @ ''key'' @ [CHR 0x27] @ '' parameter''))"

definition request_key :: "request \<Rightarrow> bytes option" where
  "request_key req =
     (let key = extract_query_param (rq_target req) (ascii ''key'') in
      if key = [] then None else Some (base64url_decode (url_decode key)))"

definition request_path :: "request \<Rightarrow> bytes" where
  "request_path req =
     (case find_byte 0x3F (rq_target req) 0 of Some query_pos \<Rightarrow> take query_pos (rq_target req) | None \<Rightarrow> rq_target req)"

definition handle_request :: "os_env \<Rightarrow> sharded_hash_map \<Rightarrow> request \<Rightarrow> (sharded_hash_map \<times> response) result option" where
  "handle_request os db req =
     (let path = request_path req in
      if path = ascii ''/health'' then Some (Inr (db, handle_health))
      else if path = ascii ''/keys'' \<and> rq_method req = Verb_get then
        bind_o (handle_keys db) (\<lambda>res. Some (Inr (db, res)))
      else if path = ascii ''/get'' \<and> rq_method req = Verb_get then
        (case request_key req of
           None \<Rightarrow> Some (Inr (db, missing_key req))
         | Some key \<Rightarrow> bind_o (handle_get db key) (\<lambda>res. Some (Inr (db, res))))
      else if path = ascii ''/set'' \<and> (rq_method req = Verb_put \<or> rq_method req = Verb_post) then
        (case request_key req of
           None \<Rightarrow> Some (Inr (db, missing_key req))
         | Some key \<Rightarrow> handle_set os db key (rq_body req))
      else if path = ascii ''/delete'' \<and> rq_method req = Verb_delete then
        (case request_key req of
           None \<Rightarrow> Some (Inr (db, missing_key req))
         | Some key \<Rightarrow> handle_delete db key)
      else Some (Inr (db, respond Not_found_404 (rq_version req) ''text/plain'' (ascii ''Not Found''))))"

section \<open>A session\<close>

text \<open>One turn of the loop: whether the server is still running when the loop is entered, what
  \<open>http::read\<close> reports, and whether \<open>http::write\<close> succeeds.\<close>

datatype read_result = End_of_stream | Read_error | Read_request request

record turn =
  tn_running :: bool
  tn_read :: read_result
  tn_written :: bool

text \<open>How a session ends: the sending side is shut down, or the socket is just dropped; or it is still
  waiting for the next turn.\<close>

datatype session_end = Shut_down | Dropped | Waiting

fun handle_session ::
  "(response \<Rightarrow> bool) \<Rightarrow> os_env \<Rightarrow> sharded_hash_map \<Rightarrow> turn list \<Rightarrow> (sharded_hash_map \<times> response list \<times> session_end) result option" where
  "handle_session need_eof os db [] = Some (Inr (db, [], Waiting))"
| "handle_session need_eof os db (t # ts) =
     (if \<not> tn_running t then Some (Inr (db, [], Shut_down))
      else
        (case tn_read t of
           End_of_stream \<Rightarrow> Some (Inr (db, [], Shut_down))
         | Read_error \<Rightarrow> Some (Inr (db, [], Dropped))
         | Read_request req \<Rightarrow>
             bind_o (handle_request os db req) (\<lambda>(db, res).
             let res = res\<lparr>rs_server := Some ''diskhash-server/1.0''\<rparr> in
             if \<not> tn_written t then Some (Inr (db, [], Dropped))
             else if need_eof res then Some (Inr (db, [res], Shut_down))
             else
               bind_o (handle_session need_eof os db ts) (\<lambda>(db, ress, e).
               Some (Inr (db, res # ress, e))))))"

text \<open>A session that waits in \<open>http::read\<close>: what the read reports in the end and whether the response is then written; \<open>None\<close> if the
  read does not return, because the client neither sends nor disconnects. After that turn the loop tests \<open>running_\<close> again.\<close>

type_synonym open_session = "(read_result \<times> bool) option"

definition last_turns :: "bool \<Rightarrow> open_session \<Rightarrow> turn list" where
  "last_turns running session =
     (case session of
        None \<Rightarrow> []
      | Some (r, written) \<Rightarrow>
          \<lparr>tn_running = True, tn_read = r, tn_written = written\<rparr>
          # (if running then [] else [\<lparr>tn_running = False, tn_read = Read_error, tn_written = False\<rparr>]))"

fun finish_sessions ::
  "(response \<Rightarrow> bool) \<Rightarrow> os_env \<Rightarrow> bool \<Rightarrow> sharded_hash_map \<Rightarrow> open_session list \<Rightarrow> (sharded_hash_map \<times> session_end list) result option" where
  "finish_sessions need_eof os running db [] = Some (Inr (db, []))"
| "finish_sessions need_eof os running db (session # sessions) =
     bind_o (handle_session need_eof os db (last_turns running session)) (\<lambda>(db, _, e).
     bind_o (finish_sessions need_eof os running db sessions) (\<lambda>(db, es). Some (Inr (db, e # es))))"

lemma last_session_ends:
  assumes "handle_session need_eof os db (last_turns False session) = Some (Inr (db', ress, e))"
  shows "e = Waiting \<longleftrightarrow> session = None"
proof (cases session)
  case (Some x)
  obtain r written where x: "x = (r, written)" by (cases x)
  have "e \<noteq> Waiting"
  proof (cases r)
    case (Read_request req)
    then show ?thesis using assms Some x by (auto simp: last_turns_def bind_o_eq_Inr Let_def split: if_splits)
  qed (use assms Some x in \<open>auto simp: last_turns_def\<close>)
  then show ?thesis using Some by simp
qed (use assms in \<open>simp add: last_turns_def\<close>)

text \<open>Once the server is stopped, the sessions end but for those whose read does not return.\<close>

lemma finish_sessions_end:
  "finish_sessions need_eof os False db sessions = Some (Inr (db', es)) \<Longrightarrow> Waiting \<in> set es \<longleftrightarrow> None \<in> set sessions"
proof (induction sessions arbitrary: db es)
  case (Cons session sessions)
  then show ?case using last_session_ends by (fastforce simp: bind_o_eq_Inr)
qed simp

section \<open>Requests of a client\<close>

text \<open>A target that carries the key \<open>k\<close>: after the path, a query string whose first pair named \<open>key\<close> has
  a non-empty value that is, percent-decoded, a base64url text of \<open>k\<close>.\<close>

definition key_target :: "bytes \<Rightarrow> bytes \<Rightarrow> bytes \<Rightarrow> bool" where
  "key_target path k target \<longleftrightarrow>
     (\<exists>pairs t e. target = path @ 0x3F # join_amp pairs \<and> (\<forall>p \<in> set pairs. 0x26 \<notin> set p)
        \<and> query_value pairs (ascii ''key='') = t \<and> t \<noteq> [] \<and> url_encodes e t \<and> base64url_decode e = k)"

inductive is_request :: "sh_op \<Rightarrow> request \<Rightarrow> bool" where
  get: "rq_method req = Verb_get \<Longrightarrow> key_target (ascii ''/get'') k (rq_target req) \<Longrightarrow> is_request (SGet k) req"
| set: "rq_method req = Verb_put \<or> rq_method req = Verb_post \<Longrightarrow> key_target (ascii ''/set'') k (rq_target req) \<Longrightarrow>
    is_request (SSet k (rq_body req)) req"
| delete: "rq_method req = Verb_delete \<Longrightarrow> key_target (ascii ''/delete'') k (rq_target req) \<Longrightarrow> is_request (SRemove k) req"
| keys: "rq_method req = Verb_get \<Longrightarrow> request_path req = ascii ''/keys'' \<Longrightarrow> is_request SKeys req"

text \<open>The response that stands for an answer of the map.\<close>

fun answer_response :: "sh_op \<Rightarrow> sh_answer \<Rightarrow> response" where
  "answer_response x (SValue (Some v)) = respond Ok_200 11 ''application/octet-stream'' v"
| "answer_response x (SValue None) = respond Not_found_404 11 ''text/plain'' (ascii ''Key not found'')"
| "answer_response x (SDone True) = respond Ok_200 11 ''text/plain'' (ascii ''OK'')"
| "answer_response (SSet k v) (SDone False) = respond Conflict_409 11 ''text/plain'' (ascii ''Key already exists'')"
| "answer_response x (SDone False) = respond Not_found_404 11 ''text/plain'' (ascii ''Key not found'')"
| "answer_response x (SList ks) = respond Ok_200 11 ''text/plain'' (keys_body ks)"

lemma key_target_request:
  assumes "key_target path k (rq_target req)" and "0x3F \<notin> set path"
  shows "request_path req = path" and "request_key req = Some k"
proof -
  from assms(1) obtain pairs t e where t: "rq_target req = path @ 0x3F # join_amp pairs" "\<forall>p \<in> set pairs. 0x26 \<notin> set p"
    "query_value pairs (ascii ''key='') = t" "t \<noteq> []" "url_encodes e t" "base64url_decode e = k"
    unfolding key_target_def by blast
  have "find_byte 0x3F (rq_target req) 0 = Some (length path)"
    using find_byte_here [of 0 "rq_target req" path] assms(2) t(1) by simp
  then show "request_path req = path" by (simp add: request_path_def t(1))
  have "ascii ''key'' @ [0x3D] = ascii ''key=''" by (simp add: ascii_def)
  then have "extract_query_param (rq_target req) (ascii ''key'') = t"
    using extract_query_param_spec [OF assms(2) t(2), of "ascii ''key''"] t(1,3) by simp
  then show "request_key req = Some k" using t(4,6) url_decode_encodes [OF t(5)] by (simp add: request_key_def)
qed

lemma paths_distinct:
  "ascii ''/get'' \<noteq> ascii ''/health''" "ascii ''/get'' \<noteq> ascii ''/keys''"
  "ascii ''/set'' \<noteq> ascii ''/health''" "ascii ''/set'' \<noteq> ascii ''/keys''" "ascii ''/set'' \<noteq> ascii ''/get''"
  "ascii ''/delete'' \<noteq> ascii ''/health''" "ascii ''/delete'' \<noteq> ascii ''/keys''" "ascii ''/delete'' \<noteq> ascii ''/get''"
  "ascii ''/delete'' \<noteq> ascii ''/set''" "ascii ''/keys'' \<noteq> ascii ''/health''"
  "0x3F \<notin> set (ascii ''/get'')" "0x3F \<notin> set (ascii ''/set'')" "0x3F \<notin> set (ascii ''/delete'')"
  by (simp_all add: ascii_def)

text \<open>A request for an operation is that operation on the sharded map, and its answer as a response.\<close>

lemma handle_request_op:
  assumes "is_request x req"
  shows "handle_request os db req = bind_o (sh_do os db x) (\<lambda>(db, a). Some (Inr (db, answer_response x a)))"
  using assms
proof cases
  case (get k)
  note r = key_target_request [OF get(3) paths_distinct(11)]
  show ?thesis
    by (simp add: get(1,2) r handle_request_def handle_get_def paths_distinct bind_o_assoc Let_def)
      (auto intro!: bind_o_cong split: option.splits)
next
  case (set k)
  note r = key_target_request [OF set(3) paths_distinct(12)]
  have m: "rq_method req \<noteq> Verb_get" using set(2) by auto
  show ?thesis
    by (simp add: set(1,2) m r handle_request_def handle_set_def paths_distinct bind_o_assoc Let_def)
      (auto intro!: bind_o_cong)
next
  case (delete k)
  note r = key_target_request [OF delete(3) paths_distinct(13)]
  show ?thesis
    by (simp add: delete(1,2) r handle_request_def handle_delete_def paths_distinct bind_o_assoc Let_def)
      (auto intro!: bind_o_cong)
next
  case keys
  then show ?thesis by (simp add: handle_request_def handle_keys_def paths_distinct bind_o_assoc)
qed

definition signed :: "response \<Rightarrow> response" where
  "signed res = res\<lparr>rs_server := Some ''diskhash-server/1.0''\<rparr>"

definition served_turns :: "request list \<Rightarrow> turn list" where
  "served_turns reqs = map (\<lambda>req. \<lparr>tn_running = True, tn_read = Read_request req, tn_written = True\<rparr>) reqs"

lemma answer_response_version: "rs_version (signed (answer_response x a)) = 11"
  by (cases "(x, a)" rule: answer_response.cases) (simp_all add: signed_def respond_def)

lemma handle_session_ops:
  assumes "list_all2 is_request xs reqs" and keep: "\<forall>res. rs_version res = 11 \<longrightarrow> \<not> need_eof res"
  shows "handle_session need_eof os db (served_turns reqs @ ts) =
    bind_o (sh_run os db xs) (\<lambda>(db, as). bind_o (handle_session need_eof os db ts) (\<lambda>(db, ress, e).
      Some (Inr (db, map2 (\<lambda>x a. signed (answer_response x a)) xs as @ ress, e))))"
  using assms(1)
proof (induction arbitrary: db rule: list_all2_induct)
  case Nil
  show ?case by (simp add: served_turns_def bind_o_return)
next
  case (Cons x xs req reqs)
  have ne: "\<not> need_eof (signed (answer_response x a))" for a using keep answer_response_version by blast
  show ?case
    using Cons.IH ne by (simp add: served_turns_def handle_request_op [OF Cons.hyps(1)] bind_o_assoc split_def Let_def signed_def)
qed

section \<open>Listing the keys\<close>

text \<open>A client splits the listing into lines and decodes them.\<close>

fun split_lines :: "bytes \<Rightarrow> bytes \<Rightarrow> bytes list" where
  "split_lines [] line = []"
| "split_lines (c # cs) line = (if c = 10 then line # split_lines cs [] else split_lines cs (line @ [c]))"

lemma split_lines_line: "10 \<notin> set l \<Longrightarrow> split_lines (l @ 10 # rest) acc = (acc @ l) # split_lines rest []"
  by (induction l arbitrary: acc) auto

lemma keys_body_lines: "split_lines (keys_body ks) [] = map base64url_encode ks"
proof (induction ks)
  case (Cons k ks)
  have "10 \<notin> set (base64url_encode k)" using base64url_encode_plain(5) by blast
  with Cons show ?case by (simp add: keys_body_def split_lines_line)
qed (simp add: keys_body_def)

section \<open>Life cycle\<close>

text \<open>The members of \<open>http_server\<close> that its member functions change, with whether an accept is pending at
  the acceptor.\<close>

record server =
  sv_running :: bool
  sv_listening :: bool
  sv_accept_pending :: bool
  sv_ioc_stopped :: bool
  sv_threads :: nat
  sv_num_threads :: nat
  sv_db :: sharded_hash_map

text \<open>The steps of the constructor on the acceptor, each with the text of the exception it throws; \<open>ec\<close> is
  the message of the error code a step ends with, if any.\<close>

fun acceptor_steps :: "(string \<Rightarrow> string option) \<Rightarrow> string list \<Rightarrow> unit result" where
  "acceptor_steps ec [] = Inr ()"
| "acceptor_steps ec (what # rest) =
     (case ec what of Some msg \<Rightarrow> Inl (Runtime_error (what @ msg)) | None \<Rightarrow> acceptor_steps ec rest)"

definition sv_open ::
  "os_env \<Rightarrow> bool \<Rightarrow> (string \<Rightarrow> string option) \<Rightarrow> string \<Rightarrow> nat \<Rightarrow> nat \<Rightarrow> (string \<Rightarrow> cat_layout) \<Rightarrow> (string \<Rightarrow> cont_layout) \<Rightarrow> server result" where
  "sv_open os address_valid ec db_path num_shards num_threads cats dats =
     bind_r (sh_open os db_path num_shards cats dats) (\<lambda>db.
     if \<not> address_valid then Inl System_error
     else
       bind_r (acceptor_steps ec
         [''Failed to open acceptor: '', ''Failed to set reuse_address: '', ''Failed to bind: '', ''Failed to listen: '']) (\<lambda>_.
       Inr \<lparr>sv_running = False, sv_listening = True, sv_accept_pending = False, sv_ioc_stopped = False, sv_threads = 0,
            sv_num_threads = num_threads, sv_db = db\<rparr>))"

definition sv_do_accept :: "server \<Rightarrow> server" where
  "sv_do_accept s = s\<lparr>sv_accept_pending := True\<rparr>"

text \<open>The handler of a finished accept: whether a session is started for the socket.\<close>

definition sv_accepted :: "bool \<Rightarrow> server \<Rightarrow> server \<times> bool" where
  "sv_accepted failed s =
     (let s = s\<lparr>sv_accept_pending := False\<rparr>; started = (\<not> failed \<and> sv_running s) in
      (if sv_running s then sv_do_accept s else s, started))"

definition sv_run :: "server \<Rightarrow> server" where
  "sv_run s = (let s = sv_do_accept (s\<lparr>sv_running := True\<rparr>) in s\<lparr>sv_threads := sv_threads s + sv_num_threads s\<rparr>)"

definition sv_stop :: "server \<Rightarrow> server" where
  "sv_stop s = (if \<not> sv_running s then s else s\<lparr>sv_running := False, sv_listening := False, sv_ioc_stopped := True\<rparr>)"

text \<open>\<open>wait\<close> joins the worker threads, which are in \<open>ioc_.run()\<close>; \<open>joins\<close> tells whether they return, which depends on the I/O context
  and on the handlers that they execute, the sessions.\<close>

definition sv_wait :: "(server \<Rightarrow> bool) \<Rightarrow> os_env \<Rightarrow> server \<Rightarrow> (server \<times> unit result) option" where
  "sv_wait joins os s =
     (if 0 < sv_threads s \<and> \<not> joins s then None
      else
        let s = s\<lparr>sv_threads := 0\<rparr>; (db, r) = sh_close os (sv_db s) in Some (s\<lparr>sv_db := db\<rparr>, r))"

definition sv_destroy :: "(server \<Rightarrow> bool) \<Rightarrow> os_env \<Rightarrow> server \<Rightarrow> (server \<times> unit result) option" where
  "sv_destroy joins os s = sv_wait joins os (sv_stop s)"

text \<open>The requests that need a key.\<close>

definition keyed_request :: "request \<Rightarrow> bool" where
  "keyed_request req \<longleftrightarrow> request_path req = ascii ''/get'' \<and> rq_method req = Verb_get
     \<or> request_path req = ascii ''/set'' \<and> rq_method req \<in> {Verb_put, Verb_post}
     \<or> request_path req = ascii ''/delete'' \<and> rq_method req = Verb_delete"

section \<open>Properties\<close>

text \<open>C3. A session is a sequence of operations on one map from keys to values: when a client sends well-formed
  requests (in any of the allowed spellings of the key) over a connection that stays up, each response is
  the one that stands for an answer the specification of the map allows at that point (200 with the value
  or 404, 200 or 409 without overwriting, 200 or 404, the list of keys), and the shards hold what the
  specification holds.\<close>

theorem http_session_refines:
  assumes "sh_holds db m" and "sh_run_served os db xs" and "list_all2 is_request xs reqs"
    and "\<forall>res. rs_version res = 11 \<longrightarrow> \<not> need_eof res"
  shows "\<exists>db' as. handle_session need_eof os db (served_turns reqs) =
      Some (Inr (db', map2 (\<lambda>x a. signed (answer_response x a)) xs as, Waiting))
    \<and> sh_run_allows m xs as \<and> sh_holds db' (fold (\<lambda>x m. sh_after m x) xs m)"
  using sh_run_spec [OF assms(1,2)] handle_session_ops [OF assms(3,4), of os db "[]"] by auto

lemma demo_key_target: "key_target path [3] (path @ 0x3F # ascii ''v=1&key='' @ base64url_encode [3])"
proof -
  let ?p = "[ascii ''v=1'', ascii ''key='' @ base64url_encode [3]]"
  have e: "base64url_encode [3] = ascii ''Aw''" by code_simp
  have "path @ 0x3F # ascii ''v=1&key='' @ base64url_encode [3] = path @ 0x3F # join_amp ?p" by (simp add: ascii_def)
  moreover have "query_value ?p (ascii ''key='') = base64url_encode [3]" by (simp add: query_value_def ascii_def e)
  moreover have "url_encodes (base64url_encode [3]) (base64url_encode [3])" unfolding e ascii_def
    by (simp add: url_encodes.intros)
  moreover have "base64url_encode [3] \<noteq> []" "\<forall>p \<in> set ?p. 0x26 \<notin> set p" by (simp_all add: e ascii_def)
  ultimately show ?thesis unfolding key_target_def using base64url_decode_encode by metis
qed

definition demo_request :: "verb \<Rightarrow> string \<Rightarrow> bytes \<Rightarrow> request" where
  "demo_request v path body =
     \<lparr>rq_method = v, rq_target = ascii path @ 0x3F # ascii ''v=1&key='' @ base64url_encode [3], rq_version = 11, rq_body = body\<rparr>"

theorem http_session_refines_witness:
  "\<exists>db db' as. sh_open demo_os ''db'' 4 (\<lambda>_. empty_cat_layout) (\<lambda>_. empty_cont_layout BS) = Inr db
    \<and> handle_session (\<lambda>res. rs_version res \<noteq> 11) demo_os db
        (served_turns [demo_request Verb_put ''/set'' [4], demo_request Verb_get ''/get'' []]) =
      Some (Inr (db', map2 (\<lambda>x a. signed (answer_response x a)) [SSet [3] [4], SGet [3]] as, Waiting))
    \<and> sh_run_allows (\<lambda>_. None) [SSet [3] [4], SGet [3]] as"
proof -
  obtain db where db: "sh_open demo_os ''db'' 4 (\<lambda>_. empty_cat_layout) (\<lambda>_. empty_cont_layout BS) = Inr db"
    "sh_holds db (\<lambda>_. None)" "sh_room demo_os db [3] [4]" by (rule demo_shards)
  have served: "sh_run_served demo_os db [SSet [3] [4], SGet [3]]" using db(3) by (auto split: option.splits sum.splits)
  have "is_request (SSet [3] (rq_body (demo_request Verb_put ''/set'' [4]))) (demo_request Verb_put ''/set'' [4])"
    by (rule is_request.set) (simp_all add: demo_request_def demo_key_target)
  moreover have "is_request (SGet [3]) (demo_request Verb_get ''/get'' [])"
    by (rule is_request.get) (simp_all add: demo_request_def demo_key_target)
  ultimately have "list_all2 is_request [SSet [3] [4], SGet [3]] [demo_request Verb_put ''/set'' [4], demo_request Verb_get ''/get'' []]"
    by (simp add: demo_request_def)
  then show ?thesis using db(1) http_session_refines [OF db(2) served, of _ "\<lambda>res. rs_version res \<noteq> 11"] by blast
qed

text \<open>C38. What \<open>GET /keys\<close> returns can be read back: splitting the body into lines and decoding each of
  them gives the keys of the map, each once.\<close>

theorem http_keys_readable:
  assumes "sh_holds db m"
  shows "\<exists>res. handle_keys db = Some (Inr res) \<and> rs_status res = Ok_200
    \<and> distinct (map base64url_decode (split_lines (rs_body res) [])) \<and> set (map base64url_decode (split_lines (rs_body res) [])) = dom m"
  using sh_keys_spec [OF assms]
  by (auto simp: handle_keys_def respond_def keys_body_lines base64url_decode_encode comp_def image_image)

theorem http_keys_readable_witness:
  "\<exists>db res. sh_open demo_os ''db'' 4 (\<lambda>_. empty_cat_layout) (\<lambda>_. empty_cont_layout BS) = Inr db \<and> handle_keys db = Some (Inr res)
    \<and> set (map base64url_decode (split_lines (rs_body res) [])) = dom (\<lambda>_ :: bytes. None :: bytes option)"
proof -
  obtain db where db: "sh_open demo_os ''db'' 4 (\<lambda>_. empty_cat_layout) (\<lambda>_. empty_cont_layout BS) = Inr db"
    "sh_holds db (\<lambda>_. None)" by (rule demo_shards)
  then show ?thesis using http_keys_readable [OF db(2)] by blast
qed

text \<open>C36. Requests that need a key and do not name one are answered with 400, requests for anything the server
  does not offer with 404, and both leave the shards as they are. The empty key, whose base64url text is
  empty, cannot be asked for.\<close>

theorem http_rejects:
  "(keyed_request req \<and> extract_query_param (rq_target req) (ascii ''key'') = [] \<longrightarrow>
      handle_request os db req = Some (Inr (db, missing_key req)))
   \<and> (\<not> keyed_request req \<and> \<not> (request_path req = ascii ''/keys'' \<and> rq_method req = Verb_get) \<and> request_path req \<noteq> ascii ''/health'' \<longrightarrow>
      handle_request os db req = Some (Inr (db, respond Not_found_404 (rq_version req) ''text/plain'' (ascii ''Not Found''))))
   \<and> base64url_encode [] = []"
proof -
  have "base64url_encode [] = []" by code_simp
  then show ?thesis
    by (auto simp: keyed_request_def handle_request_def request_key_def paths_distinct Let_def)
qed

definition demo_no_key :: request where
  "demo_no_key = \<lparr>rq_method = Verb_get, rq_target = ascii ''/get?key='' @ base64url_encode [], rq_version = 11, rq_body = []\<rparr>"

theorem http_rejects_witness:
  "handle_request demo_os \<lparr>sh_shards = [], sh_num_shards = 0\<rparr> demo_no_key =
     Some (Inr (\<lparr>sh_shards = [], sh_num_shards = 0\<rparr>, missing_key demo_no_key))"
proof -
  have "keyed_request demo_no_key" "extract_query_param (rq_target demo_no_key) (ascii ''key'') = []" by code_simp+
  then show ?thesis using http_rejects [of demo_no_key demo_os "\<lparr>sh_shards = [], sh_num_shards = 0\<rparr>"] by simp
qed

text \<open>Shutting down: once the server has been told to stop, waiting for it returns if the worker threads
  return (no session is left in one) and the files can be closed; no thread is left, an accept that
  completes late starts no session and is not repeated, and the destructor that follows does nothing
  further.\<close>

theorem server_shuts_down:
  assumes "\<forall>s. sv_ioc_stopped s \<longrightarrow> joins s" and "sh_close os (sv_db s) = (db', Inr ())"
  shows "\<exists>s'. sv_wait joins os (sv_stop (sv_run s)) = Some (s', Inr ()) \<and> sv_threads s' = 0
    \<and> sv_accepted failed s' = (s'\<lparr>sv_accept_pending := False\<rparr>, False) \<and> sv_db s' = db' \<and> sv_destroy joins os s' = Some (s', Inr ())"
proof -
  let ?s = "sv_stop (sv_run s)"
  have s: "sv_ioc_stopped ?s" "\<not> sv_running ?s" "sv_db ?s = sv_db s"
    by (simp_all add: sv_stop_def sv_run_def sv_do_accept_def)
  let ?s' = "?s\<lparr>sv_threads := 0, sv_db := db'\<rparr>"
  have "sv_wait joins os ?s = Some (?s', Inr ())" using s(1,3) assms by (simp add: sv_wait_def Let_def)
  moreover have "sv_stop ?s' = ?s'" using s(2) by (simp add: sv_stop_def [of ?s'])
  moreover have "sh_close os db' = (db', Inr ())" by (rule sh_close_again [OF assms(2)])
  ultimately show ?thesis using s(2) by (auto simp: sv_destroy_def sv_wait_def sv_accepted_def)
qed

theorem server_shuts_down_witness:
  "\<exists>s'. sv_wait sv_ioc_stopped demo_os (sv_stop (sv_run \<lparr>sv_running = False, sv_listening = True, sv_accept_pending = False, sv_ioc_stopped = False, sv_threads = 0,
     sv_num_threads = 4, sv_db = \<lparr>sh_shards = [], sh_num_shards = 0\<rparr>\<rparr>)) = Some (s', Inr ()) \<and> sv_threads s' = 0"
  using server_shuts_down [of sv_ioc_stopped demo_os "\<lparr>sv_running = False, sv_listening = True, sv_accept_pending = False, sv_ioc_stopped = False, sv_threads = 0,
     sv_num_threads = 4, sv_db = \<lparr>sh_shards = [], sh_num_shards = 0\<rparr>\<rparr>"]
  by (auto simp: sh_close_def)

end
