(* ===== verification/Server_Main.thy ===== *)
theory Server_Main
  imports Http_Server
begin

text \<open>
  The program \<^verbatim>\<open>diskhash_server\<close>, \<^verbatim>\<open>src/src/server/main.cpp\<close>: options, life of the server, signals and
  exit status. Boost.Program_options is outside: \<open>parse_command_line\<close> is a function from the arguments
  to the options they give, or to the text of the \<open>po::error\<close> it throws. Signals arrive at three points:
  before there is a server, between its construction and \<open>run\<close>, and while \<open>main\<close> waits; the number of
  them at each point is an input. So is what the sessions do to the database while \<open>main\<close> waits, and what becomes of
  those that are in \<open>http::read\<close> when it stops waiting for signals. Whether the worker threads return from \<^verbatim>\<open>io_context::run\<close> is a function
  of the server and of how its sessions end.
\<close>

section \<open>Model\<close>

text \<open>The options as the command line gives them; the program adds the defaults.\<close>

record given_options =
  go_help :: bool
  go_port :: "16 word option"
  go_address :: "string option"
  go_db :: "string option"
  go_shards :: "nat option"
  go_threads :: "nat option"

record variables_map =
  vm_port :: "16 word"
  vm_address :: string
  vm_db :: "string option"
  vm_shards :: nat
  vm_threads :: nat

definition with_default :: "'a option \<Rightarrow> 'a \<Rightarrow> 'a" where
  "with_default x d = (case x of Some y \<Rightarrow> y | None \<Rightarrow> d)"

definition default_options :: "nat \<Rightarrow> given_options \<Rightarrow> variables_map" where
  "default_options hardware_concurrency g =
     \<lparr>vm_port = with_default (go_port g) 8080, vm_address = with_default (go_address g) ''0.0.0.0'',
      vm_db = go_db g, vm_shards = with_default (go_shards g) 4,
      vm_threads = with_default (go_threads g) hardware_concurrency\<rparr>"

text \<open>What the program does not compute itself.\<close>

record main_env =
  me_os :: os_env
  me_parse :: "string list \<Rightarrow> string + given_options"
  me_describe :: string
  me_required :: string
  me_what :: "error \<Rightarrow> string"
  me_concurrency :: nat
  me_address_valid :: "string \<Rightarrow> bool"
  me_acceptor :: "string \<Rightarrow> 16 word \<Rightarrow> string \<Rightarrow> string option"
  me_cats :: "string \<Rightarrow> cat_layout"
  me_dats :: "string \<Rightarrow> cont_layout"
  me_joins :: "server \<Rightarrow> session_end list \<Rightarrow> bool"
  me_need_eof :: "response \<Rightarrow> bool"
  me_work :: "sharded_hash_map \<Rightarrow> sharded_hash_map"
  me_open :: "open_session list"
  me_signals :: "nat \<times> nat \<times> nat"

text \<open>How the process ends: with an exit status, or abnormally.\<close>

datatype main_end = Exit nat | Aborted

definition signal_handler :: "server option \<Rightarrow> server option" where
  "signal_handler g_server = (case g_server of Some s \<Rightarrow> Some (sv_stop s) | None \<Rightarrow> None)"

definition newline :: string where
  "newline = [CHR 0x0A]"

text \<open>The handler of \<open>std::exception\<close>; undefined behaviour, faults and failed assertions are not exceptions.\<close>

definition main_catch :: "main_env \<Rightarrow> error \<Rightarrow> main_end \<times> string" where
  "main_catch env e =
     (if e \<in> {Undefined, Bad_access, Assertion_failed} then (Aborted, [])
      else (Exit 1, ''Error: '' @ me_what env e @ newline))"

definition main_catch_po :: "string \<Rightarrow> main_end \<times> string" where
  "main_catch_po what = (Exit 1, ''Error: '' @ what @ newline @ ''Use --help for usage information.'' @ newline)"

definition starting_text :: "variables_map \<Rightarrow> nat \<Rightarrow> string \<Rightarrow> string" where
  "starting_text vm num_threads db_path =
     ''Starting diskhash_server on '' @ vm_address vm @ '':'' @ to_string (unat (vm_port vm)) @ '' with '' @ to_string (vm_shards vm)
     @ '' shards and '' @ to_string num_threads @ '' threads'' @ newline @ ''Database path: '' @ db_path @ newline"

text \<open>The end of the process destroys the server that \<open>g_server\<close> still points to; an exception that leaves
  a destructor ends the program.\<close>

definition main_destroy :: "main_env \<Rightarrow> session_end list \<Rightarrow> server option \<Rightarrow> main_end \<Rightarrow> main_end option" where
  "main_destroy env ends g_server status =
     (case g_server of
        None \<Rightarrow> Some status
      | Some s \<Rightarrow>
          (case sv_destroy (\<lambda>s. me_joins env s ends) (me_os env) s of
             None \<Rightarrow> None
           | Some (_, Inl _) \<Rightarrow> Some Aborted
           | Some (_, Inr _) \<Rightarrow> Some status))"

text \<open>From the construction of the server on, with the text written so far. An exception that leaves a session leaves the
  function of its thread, which ends the program.\<close>

definition main_serve :: "main_env \<Rightarrow> variables_map \<Rightarrow> string \<Rightarrow> nat \<Rightarrow> string \<Rightarrow> (main_end \<times> string) option" where
  "main_serve env vm db_path num_threads out =
     (let (before, early, late) = me_signals env; g_server = (signal_handler ^^ before) None in
      case sv_open (me_os env) (me_address_valid env (vm_address vm)) (me_acceptor env (vm_address vm) (vm_port vm))
             db_path (vm_shards vm) num_threads (me_cats env) (me_dats env) of
        Inl e \<Rightarrow> Some (let (status, err) = main_catch env e in (status, out @ err))
      | Inr server \<Rightarrow>
          let g_server = (signal_handler ^^ early) (Some server);
              g_server = map_option sv_run g_server;
              out = out @ ''Server is running. Press Ctrl+C to stop.'' @ newline;
              g_server = map_option (\<lambda>s. s\<lparr>sv_db := me_work env (sv_db s)\<rparr>) g_server;
              g_server = (signal_handler ^^ late) g_server
          in
          case finish_sessions (me_need_eof env) (me_os env) (sv_running (the g_server)) (sv_db (the g_server)) (me_open env) of
            None \<Rightarrow> None
          | Some (Inl e) \<Rightarrow> Some (Aborted, out)
          | Some (Inr (db, ends)) \<Rightarrow>
              (case sv_wait (\<lambda>s. me_joins env s ends) (me_os env) ((the g_server)\<lparr>sv_db := db\<rparr>) of
                 None \<Rightarrow> None
               | Some (s, Inl e) \<Rightarrow>
                   (case main_catch env e of
                      (Aborted, err) \<Rightarrow> Some (Aborted, out @ err)
                    | (status, err) \<Rightarrow> map_option (\<lambda>st. (st, out @ err)) (main_destroy env ends (Some s) status))
               | Some (s, Inr _) \<Rightarrow>
                   map_option (\<lambda>st. (st, out @ ''Server stopped.'' @ newline)) (main_destroy env ends (Some s) (Exit 0))))"

definition main_program :: "main_env \<Rightarrow> string list \<Rightarrow> (main_end \<times> string) option" where
  "main_program env argv =
     (case me_parse env argv of
        Inl what \<Rightarrow> Some (main_catch_po what)
      | Inr g \<Rightarrow>
          let vm = default_options (me_concurrency env) g in
          if go_help g then Some (Exit 0, ''Usage: diskhash_server [options]'' @ newline @ newline @ me_describe env @ newline)
          else
            (case vm_db vm of
               None \<Rightarrow> Some (main_catch_po (me_required env))
             | Some db_path \<Rightarrow>
                 let num_threads = (if vm_threads vm = 0 then 1 else vm_threads vm) in
                 main_serve env vm db_path num_threads (starting_text vm num_threads db_path)))"

section \<open>Signals\<close>

lemma signals_no_server [simp]: "(signal_handler ^^ n) None = None"
  by (induction n) (simp_all add: signal_handler_def)

lemma sv_stop_stopped [simp]: "\<not> sv_running s \<Longrightarrow> sv_stop s = s"
  by (simp add: sv_stop_def)

lemma sv_stop_not_running [simp]: "\<not> sv_running (sv_stop s)"
  by (simp add: sv_stop_def)

lemma signals_stopped [simp]: "\<not> sv_running s \<Longrightarrow> (signal_handler ^^ n) (Some s) = Some s"
  by (induction n) (simp_all add: signal_handler_def)

lemma signals_running: "0 < n \<Longrightarrow> (signal_handler ^^ n) (Some s) = Some (sv_stop s)"
proof (induction n)
  case (Suc n)
  then show ?case by (cases n) (simp_all add: signal_handler_def)
qed simp

lemma sv_open_state:
  assumes "sv_open os valid ec db n threads cats dats = Inr s"
  shows "\<not> sv_running s" "\<not> sv_ioc_stopped s" "sv_threads s = 0" "sv_num_threads s = threads" "sh_open os db n cats dats = Inr (sv_db s)"
  using assms by (auto simp: sv_open_def bind_r_eq_Inr split: if_splits)

text \<open>Serving: the state in which \<open>main\<close> waits.\<close>

definition serving :: "main_env \<Rightarrow> server \<Rightarrow> server" where
  "serving env s = (sv_run s)\<lparr>sv_db := me_work env (sv_db s)\<rparr>"

lemma serving_fields [simp]:
  "sv_running (serving env s)" "sv_threads (serving env s) = sv_threads s + sv_num_threads s"
  "sv_ioc_stopped (serving env s) = sv_ioc_stopped s" "sv_accept_pending (serving env s)" "sv_db (serving env s) = me_work env (sv_db s)"
  by (simp_all add: serving_def sv_run_def sv_do_accept_def Let_def)

lemma main_serve_opened:
  assumes "sv_open (me_os env) (me_address_valid env (vm_address vm)) (me_acceptor env (vm_address vm) (vm_port vm))
             db_path (vm_shards vm) num_threads (me_cats env) (me_dats env) = Inr s" (is "?open = _")
    and signals: "me_signals env = (before, early, late)"
    and run: "run = out @ ''Server is running. Press Ctrl+C to stop.'' @ newline"
    and sessions: "finish_sessions (me_need_eof env) (me_os env) (late = 0) (me_work env (sv_db s)) (me_open env) = Some (Inr (db, ends))"
  shows "main_serve env vm db_path num_threads out =
    (case sv_wait (\<lambda>s. me_joins env s ends) (me_os env) ((if 0 < late then sv_stop (serving env s) else serving env s)\<lparr>sv_db := db\<rparr>) of
       None \<Rightarrow> None
     | Some (s, Inl e) \<Rightarrow>
         (case main_catch env e of
            (Aborted, err) \<Rightarrow> Some (Aborted, run @ err)
          | (status, err) \<Rightarrow> map_option (\<lambda>st. (st, run @ err)) (main_destroy env ends (Some s) status))
     | Some (s, Inr _) \<Rightarrow> map_option (\<lambda>st. (st, run @ ''Server stopped.'' @ newline)) (main_destroy env ends (Some s) (Exit 0)))"
proof -
  have db: "sv_db (sv_run s) = sv_db s" by (simp add: sv_run_def sv_do_accept_def Let_def)
  have "(signal_handler ^^ late) (Some (serving env s)) = Some (if 0 < late then sv_stop (serving env s) else serving env s)"
    by (cases late) (simp_all add: signals_running del: funpow.simps)
  moreover have "sv_running (if 0 < late then sv_stop (serving env s) else serving env s) = (late = 0)"
    "sv_db (if 0 < late then sv_stop (serving env s) else serving env s) = me_work env (sv_db s)"
    by (simp_all add: sv_stop_def)
  ultimately show ?thesis
    unfolding main_serve_def signals Let_def prod.case run [symmetric] using assms(1) sv_open_state(1) [OF assms(1)]
    by (simp add: serving_def [symmetric] db sessions del: if_split)
qed

section \<open>Properties\<close>

text \<open>Exit status: \<open>--help\<close> ends with status 0 and anything Program_options refuses, a missing \<open>--db\<close>
  included, with status 1, without touching a file; when the server cannot be constructed because files,
  address or acceptor fail, the status is 1 too and the message is that of the exception.\<close>

theorem main_exit_codes:
  "(me_parse env argv = Inl what \<longrightarrow> main_program env argv = Some (main_catch_po what))
   \<and> (me_parse env argv = Inr g \<and> go_help g \<longrightarrow> (\<exists>out. main_program env argv = Some (Exit 0, out)))
   \<and> (me_parse env argv = Inr g \<and> \<not> go_help g \<and> go_db g = None \<longrightarrow> main_program env argv = Some (main_catch_po (me_required env)))
   \<and> (me_parse env argv = Inr g \<and> \<not> go_help g \<and> go_db g = Some db \<and> vm = default_options (me_concurrency env) g
      \<and> n = (if vm_threads vm = 0 then 1 else vm_threads vm)
      \<and> sv_open (me_os env) (me_address_valid env (vm_address vm)) (me_acceptor env (vm_address vm) (vm_port vm))
          db (vm_shards vm) n (me_cats env) (me_dats env) = Inl e
      \<and> e \<notin> {Undefined, Bad_access, Assertion_failed} \<longrightarrow>
      main_program env argv = Some (Exit 1, starting_text vm n db @ ''Error: '' @ me_what env e @ newline))
   \<and> fst (main_catch_po what) = Exit 1"
  by (auto simp: main_program_def main_serve_def default_options_def main_catch_po_def main_catch_def Let_def split: prod.splits)

definition demo_env :: "nat \<Rightarrow> nat \<Rightarrow> open_session list \<Rightarrow> main_env" where
  "demo_env early late sessions =
     \<lparr>me_os = demo_os,
      me_parse = (\<lambda>argv. if argv = [''--db'', ''db''] then
          Inr \<lparr>go_help = False, go_port = None, go_address = None, go_db = Some ''db'', go_shards = None, go_threads = Some 0\<rparr>
        else Inl ''unrecognised option''),
      me_describe = [], me_required = ''the option --db is required but missing'', me_what = (\<lambda>_. ''error''), me_concurrency = 8,
      me_address_valid = (\<lambda>_. True), me_acceptor = (\<lambda>_ _ _. None), me_cats = (\<lambda>_. empty_cat_layout), me_dats = (\<lambda>_. empty_cont_layout BS),
      me_joins = (\<lambda>s ends. (sv_ioc_stopped s \<or> \<not> sv_accept_pending s) \<and> Waiting \<notin> set ends), me_need_eof = (\<lambda>_. False), me_work = id,
      me_open = sessions, me_signals = (0, early, late)\<rparr>"

theorem main_exit_codes_witness:
  "main_program (demo_env 0 1 []) [''--bogus''] = Some (main_catch_po ''unrecognised option'')"
  using main_exit_codes [of "demo_env 0 1 []" "[''--bogus'']" "''unrecognised option''"] by (simp add: demo_env_def)


lemma demo_os_closes: "\<exists>db'. sh_close demo_os db = (db', Inr ())"
proof -
  have "\<exists>hm'. hm_close demo_os hm = (hm', Inr ())" for hm
    by (simp add: hm_close_def cat_close_def cont_close_def demo_os_close)
  then have "\<exists>hms'. sh_close_loop demo_os hms = (hms', Inr ())" for hms
    by (induction hms) (auto, metis (mono_tags, lifting) case_prod_conv old.sum.simps(6))
  then show ?thesis by (metis (mono_tags, lifting) sh_close_def case_prod_conv)
qed


end
