(* ===== verification/Py_Bindings.thy ===== *)
theory Py_Bindings
  imports Sharded_Hash_Map
begin

text \<open>
  The Python module of \<^verbatim>\<open>src/src/bindings.cpp\<close>: \<open>PyDiskHash\<close>, a dictionary over a hash map that can be
  closed and that can be opened read-only, and its iterator. The owned hash map is an option, \<open>None\<close>
  after \<open>close\<close>; Python exceptions are the errors \<open>Key_error\<close>, \<open>Stop_iteration\<close> and \<open>Runtime_error\<close>.
  nanobind is outside: a \<^verbatim>\<open>nb::bytes\<close> is its bytes, and \<^verbatim>\<open>nb::cast\<close> is an argument.
\<close>

section \<open>PyDiskHash\<close>

record py_disk_hash =
  py_map :: "hash_map option"
  py_path :: string
  py_read_only :: bool

definition py_open :: "os_env \<Rightarrow> string \<Rightarrow> bool \<Rightarrow> cat_layout \<Rightarrow> cont_layout \<Rightarrow> py_disk_hash result" where
  "py_open os path read_only cat_disk cont_disk =
     bind_r (hm_open os BS path read_only cat_disk cont_disk) (\<lambda>hm.
     Inr \<lparr>py_map = Some hm, py_path = path, py_read_only = read_only\<rparr>)"

definition ensure_open :: "py_disk_hash \<Rightarrow> hash_map result" where
  "ensure_open p = (case py_map p of None \<Rightarrow> Inl (Runtime_error ''hash map is closed'') | Some hm \<Rightarrow> Inr hm)"

text \<open>The exception for a key carries the key as a C string, which ends at the first zero byte.\<close>

definition key_error :: "bytes \<Rightarrow> error" where
  "key_error key = Key_error (takeWhile (\<lambda>c. c \<noteq> 0) key)"

definition py_get :: "py_disk_hash \<Rightarrow> bytes \<Rightarrow> bytes result option" where
  "py_get p key =
     bind_o (Some (ensure_open p)) (\<lambda>hm.
     bind_o (hm_find BS hm (fnv1a key) key) (\<lambda>r.
     case r of None \<Rightarrow> Some (Inl (key_error key)) | Some sv \<Rightarrow> Some (sv_read BS (hm_container hm) sv)))"

definition py_get_default :: "(bytes \<Rightarrow> 'o) \<Rightarrow> py_disk_hash \<Rightarrow> bytes \<Rightarrow> 'o \<Rightarrow> 'o result option" where
  "py_get_default cast p key default_val =
     bind_o (Some (ensure_open p)) (\<lambda>hm.
     bind_o (hm_find BS hm (fnv1a key) key) (\<lambda>r.
     case r of
       None \<Rightarrow> Some (Inr default_val)
     | Some sv \<Rightarrow> bind_o (Some (sv_read BS (hm_container hm) sv)) (\<lambda>v. Some (Inr (cast v)))))"

definition ensure_writable :: "py_disk_hash \<Rightarrow> unit result" where
  "ensure_writable p = (if py_read_only p then Inl (Runtime_error ''hash map is read-only'') else Inr ())"

definition py_put :: "os_env \<Rightarrow> py_disk_hash \<Rightarrow> bytes \<Rightarrow> bytes \<Rightarrow> py_disk_hash result option" where
  "py_put os p key v =
     bind_o (Some (ensure_open p)) (\<lambda>hm.
     bind_o (Some (ensure_writable p)) (\<lambda>_.
     bind_o (hm_find BS hm (fnv1a key) key) (\<lambda>r.
     if r \<noteq> None then Some (Inl (key_error key))
     else
       bind_o (hm_get os BS hm (fnv1a key) key v) (\<lambda>(hm, _).
       Some (Inr (p\<lparr>py_map := Some hm\<rparr>))))))"

definition py_contains :: "py_disk_hash \<Rightarrow> bytes \<Rightarrow> bool result option" where
  "py_contains p key =
     bind_o (Some (ensure_open p)) (\<lambda>hm.
     bind_o (hm_find BS hm (fnv1a key) key) (\<lambda>r. Some (Inr (r \<noteq> None))))"

definition py_remove :: "py_disk_hash \<Rightarrow> bytes \<Rightarrow> py_disk_hash result option" where
  "py_remove p key =
     bind_o (Some (ensure_open p)) (\<lambda>hm.
     bind_o (Some (ensure_writable p)) (\<lambda>_.
     bind_o (hm_remove BS hm (fnv1a key) key) (\<lambda>(hm, removed).
     if \<not> removed then Some (Inl (key_error key)) else Some (Inr (p\<lparr>py_map := Some hm\<rparr>)))))"

definition py_bytes_allocated :: "py_disk_hash \<Rightarrow> nat result" where
  "py_bytes_allocated p = bind_r (ensure_open p) (\<lambda>hm. Inr (hm_bytes_allocated hm))"

text \<open>\<open>close\<close> releases the map only after closing it succeeded; \<open>__exit__\<close> is \<open>close\<close>.\<close>

definition py_close :: "os_env \<Rightarrow> py_disk_hash \<Rightarrow> py_disk_hash \<times> unit result" where
  "py_close os p =
     (case py_map p of
        None \<Rightarrow> (p, Inr ())
      | Some hm \<Rightarrow>
          let (hm, r) = hm_close os hm in
          (case r of Inl e \<Rightarrow> (p\<lparr>py_map := Some hm\<rparr>, Inl e) | Inr _ \<Rightarrow> (p\<lparr>py_map := None\<rparr>, Inr ())))"

definition py_enter :: "py_disk_hash \<Rightarrow> py_disk_hash" where
  "py_enter p = p"

definition py_exit :: "os_env \<Rightarrow> py_disk_hash \<Rightarrow> py_disk_hash \<times> unit result" where
  "py_exit os p = py_close os p"

definition py_map_ptr :: "py_disk_hash \<Rightarrow> hash_map result" where
  "py_map_ptr p = ensure_open p"

section \<open>Iterator\<close>

record py_iterator =
  pi_it :: const_iterator
  pi_end :: const_iterator

definition py_iterator_new :: "hash_map \<Rightarrow> py_iterator result option" where
  "py_iterator_new hm = bind_o (hm_begin BS hm) (\<lambda>it. Some (Inr \<lparr>pi_it = it, pi_end = hm_end\<rparr>))"

definition py_iter :: "py_disk_hash \<Rightarrow> py_iterator result option" where
  "py_iter p = bind_o (Some (py_map_ptr p)) py_iterator_new"

text \<open>\<open>__next__\<close>: the iterator points at the hash map of the object it was made from; once that is closed
  the pointer dangles.\<close>

definition py_next :: "py_disk_hash \<Rightarrow> py_iterator \<Rightarrow> (py_iterator \<times> bytes \<times> bytes) result option" where
  "py_next p pit =
     (if it_eq (pi_it pit) (pi_end pit) then Some (Inl Stop_iteration)
      else
        (case py_map p of
           None \<Rightarrow> Some (Inl Undefined)
         | Some hm \<Rightarrow>
             bind_o (Some (it_deref BS hm (pi_it pit))) (\<lambda>(key, v).
             bind_o (it_next BS hm (pi_it pit)) (\<lambda>it.
             Some (Inr (pit\<lparr>pi_it := it\<rparr>, key, v))))))"

text \<open>A Python loop over the object.\<close>

partial_function (option) py_loop :: "py_disk_hash \<Rightarrow> py_iterator \<Rightarrow> (bytes \<times> bytes) list \<Rightarrow> (bytes \<times> bytes) list result option" where
  "py_loop p pit acc =
     (case py_next p pit of
        None \<Rightarrow> None
      | Some r \<Rightarrow>
          (case r of
             Inl e \<Rightarrow> (if e = Stop_iteration then Some (Inr acc) else Some (Inl e))
           | Inr (pit, x) \<Rightarrow> py_loop p pit (acc @ [x])))"

definition py_items :: "py_disk_hash \<Rightarrow> (bytes \<times> bytes) list result option" where
  "py_items p = bind_o (py_iter p) (\<lambda>pit. py_loop p pit [])"

section \<open>A dictionary\<close>

definition py_holds :: "py_disk_hash \<Rightarrow> key_contents \<Rightarrow> bool" where
  "py_holds p m \<longleftrightarrow> (\<exists>hm. py_map p = Some hm \<and> hm_holds BS hm m \<and> (py_read_only p \<or> hm_rw hm))"

definition py_room :: "os_env \<Rightarrow> py_disk_hash \<Rightarrow> bytes \<Rightarrow> bytes \<Rightarrow> bool" where
  "py_room os p k v \<longleftrightarrow> (\<forall>hm. py_map p = Some hm \<longrightarrow> hm_room os BS hm k v)"

lemma py_holdsE:
  assumes "py_holds p m"
  obtains hm where "py_map p = Some hm" and "ensure_open p = Inr hm" and "hm_holds BS hm m" and "py_read_only p \<or> hm_rw hm"
  using assms by (auto simp: py_holds_def ensure_open_def)

lemma py_get_spec: "py_holds p m \<Longrightarrow> py_get p k = Some (case m k of None \<Rightarrow> Inl (key_error k) | Some v \<Rightarrow> Inr v)"
  and py_get_default_spec: "py_holds p m \<Longrightarrow> py_get_default cast p k d = Some (Inr (case m k of None \<Rightarrow> d | Some v \<Rightarrow> cast v))"
  and py_contains_spec: "py_holds p m \<Longrightarrow> py_contains p k = Some (Inr (m k \<noteq> None))"
proof -
  assume "py_holds p m"
  then obtain hm where hm: "ensure_open p = Inr hm" "hm_holds BS hm m" by (rule py_holdsE)
  have "py_get p k = Some (case m k of None \<Rightarrow> Inl (key_error k) | Some v \<Rightarrow> Inr v)
    \<and> py_get_default cast p k d = Some (Inr (case m k of None \<Rightarrow> d | Some v \<Rightarrow> cast v)) \<and> py_contains p k = Some (Inr (m k \<noteq> None))"
  proof (cases "m k")
    case None
    then show ?thesis using hm_kv.key_find_absent [OF hm(2) None] hm(1) by (simp add: py_get_def py_get_default_def py_contains_def)
  next
    case (Some v)
    obtain sv where "hm_find BS hm (fnv1a k) k = Some (Inr (Some sv))" "sv_read BS (hm_container hm) sv = Inr v"
      by (rule hm_kv.key_find_present [OF hm(2) Some])
    then show ?thesis using Some hm(1) by (simp add: py_get_def py_get_default_def py_contains_def)
  qed
  then show "py_get p k = Some (case m k of None \<Rightarrow> Inl (key_error k) | Some v \<Rightarrow> Inr v)"
    "py_get_default cast p k d = Some (Inr (case m k of None \<Rightarrow> d | Some v \<Rightarrow> cast v))"
    "py_contains p k = Some (Inr (m k \<noteq> None))" by blast+
qed

lemma py_put_spec:
  assumes P: "py_holds p m" and rw: "\<not> py_read_only p"
  shows "m k \<noteq> None \<Longrightarrow> py_put os p k v = Some (Inl (key_error k))"
    and "m k = None \<Longrightarrow> py_room os p k v \<Longrightarrow>
      \<exists>p'. py_put os p k v = Some (Inr p') \<and> py_holds p' (m(k \<mapsto> v)) \<and> \<not> py_read_only p'"
proof -
  obtain hm where hm: "py_map p = Some hm" "ensure_open p = Inr hm" "hm_holds BS hm m" "hm_rw hm"
    using rw py_holdsE [OF P] by blast
  note w = hm(2) rw
  show "py_put os p k v = Some (Inl (key_error k))" if there: "m k \<noteq> None"
  proof -
    obtain v' where v': "m k = Some v'" using there by blast
    obtain sv where "hm_find BS hm (fnv1a k) k = Some (Inr (Some sv))" by (rule hm_kv.key_find_present [OF hm(3) v'])
    then show ?thesis using w by (simp add: py_put_def ensure_writable_def)
  qed
  assume none: "m k = None" and "py_room os p k v"
  then have room: "hm_room os BS hm k v" using hm(1) by (simp add: py_room_def)
  obtain hm' sv where "hm_find BS hm (fnv1a k) k = Some (Inr None)" "hm_get os BS hm (fnv1a k) k v = Some (Inr (hm', Some sv))"
    "hm_holds BS hm' (m(k \<mapsto> v))" "hm_rw hm'" by (rule hm_kv.key_put [OF hm(3,4) room none])
  then show "\<exists>p'. py_put os p k v = Some (Inr p') \<and> py_holds p' (m(k \<mapsto> v)) \<and> \<not> py_read_only p'"
    using w by (auto simp: py_put_def ensure_writable_def py_holds_def)
qed

lemma py_remove_spec:
  assumes P: "py_holds p m" and rw: "\<not> py_read_only p"
  shows "m k = None \<Longrightarrow> py_remove p k = Some (Inl (key_error k))"
    and "m k \<noteq> None \<Longrightarrow> \<exists>p'. py_remove p k = Some (Inr p') \<and> py_holds p' (m(k := None)) \<and> \<not> py_read_only p'"
proof -
  obtain hm where hm: "ensure_open p = Inr hm" "hm_holds BS hm m" "hm_rw hm" using rw py_holdsE [OF P] by blast
  obtain hm' where r: "hm_remove BS hm (fnv1a k) k = Some (Inr (hm', m k \<noteq> None))" "hm_holds BS hm' (m(k := None))" "hm_rw hm'"
    by (rule hm_kv.key_remove [OF hm(2,3)])
  then show "m k = None \<Longrightarrow> py_remove p k = Some (Inl (key_error k))"
    "m k \<noteq> None \<Longrightarrow> \<exists>p'. py_remove p k = Some (Inr p') \<and> py_holds p' (m(k := None)) \<and> \<not> py_read_only p'"
    using hm(1) rw by (auto simp: py_remove_def ensure_writable_def py_holds_def)
qed

text \<open>The loop over the iterator is the loop over the map.\<close>

lemma py_loop_collect:
  assumes "it_collect bs hm it acc = Some r"
  shows "bs = BS \<longrightarrow> py_map p = Some hm \<longrightarrow> r = Inr xs \<longrightarrow> py_loop p \<lparr>pi_it = it, pi_end = hm_end\<rparr> acc = Some (Inr xs)"
  using _ assms
proof (rule it_collect.raw_induct)
  fix coll bs hm it acc r
  assume IH: "\<And>bs hm it acc r. coll bs hm it acc = Some r \<Longrightarrow>
      bs = BS \<longrightarrow> py_map p = Some hm \<longrightarrow> r = Inr xs \<longrightarrow> py_loop p \<lparr>pi_it = it, pi_end = hm_end\<rparr> acc = Some (Inr xs)"
    and body: "(if it_eq it hm_end then Some (Inr acc)
      else case it_deref bs hm it of Inl e \<Rightarrow> Some (Inl e)
        | Inr x \<Rightarrow> (case it_next bs hm it of None \<Rightarrow> None
            | Some r \<Rightarrow> (case r of Inl e \<Rightarrow> Some (Inl e) | Inr it \<Rightarrow> coll bs hm it (acc @ [x])))) = Some r"
  show "bs = BS \<longrightarrow> py_map p = Some hm \<longrightarrow> r = Inr xs \<longrightarrow> py_loop p \<lparr>pi_it = it, pi_end = hm_end\<rparr> acc = Some (Inr xs)"
    using body IH
    by (subst py_loop.simps) (auto simp: py_next_def split: if_split_asm sum.split_asm option.split_asm)
qed

lemma py_items_spec:
  assumes "py_holds p m"
  obtains xs where "py_items p = Some (Inr xs)" and "distinct (map fst xs)" and "\<forall>k v. (k, v) \<in> set xs \<longleftrightarrow> m k = Some v"
proof -
  from assms obtain hm where hm: "py_map p = Some hm" "ensure_open p = Inr hm" "hm_holds BS hm m" by (rule py_holdsE)
  obtain xs where xs: "hm_listing BS hm = Some (Inr xs)" "distinct (map fst xs)" "\<forall>k v. (k, v) \<in> set xs \<longleftrightarrow> m k = Some v"
    by (rule hm_it.key_lists [OF hm(3)])
  from xs(1) obtain it where it: "hm_begin BS hm = Some (Inr it)" "it_collect BS hm it [] = Some (Inr xs)"
    by (auto simp: hm_listing_def bind_o_eq_Inr)
  have "py_items p = Some (Inr xs)"
    using py_loop_collect [OF it(2), of p xs] hm(1,2) it(1) by (simp add: py_items_def py_iter_def py_iterator_new_def py_map_ptr_def)
  then show ?thesis using xs(2,3) that by blast
qed

section \<open>Sequences of operations\<close>

text \<open>A Python program sees either a result or an exception, which it may catch and go on.\<close>

datatype py_op = P_getitem bytes | P_setitem bytes bytes | P_contains bytes | P_delitem bytes

datatype py_answer = P_bytes bytes | P_bool bool | P_none | P_raises error

definition py_update :: "py_disk_hash \<Rightarrow> py_disk_hash result option \<Rightarrow> (py_disk_hash \<times> py_answer) option" where
  "py_update p r =
     (case r of None \<Rightarrow> None | Some (Inl e) \<Rightarrow> Some (p, P_raises e) | Some (Inr p') \<Rightarrow> Some (p', P_none))"

fun py_do :: "os_env \<Rightarrow> py_disk_hash \<Rightarrow> py_op \<Rightarrow> (py_disk_hash \<times> py_answer) option" where
  "py_do os p (P_getitem k) = map_option (\<lambda>r. (p, case r of Inl e \<Rightarrow> P_raises e | Inr v \<Rightarrow> P_bytes v)) (py_get p k)"
| "py_do os p (P_setitem k v) = py_update p (py_put os p k v)"
| "py_do os p (P_contains k) = map_option (\<lambda>r. (p, case r of Inl e \<Rightarrow> P_raises e | Inr b \<Rightarrow> P_bool b)) (py_contains p k)"
| "py_do os p (P_delitem k) = py_update p (py_remove p k)"

text \<open>The dictionary a program expects: reading and deleting need the key, and storing needs it to be new.\<close>

fun dict_do :: "key_contents \<Rightarrow> py_op \<Rightarrow> key_contents \<times> py_answer" where
  "dict_do m (P_getitem k) = (m, case m k of None \<Rightarrow> P_raises (key_error k) | Some v \<Rightarrow> P_bytes v)"
| "dict_do m (P_setitem k v) = (if m k = None then (m(k \<mapsto> v), P_none) else (m, P_raises (key_error k)))"
| "dict_do m (P_contains k) = (m, P_bool (m k \<noteq> None))"
| "dict_do m (P_delitem k) = (if m k = None then (m, P_raises (key_error k)) else (m(k := None), P_none))"

fun py_served :: "os_env \<Rightarrow> py_disk_hash \<Rightarrow> py_op \<Rightarrow> bool" where
  "py_served os p (P_setitem k v) = (py_contains p k = Some (Inr False) \<longrightarrow> py_room os p k v)"
| "py_served os p _ = True"

fun py_run :: "os_env \<Rightarrow> py_disk_hash \<Rightarrow> py_op list \<Rightarrow> (py_disk_hash \<times> py_answer list) option" where
  "py_run os p [] = Some (p, [])"
| "py_run os p (x # xs) =
     (case py_do os p x of None \<Rightarrow> None | Some (p, a) \<Rightarrow> map_option (\<lambda>(p, as). (p, a # as)) (py_run os p xs))"

fun dict_run :: "key_contents \<Rightarrow> py_op list \<Rightarrow> key_contents \<times> py_answer list" where
  "dict_run m [] = (m, [])"
| "dict_run m (x # xs) = (let (m, a) = dict_do m x; (m, as) = dict_run m xs in (m, a # as))"

fun py_run_served :: "os_env \<Rightarrow> py_disk_hash \<Rightarrow> py_op list \<Rightarrow> bool" where
  "py_run_served os p [] = True"
| "py_run_served os p (x # xs) =
     (py_served os p x \<and> (case py_do os p x of Some (p, _) \<Rightarrow> py_run_served os p xs | None \<Rightarrow> True))"

lemma py_do_spec:
  assumes P: "py_holds p m" and rw: "\<not> py_read_only p" and x: "py_served os p x"
  shows "\<exists>p'. py_do os p x = Some (p', snd (dict_do m x)) \<and> py_holds p' (fst (dict_do m x)) \<and> \<not> py_read_only p'"
proof (cases x)
  case (P_getitem k)
  then show ?thesis using py_get_spec [OF P, of k] P rw by (simp split: option.splits)
next
  case (P_setitem k v)
  show ?thesis
  proof (cases "m k")
    case None
    then have "py_room os p k v" using x P_setitem py_contains_spec [OF P, of k] by simp
    then show ?thesis using py_put_spec(2) [OF P rw None, of os v] None P_setitem by (auto simp: py_update_def)
  next
    case (Some v')
    then show ?thesis using py_put_spec(1) [OF P rw, of k os v] P rw P_setitem by (simp add: py_update_def)
  qed
next
  case (P_contains k)
  then show ?thesis using py_contains_spec [OF P, of k] P rw by simp
next
  case (P_delitem k)
  then show ?thesis using py_remove_spec [OF P rw, of k] P rw by (cases "m k") (auto simp: py_update_def)
qed

lemma py_run_spec:
  "py_holds p m \<Longrightarrow> \<not> py_read_only p \<Longrightarrow> py_run_served os p xs \<Longrightarrow>
    \<exists>p'. py_run os p xs = Some (p', snd (dict_run m xs)) \<and> py_holds p' (fst (dict_run m xs))"
proof (induction xs arbitrary: p m)
  case (Cons x xs)
  have "py_served os p x" using Cons.prems(3) by simp
  from py_do_spec [OF Cons.prems(1,2) this] obtain p1 where
    d: "py_do os p x = Some (p1, snd (dict_do m x))" "py_holds p1 (fst (dict_do m x))" "\<not> py_read_only p1" by blast
  moreover have "py_run_served os p1 xs" using Cons.prems(3) d(1) by simp
  ultimately obtain p2 where "py_run os p1 xs = Some (p2, snd (dict_run (fst (dict_do m x)) xs))"
    "py_holds p2 (fst (dict_run (fst (dict_do m x)) xs))" using Cons.IH by blast
  then show ?case using d(1) by (simp add: split_def Let_def)
qed simp

section \<open>Properties\<close>

lemma demo_python:
  obtains p where "py_open demo_os ''db'' False empty_cat_layout (empty_cont_layout BS) = Inr p"
    and "py_holds p (\<lambda>_. None)" and "\<not> py_read_only p" and "py_room demo_os p [3] [4]"
proof -
  have "\<exists>hm. hm_open demo_os BS ''db'' False empty_cat_layout (empty_cont_layout BS) = Inr hm \<and> hm_repr BS hm (\<lambda>_. None) \<and> hm_rw hm
    \<and> c_count (hm_container hm) \<le> 2"
    using capacity_mono [OF capacity_BS, of 2 demo_os] by (intro hm_open_fresh) (simp_all add: demo_os_serves, simp add: DEFAULT_BUCKET_SIZE_def)
  then obtain hm where hm: "hm_open demo_os BS ''db'' False empty_cat_layout (empty_cont_layout BS) = Inr hm"
    "hm_holds BS hm (\<lambda>_. None)" "hm_rw hm" "c_count (hm_container hm) \<le> 2" using hm_holds_empty by blast
  have "capacity demo_os BS (2 * c_count (hm_container hm))" using capacity_mono [OF capacity_BS] hm(4) by simp
  then have "hm_room demo_os BS hm [3] [4]"
    using hm(4) demo_fits by (simp add: hm_room_def hm_capacity_def demo_os_serves DEFAULT_BUCKET_SIZE_def)
  then show ?thesis using hm that by (simp add: py_open_def py_holds_def py_room_def)
qed

text \<open>C9. A writable \<open>DiskHash\<close> behaves as a dictionary that refuses to overwrite: any sequence of reads,
  stores, membership tests and deletions gives the results and the \<open>KeyError\<close>s of the specification, and
  a failed operation changes nothing.\<close>

theorem python_refines:
  assumes "py_holds p m" and "\<not> py_read_only p" and "py_run_served os p xs"
  shows "\<exists>p'. py_run os p xs = Some (p', snd (dict_run m xs)) \<and> py_holds p' (fst (dict_run m xs))"
  by (rule py_run_spec [OF assms])

theorem python_refines_witness:
  "\<exists>p p'. py_open demo_os ''db'' False empty_cat_layout (empty_cont_layout BS) = Inr p
    \<and> py_run demo_os p [P_setitem [3] [4], P_getitem [3], P_delitem [3], P_getitem [3, 0, 5]] =
      Some (p', [P_none, P_bytes [4], P_none, P_raises (Key_error [3])])"
proof -
  let ?xs = "[P_setitem [3] [4], P_getitem [3], P_delitem [3], P_getitem [3, 0, 5]]"
  obtain p where p: "py_open demo_os ''db'' False empty_cat_layout (empty_cont_layout BS) = Inr p"
    "py_holds p (\<lambda>_. None)" "\<not> py_read_only p" "py_room demo_os p [3] [4]" by (rule demo_python)
  then have "py_run_served demo_os p ?xs" by (auto split: option.splits)
  moreover have "snd (dict_run (\<lambda>_. None) ?xs) = [P_none, P_bytes [4], P_none, P_raises (Key_error [3])]"
    by (simp add: key_error_def)
  ultimately show ?thesis using p(1) python_refines [OF p(2,3)] by metis
qed

text \<open>Iterating over a \<open>DiskHash\<close>, also a read-only one, ends and yields every item once.\<close>

theorem python_iterates:
  assumes "py_holds p m"
  shows "\<exists>xs. py_items p = Some (Inr xs) \<and> distinct (map fst xs) \<and> (\<forall>k v. (k, v) \<in> set xs \<longleftrightarrow> m k = Some v)"
  by (rule py_items_spec [OF assms]) blast

theorem python_iterates_witness:
  "\<exists>p. py_open demo_os ''db'' False empty_cat_layout (empty_cont_layout BS) = Inr p \<and> py_items p = Some (Inr [])"
proof -
  obtain p where p: "py_open demo_os ''db'' False empty_cat_layout (empty_cont_layout BS) = Inr p"
    "py_holds p (\<lambda>_. None)" by (rule demo_python)
  from python_iterates [OF p(2)] obtain xs where xs: "py_items p = Some (Inr xs)" "\<forall>k v. (k, v) \<notin> set xs" by auto
  then have "xs = []" by (cases xs) auto
  with p(1) xs(1) show ?thesis by blast
qed

end
