(* ===== verification/Exception_Safety.thy ===== *)
theory Exception_Safety
  imports Store
begin

text \<open>
  What an exception leaves behind. The model of the catalogue and the container gives the error of a call that
  throws and drops the state; here the operations that can throw because the file cannot grow are given
  with the state they leave (\<open>x_\<close>), statement by statement: \<open>catalogue::split\<close>, \<open>container::create_bucket\<close>,
  \<open>container::create_record\<close> and the beginning of \<open>container::split\<close>; \<^verbatim>\<open>Split_Exceptions\<close> goes on with its loops. The lemmas relate them to
  the model, and the properties say which of them can be repeated after an exception and which cannot.
\<close>

section \<open>Model\<close>

definition x_fill_bucket :: "nat \<Rightarrow> container \<Rightarrow> nat \<Rightarrow> nat \<Rightarrow> container \<times> nat result" where
  "x_fill_bucket bs c prefix_bits bucket_id =
     (case upd_bucket bs c bucket_id (\<lambda>b. b\<lparr>b_prefix_bits := prefix_bits, b_bytes_used := 0, b_next := INVALID_BUCKET_ID\<rparr>) of
        Inl e \<Rightarrow> (c, Inl e)
      | Inr c \<Rightarrow> (c, Inr bucket_id))"

definition x_create_bucket :: "os_env \<Rightarrow> nat \<Rightarrow> container \<Rightarrow> nat \<Rightarrow> container \<times> nat result" where
  "x_create_bucket os bs c prefix_bits =
     (if c_first_free c = INVALID_BUCKET_ID then
        let bytes_needed = sz (c_count c * bucket_size bs + cont_layout_size bs) in
        case (if bytes_needed > fm_length (c_file_map c)
              then x_fm_resize os (c_file_map c) (sz (bytes_needed * 11) div 10)
              else (c_file_map c, Inr ())) of
          (fm, Inl e) \<Rightarrow> (c\<lparr>c_file_map := fm\<rparr>, Inl e)
        | (fm, Inr _) \<Rightarrow>
            let c = c\<lparr>c_file_map := fm\<rparr> in
            if writable fm cont_header_size
            then x_fill_bucket bs (c\<lparr>c_count := sz (c_count c + 1)\<rparr>) prefix_bits (c_count c)
            else (c, Inl Bad_access)
      else
        let bucket_id = c_first_free c in
        case get_bucket bs c bucket_id of
          Inl e \<Rightarrow> (c, Inl e)
        | Inr b \<Rightarrow>
            if writable (c_file_map c) cont_header_size
            then x_fill_bucket bs (c\<lparr>c_first_free := b_next b\<rparr>) prefix_bits bucket_id
            else (c, Inl Bad_access))"

partial_function (option) x_create_record_loop ::
  "os_env \<Rightarrow> nat \<Rightarrow> nat \<Rightarrow> container \<Rightarrow> nat \<Rightarrow> (container \<times> nat result) option" where
  "x_create_record_loop os bs required c bucket_id =
     (case get_bucket bs c bucket_id of
        Inl e \<Rightarrow> Some (c, Inl e)
      | Inr b \<Rightarrow>
          if b_bytes_used b + required > bs then
            (if b_next b = INVALID_BUCKET_ID then
               (case snd (x_create_bucket os bs c (b_prefix_bits b)) of
                  Inl e \<Rightarrow> Some (fst (x_create_bucket os bs c (b_prefix_bits b)), Inl e)
                | Inr new_bucket_id \<Rightarrow>
                    (case upd_bucket bs (fst (x_create_bucket os bs c (b_prefix_bits b))) bucket_id (\<lambda>b. b\<lparr>b_next := new_bucket_id\<rparr>) of
                       Inl e \<Rightarrow> Some (fst (x_create_bucket os bs c (b_prefix_bits b)), Inl e)
                     | Inr c \<Rightarrow> x_create_record_loop os bs required c new_bucket_id))
             else x_create_record_loop os bs required c (b_next b))
          else Some (c, Inr bucket_id))"

definition x_create_record ::
  "os_env \<Rightarrow> nat \<Rightarrow> container \<Rightarrow> nat \<Rightarrow> hash_t \<Rightarrow> bytes \<Rightarrow> bytes \<Rightarrow> (container \<times> string_view result) option" where
  "x_create_record os bs c bucket_id hash key value =
     (case x_create_record_loop os bs (bytes_required key value) c bucket_id of
        None \<Rightarrow> None
      | Some (c, Inl e) \<Rightarrow> Some (c, Inl e)
      | Some (c, Inr bucket_id) \<Rightarrow>
          let used = b_bytes_used (c_buckets c bucket_id); head = enc_header hash key value @ key in
          Some (case put_data bs c bucket_id used (head @ value) of
             Inl e \<Rightarrow> (c, Inl e)
           | Inr c \<Rightarrow>
               (case upd_bucket bs c bucket_id (\<lambda>b. b\<lparr>b_bytes_used := b_bytes_used b + bytes_required key value\<rparr>) of
                  Inl e \<Rightarrow> (c, Inl e)
                | Inr c \<Rightarrow> (c, Inr \<lparr>sv_bucket = bucket_id, sv_offset = used + length head, sv_size = length value\<rparr>))))"

text \<open>The first statements of \<open>container::split\<close>: the chain gets its longer prefix, then a bucket is created.\<close>

definition x_split_begin :: "os_env \<Rightarrow> nat \<Rightarrow> container \<Rightarrow> nat \<Rightarrow> container \<times> nat result" where
  "x_split_begin os bs c bucket_id =
     (case upd_bucket bs c bucket_id (\<lambda>b. b\<lparr>b_prefix_bits := b_prefix_bits b + 1\<rparr>) of
        Inl e \<Rightarrow> (c, Inl e)
      | Inr c \<Rightarrow> x_create_bucket os bs c (b_prefix_bits (c_buckets c bucket_id)))"

text \<open>\<open>catalogue::split\<close>: the header is rewritten before the file is resized. Where the doubling loop fails is
  not followed further.\<close>

definition x_cat_split :: "os_env \<Rightarrow> catalogue \<Rightarrow> catalogue \<times> unit result" where
  "x_cat_split os c =
     (let old_buffer_size = cat_buffer_size c;
          shift = sz_sub (cat_prefix_shift c) 1;
          new_size = sz (2 * old_buffer_size) in
      if \<not> writable (cat_file_map c) cat_header_size then (c, Inl Bad_access)
      else
        let c = c\<lparr>cat_prefix_bits := cat_prefix_bits c + 1, cat_prefix_shift := shift\<rparr> in
        case shl32 1 shift of
          Inl e \<Rightarrow> (c, Inl e)
        | Inr new_bit \<Rightarrow>
            (let c = c\<lparr>cat_prefix_mask := cat_prefix_mask c OR new_bit, cat_buffer_size := new_size\<rparr> in
             case x_fm_resize os (cat_file_map c) (sz (cat_layout_size + sz_sub new_size 1 * 8)) of
               (fm, Inl e) \<Rightarrow> (c\<lparr>cat_file_map := fm\<rparr>, Inl e)
             | (fm, Inr _) \<Rightarrow>
                 (let c = c\<lparr>cat_file_map := fm\<rparr> in
                  case cat_split_loop old_buffer_size (old_buffer_size - 1) (new_size - 1) c of
                    Inl e \<Rightarrow> (c, Inl e)
                  | Inr c \<Rightarrow> (c, Inr ()))))"

lemmas x_create_record_loop_induct = x_create_record_loop.raw_induct [rotated, consumes 1, case_names step]
lemmas create_record_loop_induct = create_record_loop.raw_induct [rotated, consumes 1, case_names step]

section \<open>The model without the state after an exception\<close>

abbreviation drop_state :: "'s \<times> 'a result \<Rightarrow> ('s \<times> 'a) result" where
  "drop_state x \<equiv> map_sum id (Pair (fst x)) (snd x)"

lemma x_fill_bucket_drop:
  "drop_state (x_fill_bucket bs c prefix_bits i) =
     bind_r (upd_bucket bs c i (\<lambda>b. b\<lparr>b_prefix_bits := prefix_bits, b_bytes_used := 0, b_next := INVALID_BUCKET_ID\<rparr>)) (\<lambda>c. Inr (c, i))"
  by (simp add: x_fill_bucket_def bind_r_def split: sum.split)

lemma x_create_bucket_drop: "drop_state (x_create_bucket os bs c prefix_bits) = create_bucket os bs c prefix_bits"
  by (cases rule: x_fm_resize_cases [of os "c_file_map c" "sz (sz (c_count c * bucket_size bs + cont_layout_size bs) * 11) div 10"])
    (auto simp: x_create_bucket_def create_bucket_def x_fill_bucket_drop bind_r_def Let_def split: sum.split)

lemma x_cat_split_drop: "map_sum id fst (drop_state (x_cat_split os c)) = cat_split os c"
  by (cases rule: x_fm_resize_cases [of os "cat_file_map c" "sz (cat_layout_size + sz_sub (sz (2 * cat_buffer_size c)) 1 * 8)"])
    (auto simp: x_cat_split_def cat_split_def bind_r_def Let_def split: sum.split)

lemma x_create_bucket_cases:
  obtains (throws) e where "snd (x_create_bucket os bs c n) = Inl e" "create_bucket os bs c n = Inl e"
  | (returns) i where "snd (x_create_bucket os bs c n) = Inr i" "create_bucket os bs c n = Inr (fst (x_create_bucket os bs c n), i)"
  using x_create_bucket_drop [of os bs c n] by (cases "snd (x_create_bucket os bs c n)") (auto simp: that)

lemma x_create_record_loop_drop:
  assumes "x_create_record_loop os bs required c i = Some x"
  shows "create_record_loop os bs required c i = Some (drop_state x)"
  using assms
proof (induction rule: x_create_record_loop_induct)
  case (step loop os bs required c i x)
  note IH = step(1) and step = step(2)
  show ?case
  proof (cases "get_bucket bs c i")
    case (Inl e)
    then show ?thesis using step by (auto simp: create_record_loop.simps [of os bs required c i])
  next
    case (Inr b)
    show ?thesis
    proof (cases "b_bytes_used b + required > bs \<and> b_next b = INVALID_BUCKET_ID")
      case True
      then show ?thesis
        using step IH Inr by (cases rule: x_create_bucket_cases [of os bs c "b_prefix_bits b"])
          (auto simp: create_record_loop.simps [of os bs required c i] split: sum.splits)
    next
      case False
      then show ?thesis using step IH Inr by (auto simp: create_record_loop.simps [of os bs required c i] split: if_splits)
    qed
  qed
qed

lemma create_record_loop_keeps:
  assumes "create_record_loop os bs required c i = Some r"
  shows "\<exists>x. x_create_record_loop os bs required c i = Some x"
  using assms
proof (induction rule: create_record_loop_induct)
  case (step loop os bs required c i r)
  note IH = step(1) and step = step(2)
  show ?case
  proof (cases "get_bucket bs c i")
    case (Inl e)
    then show ?thesis by (simp add: x_create_record_loop.simps [of os bs required c i])
  next
    case (Inr b)
    show ?thesis
    proof (cases "b_bytes_used b + required > bs \<and> b_next b = INVALID_BUCKET_ID")
      case True
      then show ?thesis
        using step IH Inr by (cases rule: x_create_bucket_cases [of os bs c "b_prefix_bits b"])
          (auto simp: x_create_record_loop.simps [of os bs required c i] split: sum.splits)
    next
      case False
      then show ?thesis using step IH Inr by (auto simp: x_create_record_loop.simps [of os bs required c i] split: if_splits)
    qed
  qed
qed

lemma x_create_record_drop: "map_option drop_state (x_create_record os bs c i hash key v) = create_record os bs c i hash key v"
proof (cases "x_create_record_loop os bs (bytes_required key v) c i")
  case None
  then have "create_record_loop os bs (bytes_required key v) c i = None"
    using create_record_loop_keeps [of os bs "bytes_required key v" c i] by (cases "create_record_loop os bs (bytes_required key v) c i") auto
  then show ?thesis using None by (simp add: x_create_record_def create_record_def)
next
  case (Some x)
  then have "create_record_loop os bs (bytes_required key v) c i = Some (drop_state x)" by (rule x_create_record_loop_drop)
  then show ?thesis using Some
    by (cases x; cases "snd x") (auto simp: x_create_record_def create_record_def bind_r_def Let_def split: sum.split)
qed

section \<open>Creating a record\<close>

text \<open>Only \<open>resize\<close> throws, and it does so before anything is stored: an exception leaves the container as it was, but
  for the mapping that a \<open>resize\<close> on macOS may have given up.\<close>

definition cont_leaves :: "os_env \<Rightarrow> container \<Rightarrow> container \<Rightarrow> bool" where
  "cont_leaves os c c' \<longleftrightarrow> (\<exists>fm. resize_leaves os (c_file_map c) fm \<and> c' = c\<lparr>c_file_map := fm\<rparr>)"

lemma cont_leaves_cases: "cont_leaves os c c' \<longleftrightarrow> c' = c \<or> os_platform os = MacOS \<and> c' = c\<lparr>c_file_map := (c_file_map c)\<lparr>fm_extent := 0\<rparr>\<rparr>"
  by (auto simp: cont_leaves_def resize_leaves_def)

lemma no_throw:
  "get_bucket bs c i \<noteq> Inl System_error" "upd_bucket bs c i f \<noteq> Inl System_error" "put_data bs c i off ys \<noteq> Inl System_error"
  by (simp_all add: get_bucket_def upd_bucket_def put_data_def)

lemma x_create_bucket_throws:
  assumes "x_create_bucket os bs c n = (c', Inl System_error)"
  shows "cont_leaves os c c'"
proof -
  have "snd (x_fill_bucket bs c n i) \<noteq> Inl System_error" for c i
    using no_throw(2) by (auto simp: x_fill_bucket_def split: sum.split)
  then have "x_fill_bucket bs c n i \<noteq> (c', Inl System_error)" for c i by (metis snd_conv)
  then show ?thesis using assms no_throw(1) [of bs c "c_first_free c"]
    by (auto simp: x_create_bucket_def cont_leaves_def Let_def split: if_splits sum.splits prod.splits dest!: x_fm_resize_leaves)
qed

lemma x_create_bucket_empty:
  assumes "x_create_bucket os bs c n = (c', Inr i)"
  shows "b_bytes_used (c_buckets c' i) = 0"
proof -
  have "b_bytes_used (c_buckets c' i) = 0" if "x_fill_bucket bs c n j = (c', Inr i)" for c j
    using that by (auto simp: x_fill_bucket_def upd_bucket_def split: if_splits)
  then show ?thesis using assms by (auto simp: x_create_bucket_def Let_def split: if_splits sum.splits prod.splits)
qed

lemma x_create_record_loop_throws:
  assumes "x_create_record_loop os bs required c i = Some x" and "required \<le> bs"
  shows "(snd x = Inl System_error \<longrightarrow> cont_leaves os c (fst x)) \<and> (used_of c i + required \<le> bs \<longrightarrow> snd x \<noteq> Inl System_error)"
  using assms
proof (induction rule: x_create_record_loop_induct)
  case (step loop os bs required c i x)
  note IH = step(1) and body = step(2) and fits = step(3)
  show ?case
  proof (cases "get_bucket bs c i")
    case (Inl e)
    then show ?thesis using body no_throw(1) [of bs c i] by auto
  next
    case (Inr b)
    then have b: "b = c_buckets c i" by (simp add: get_bucket_def split: if_split_asm)
    consider (room) "used_of c i + required \<le> bs" | (more) "used_of c i + required > bs" "b_next b \<noteq> INVALID_BUCKET_ID"
      | (full) "used_of c i + required > bs" "b_next b = INVALID_BUCKET_ID" by fastforce
    then show ?thesis
    proof cases
      case full
      obtain c1 r where new: "x_create_bucket os bs c (b_prefix_bits b) = (c1, r)" by fastforce
      show ?thesis
      proof (cases r)
        case (Inl e)
        then have "x = (c1, Inl e)" using body Inr full b new by simp
        then show ?thesis using full x_create_bucket_throws [of os bs c "b_prefix_bits b" c1] new Inl by auto
      next
        case r: (Inr n)
        show ?thesis
        proof (cases "upd_bucket bs c1 i (\<lambda>b. b\<lparr>b_next := n\<rparr>)")
          case (Inl e)
          then have "x = (c1, Inl e)" using body Inr full b new r by simp
          then show ?thesis using Inl no_throw(2) [of bs c1 i "\<lambda>b. b\<lparr>b_next := n\<rparr>"] full by auto
        next
          case upd: (Inr c2)
          have "used_of c2 n = 0"
            using x_create_bucket_empty [of os bs c "b_prefix_bits b" c1 n] new r upd by (auto simp: upd_bucket_def split: if_split_asm)
          moreover have "loop os bs required c2 n = Some x" using body \<open>get_bucket bs c i = Inr b\<close> full b new r upd by simp
          ultimately show ?thesis using IH fits full by fastforce
        qed
      qed
    qed (use body Inr b IH fits in auto)
  qed
qed

lemma x_create_record_throws:
  assumes "x_create_record os bs c i hash key v = Some (c', Inl System_error)" and "bytes_required key v \<le> bs"
  shows "cont_leaves os c c'"
proof (cases "x_create_record_loop os bs (bytes_required key v) c i")
  case (Some x)
  obtain c1 r where x: "x = (c1, r)" by fastforce
  show ?thesis
  proof (cases r)
    case (Inl e)
    then show ?thesis using assms Some x x_create_record_loop_throws [OF Some assms(2)] by (simp add: x_create_record_def)
  next
    case (Inr n)
    then show ?thesis using assms(1) Some x no_throw(2,3)
      by (auto simp: x_create_record_def Let_def split: sum.splits)
  qed
qed (use assms(1) in \<open>simp add: x_create_record_def\<close>)

text \<open>Every lookup through a lost mapping faults.\<close>

lemma find_record_unmapped:
  "j \<noteq> INVALID_BUCKET_ID \<Longrightarrow> find_record bs (c\<lparr>c_file_map := (c_file_map c)\<lparr>fm_extent := 0\<rparr>\<rparr>) j h k = Some (Inl Bad_access)"
  by (simp add: find_record_def find_value.simps [of bs _ j] get_bucket_def readable_def bucket_off_def cont_header_size_def)

section \<open>Splitting\<close>

lemma x_split_begin_throws:
  assumes "x_split_begin os bs c i = (c', Inl System_error)"
  shows "cont_leaves os (c\<lparr>c_buckets := (c_buckets c)(i := (c_buckets c i)\<lparr>b_prefix_bits := b_prefix_bits (c_buckets c i) + 1\<rparr>)\<rparr>) c'"
proof (cases "upd_bucket bs c i (\<lambda>b. b\<lparr>b_prefix_bits := b_prefix_bits b + 1\<rparr>)")
  case (Inl e)
  then show ?thesis using assms no_throw(2) [of bs c i "\<lambda>b. b\<lparr>b_prefix_bits := b_prefix_bits b + 1\<rparr>"] by (auto simp: x_split_begin_def)
next
  case (Inr c1)
  then have "cont_leaves os c1 c'" using assms x_create_bucket_throws by (auto simp: x_split_begin_def)
  then show ?thesis using Inr by (simp add: upd_bucket_def split: if_split_asm)
qed

lemma cont_split_throws:
  assumes "x_split_begin os bs c i = (c', Inl e)"
  shows "cont_split os bs c i = Some (Inl e)"
proof (cases "upd_bucket bs c i (\<lambda>b. b\<lparr>b_prefix_bits := b_prefix_bits b + 1\<rparr>)")
  case (Inl e')
  then show ?thesis using assms by (simp add: x_split_begin_def cont_split_def)
next
  case (Inr c1)
  then have "create_bucket os bs c1 (b_prefix_bits (c_buckets c1 i)) = Inl e"
    using assms x_create_bucket_drop [of os bs c1 "b_prefix_bits (c_buckets c1 i)"] by (simp add: x_split_begin_def)
  then show ?thesis using Inr by (simp add: cont_split_def Let_def)
qed

text \<open>The catalogue that a throwing \<open>split\<close> leaves.\<close>

lemma x_cat_split_throws:
  assumes inv: "cat_inv c" "\<not> fm_read_only (cat_file_map c)" "cat_prefix_bits c < 32"
    and fails: "fm_resize os (cat_file_map c) (cat_header_size + 8 * 2 ^ Suc (cat_prefix_bits c)) = Inl e"
  shows "\<exists>c'. x_cat_split os c = (c', Inl e) \<and> cat_prefix_bits c' = Suc (cat_prefix_bits c) \<and> cat_buffer c' = cat_buffer c
    \<and> resize_leaves os (cat_file_map c) (cat_file_map c') \<and> (\<forall>h. cat_index c' h = Inr (prefix_of (Suc (cat_prefix_bits c)) h))"
proof -
  let ?n = "cat_prefix_bits c"
  have "(2::nat) ^ Suc ?n \<le> 2 ^ 32" using inv(3) by (intro power_increasing) auto
  then have small: "(2::nat) ^ Suc ?n < 2 ^ 64" "8 * (2::nat) ^ Suc ?n + 32 < 2 ^ 64" by simp_all
  have pos: "1 \<le> (2::nat) ^ Suc ?n" by simp
  have size: "sz (cat_layout_size + sz_sub (2 ^ Suc ?n) 1 * 8) = cat_header_size + 8 * 2 ^ Suc ?n"
    using small pos by (simp add: cat_layout_size_def cat_header_size_def algebra_simps)
  let ?c = "c\<lparr>cat_prefix_bits := ?n + 1, cat_prefix_shift := 31 - ?n,
     cat_prefix_mask := cat_prefix_mask c OR push_bit (31 - ?n) 1, cat_buffer_size := 2 ^ Suc ?n\<rparr>"
  obtain fm' where fm': "x_fm_resize os (cat_file_map c) (cat_header_size + 8 * 2 ^ Suc ?n) = (fm', Inl e)"
    using fails by (cases rule: x_fm_resize_cases [of os "cat_file_map c" "cat_header_size + 8 * 2 ^ Suc ?n"]) auto
  have "x_cat_split os c = (?c\<lparr>cat_file_map := fm'\<rparr>, Inl e)"
    using inv fm' small size
    by (simp add: x_cat_split_def cat_inv_def Let_def shl32_def writable_def readable_def less_imp_diff_less del: push_bit_of_1)
  moreover have "cat_index (?c\<lparr>cat_file_map := fm'\<rparr>) h = Inr (prefix_of (Suc ?n) h)" for h
    using inv masked_index [of "Suc ?n" h] grow_mask [OF inv(3)] by (simp add: cat_inv_def cat_index_def shr32_def del: push_bit_of_1)
  ultimately show ?thesis using x_fm_resize_leaves [OF fm'] by simp
qed

lemma top_bit_index:
  assumes "n \<le> 31" and "bit h 31"
  shows "2 ^ n \<le> prefix_of (Suc n) h"
proof -
  have "bit (unat h) 31" using assms(2) by (simp add: bit_unsigned_iff)
  then have "2 ^ 31 \<le> unat h" by (metis bit_iff_odd div_less even_zero not_less)
  then have "2 ^ 31 div 2 ^ (31 - n) \<le> unat h div 2 ^ (31 - n)" by (rule div_le_mono)
  moreover have "(2::nat) ^ 31 = 2 ^ n * 2 ^ (31 - n)" using assms(1) by (simp flip: power_add)
  then have "(2::nat) ^ 31 div 2 ^ (31 - n) = 2 ^ n" by (metis nonzero_mult_div_cancel_right power_not_zero zero_neq_numeral)
  ultimately show ?thesis by (simp add: prefix_of_def)
qed

section \<open>Properties\<close>

text \<open>C12. Storing a record that fits into a bucket is all or nothing: when the file cannot grow and the exception of
  \<open>resize\<close> comes out of \<open>create_record\<close>, whatever the system does, the contents of the file are as they were, on Linux and
  Windows the container is, and on macOS it is so unless \<open>resize\<close> had already given up the mapping: then every later
  \<open>find_record\<close> faults.\<close>

theorem create_record_atomic:
  assumes "bytes_required key v \<le> bs" and "x_create_record os bs c i hash key v = Some (c', Inl System_error)"
  shows "c_count c' = c_count c \<and> c_first_free c' = c_first_free c \<and> c_buckets c' = c_buckets c
    \<and> (c' = c \<or> os_platform os = MacOS \<and> c' = c\<lparr>c_file_map := (c_file_map c)\<lparr>fm_extent := 0\<rparr>\<rparr>
        \<and> (\<forall>j h k. j \<noteq> INVALID_BUCKET_ID \<longrightarrow> find_record bs c' j h k = Some (Inl Bad_access)))"
  using x_create_record_throws [OF assms(2,1)] find_record_unmapped by (auto simp: cont_leaves_cases)

definition demo_full :: os_env where
  "demo_full = demo_os\<lparr>os_mremap := (\<lambda>_ _ _. None)\<rparr>"

lemma demo_full_throws: "x_create_bucket demo_full 64 demo_cont n = (demo_cont, Inl System_error)"
  by (simp add: x_create_bucket_def x_fm_resize_def linux_resize_def demo_full_def demo_os_def demo_cont_def demo_fm_def Let_def sz_def
      bucket_size_def bucket_header_size_def cont_layout_size_def cont_header_size_def)

lemma demo_bucket: "get_bucket 64 demo_cont 0 = Inr (c_buckets demo_cont 0)"
  by (simp add: get_bucket_def demo_cont_def demo_fm_def readable_def bucket_off_def bucket_header_size_def cont_header_size_def)

theorem create_record_atomic_witness:
  "\<exists>c'. bytes_required (replicate 50 0) [4] \<le> 64
    \<and> x_create_record demo_full 64 demo_cont 0 5 (replicate 50 0) [4] = Some (c', Inl System_error) \<and> c' = demo_cont"
proof -
  have req: "bytes_required (replicate 50 0) [4] = 57" by code_simp
  have "b_next (c_buckets demo_cont 0) = INVALID_BUCKET_ID" "b_bytes_used (c_buckets demo_cont 0) = 8" by (simp_all add: demo_cont_def)
  then have "x_create_record_loop demo_full 64 57 demo_cont 0 = Some (demo_cont, Inl System_error)"
    by (simp add: x_create_record_loop.simps [of demo_full 64 57 demo_cont 0] demo_bucket demo_full_throws)
  then have "x_create_record demo_full 64 demo_cont 0 5 (replicate 50 0) [4] = Some (demo_cont, Inl System_error)"
    unfolding x_create_record_def req by simp
  with create_record_atomic [OF _ this] req show ?thesis by auto
qed

text \<open>C29. Doubling the catalogue is not: when the file cannot grow, the exception leaves a header that says the entries are
  doubled over entries that are not. Every hash now selects entry \<open>2 i\<close> or \<open>2 i + 1\<close> instead of its entry \<open>i\<close>, and the
  hashes of the upper half select entries behind the end. (On macOS the mapping may be lost as well, and then this is the header
  that the file keeps.)\<close>

theorem cat_split_torn:
  assumes "cat_inv c" and "\<not> fm_read_only (cat_file_map c)" and "cat_prefix_bits c < 32"
    and "fm_resize os (cat_file_map c) (cat_header_size + 8 * 2 ^ Suc (cat_prefix_bits c)) = Inl e"
  shows "\<exists>c'. x_cat_split os c = (c', Inl e) \<and> cat_prefix_bits c' = Suc (cat_prefix_bits c) \<and> cat_buffer c' = cat_buffer c
    \<and> (\<forall>h. \<exists>i. cat_index c h = Inr i \<and> cat_index c' h = Inr (2 * i + of_bool (bit h (31 - cat_prefix_bits c)))
          \<and> (bit h 31 \<longrightarrow> cat_buffer_size c \<le> 2 * i + of_bool (bit h (31 - cat_prefix_bits c))))"
proof -
  let ?n = "cat_prefix_bits c"
  obtain c' where c': "x_cat_split os c = (c', Inl e)" "cat_prefix_bits c' = Suc ?n" "cat_buffer c' = cat_buffer c"
    "\<forall>h. cat_index c' h = Inr (prefix_of (Suc ?n) h)" using x_cat_split_throws [OF assms] by blast
  have size: "cat_buffer_size c = 2 ^ ?n" "?n \<le> 31" using assms(1,3) by (simp_all add: cat_inv_def)
  have "cat_index c h = Inr (prefix_of ?n h) \<and> cat_index c' h = Inr (2 * prefix_of ?n h + of_bool (bit h (31 - ?n)))
      \<and> (bit h 31 \<longrightarrow> cat_buffer_size c \<le> 2 * prefix_of ?n h + of_bool (bit h (31 - ?n)))" for h
    using cat_index_eq [OF assms(1)] c'(4) prefix_of_Suc [OF assms(3), of h] top_bit_index [OF size(2), of h] size(1) by simp
  with c' show ?thesis by blast
qed

theorem cat_split_torn_witness:
  "\<exists>c'. x_cat_split demo_full demo_cat = (c', Inl System_error) \<and> cat_prefix_bits c' = 2"
proof -
  have "fm_resize demo_full (cat_file_map demo_cat) (cat_header_size + 8 * 2 ^ Suc (cat_prefix_bits demo_cat)) = Inl System_error"
    by (simp add: fm_resize_def linux_resize_def demo_full_def demo_os_def demo_cat_def demo_fm_def cat_header_size_def)
  from cat_split_torn [OF demo_cat_inv(1,2) _ this] show ?thesis using demo_cat_inv(3) by auto
qed

text \<open>Nor is splitting a chain: when the first bucket of the new chain cannot be created, the exception leaves the
  old chain with a prefix one bit longer than the block of catalogue entries that leads to it, and everything else
  as it was (on macOS without the mapping, if \<open>resize\<close> had given it up).\<close>

theorem split_torn:
  assumes "x_split_begin os bs c i = (c', Inl System_error)"
  shows "cont_split os bs c i = Some (Inl System_error)
    \<and> cont_leaves os (c\<lparr>c_buckets := (c_buckets c)(i := (c_buckets c i)\<lparr>b_prefix_bits := b_prefix_bits (c_buckets c i) + 1\<rparr>)\<rparr>) c'"
  using cont_split_throws [OF assms] x_split_begin_throws [OF assms] by simp

theorem split_torn_witness:
  "\<exists>c'. x_split_begin demo_full 64 demo_cont 0 = (c', Inl System_error) \<and> b_prefix_bits (c_buckets c' 0) = 2"
proof -
  let ?c = "demo_cont\<lparr>c_buckets := (c_buckets demo_cont)(0 := (c_buckets demo_cont 0)\<lparr>b_prefix_bits := b_prefix_bits (c_buckets demo_cont 0) + 1\<rparr>)\<rparr>"
  have "x_create_bucket demo_full 64 ?c n = (?c, Inl System_error)" for n
    by (simp add: x_create_bucket_def x_fm_resize_def linux_resize_def demo_full_def demo_os_def demo_cont_def demo_fm_def Let_def sz_def
        bucket_size_def bucket_header_size_def cont_layout_size_def cont_header_size_def)
  then have "\<exists>c'. x_split_begin demo_full 64 demo_cont 0 = (c', Inl System_error)"
    by (simp add: x_split_begin_def upd_bucket_def writable_def readable_def bucket_off_def bucket_header_size_def cont_header_size_def)
      (simp add: demo_cont_def demo_fm_def)
  then obtain c' where c': "x_split_begin demo_full 64 demo_cont 0 = (c', Inl System_error)" by blast
  from split_torn [OF this] c' show ?thesis by (auto simp: demo_cont_def cont_leaves_def)
qed

end
