(* ===== verification/Split_Exceptions.thy ===== *)
theory Split_Exceptions
  imports Exception_Safety
begin

text \<open>
  What an exception leaves of a chain that is being split: the loops of \<open>container::split\<close> in
  \<^verbatim>\<open>src/src/container.cpp\<close>, statement by statement, with the container they have changed so far. Forgetting that
  state gives the model of \<^verbatim>\<open>Container\<close>.
\<close>

section \<open>Model\<close>

text \<open>A statement that fails and leaves the state, or goes on with a new one; a sequence of statements; a statement on the
  container of the loop.\<close>

definition x_done :: "'s \<Rightarrow> 's result \<Rightarrow> 's \<times> unit result" where
  "x_done s r = (case r of Inl e \<Rightarrow> (s, Inl e) | Inr s' \<Rightarrow> (s', Inr ()))"

definition x_bind :: "'s \<times> 'a result \<Rightarrow> ('s \<Rightarrow> 'a \<Rightarrow> 's \<times> 'b result) \<Rightarrow> 's \<times> 'b result" where
  "x_bind m k = (case snd m of Inl e \<Rightarrow> (fst m, Inl e) | Inr x \<Rightarrow> k (fst m) x)"

definition x_on :: "split_state \<Rightarrow> container \<times> 'a result \<Rightarrow> split_state \<times> 'a result" where
  "x_on st x = (st\<lparr>ss_cont := fst x\<rparr>, snd x)"

definition x_split_copy :: "nat \<Rightarrow> container \<Rightarrow> nat \<Rightarrow> nat \<Rightarrow> nat \<Rightarrow> nat \<Rightarrow> nat \<Rightarrow> container \<times> unit result" where
  "x_split_copy bs c get_id get record_length put_id put =
     (if length (bucket_view bs c get_id) < get + record_length then (c, Inl Bad_access)
      else
        x_bind (x_done c (put_data bs c put_id put (segment get record_length (bucket_view bs c get_id)))) (\<lambda>c _.
        x_done c (upd_bucket bs c put_id (\<lambda>b. b\<lparr>b_bytes_used := b_bytes_used b + record_length\<rparr>))))"

definition x_split_room1 :: "os_env \<Rightarrow> nat \<Rightarrow> nat \<Rightarrow> nat \<Rightarrow> split_state \<Rightarrow> split_state \<times> unit result" where
  "x_split_room1 os bs prefix_bits record_length st =
     x_bind (st, get_bucket bs (ss_cont st) (ss_bit1 st)) (\<lambda>st b1.
     if b_bytes_used b1 + record_length > bs then
       if ss_put1 st \<noteq> b_bytes_used b1 then (st, Inl Assertion_failed)
       else
         x_bind (x_on st (x_create_bucket os bs (ss_cont st) prefix_bits)) (\<lambda>st new_bucket_id.
         x_bind (x_on st (x_done (ss_cont st) (upd_bucket bs (ss_cont st) (ss_bit1 st) (\<lambda>b. b\<lparr>b_next := new_bucket_id\<rparr>)))) (\<lambda>st _.
         (st\<lparr>ss_bit1 := new_bucket_id, ss_put0 := used_of (ss_cont st) (ss_bit0 st), ss_put1 := 0\<rparr>, Inr ())))
     else (st, Inr ()))"

definition x_split_move1 ::
  "os_env \<Rightarrow> nat \<Rightarrow> nat \<Rightarrow> nat \<Rightarrow> nat \<Rightarrow> nat \<Rightarrow> split_state \<Rightarrow> split_state \<times> unit result" where
  "x_split_move1 os bs prefix_bits get_id get record_length st =
     x_bind (x_split_room1 os bs prefix_bits record_length st) (\<lambda>st _.
     x_bind (x_on st (x_split_copy bs (ss_cont st) get_id get record_length (ss_bit1 st) (ss_put1 st))) (\<lambda>st _.
     (st\<lparr>ss_put1 := ss_put1 st + record_length\<rparr>, Inr ())))"

definition x_split_room0 :: "os_env \<Rightarrow> nat \<Rightarrow> nat \<Rightarrow> nat \<Rightarrow> split_state \<Rightarrow> split_state \<times> unit result" where
  "x_split_room0 os bs prefix_bits record_length st =
     x_bind (st, get_bucket bs (ss_cont st) (ss_bit0 st)) (\<lambda>st b0.
     if b_bytes_used b0 + record_length > bs then
       if ss_put0 st \<noteq> b_bytes_used b0 then (st, Inl Assertion_failed)
       else
         x_bind
           (if b_next b0 \<noteq> INVALID_BUCKET_ID then (st\<lparr>ss_bit0 := b_next b0\<rparr>, Inr ())
            else
              x_bind (x_on st (x_create_bucket os bs (ss_cont st) prefix_bits)) (\<lambda>st new_bucket_id.
              x_bind (x_on st (x_done (ss_cont st) (upd_bucket bs (ss_cont st) (ss_bit0 st) (\<lambda>b. b\<lparr>b_next := new_bucket_id\<rparr>)))) (\<lambda>st _.
              (st\<lparr>ss_bit0 := new_bucket_id, ss_put1 := used_of (ss_cont st) (ss_bit1 st)\<rparr>, Inr ()))))
           (\<lambda>st _.
              x_bind (x_on st (x_done (ss_cont st) (upd_bucket bs (ss_cont st) (ss_bit0 st) (\<lambda>b. b\<lparr>b_prefix_bits := prefix_bits\<rparr>)))) (\<lambda>st _.
              (st\<lparr>ss_put0 := 0\<rparr>, Inr ())))
     else (st, Inr ()))"

definition x_split_move0 ::
  "os_env \<Rightarrow> nat \<Rightarrow> nat \<Rightarrow> nat \<Rightarrow> nat \<Rightarrow> nat \<Rightarrow> split_state \<Rightarrow> split_state \<times> unit result" where
  "x_split_move0 os bs prefix_bits get_id get record_length st =
     x_bind (x_split_room0 os bs prefix_bits record_length st) (\<lambda>st _.
     x_bind (x_on st (x_split_copy bs (ss_cont st) get_id get record_length (ss_bit0 st) (ss_put0 st))) (\<lambda>st _.
     (st\<lparr>ss_put0 := ss_put0 st + record_length\<rparr>, Inr ())))"

definition x_split_step ::
  "os_env \<Rightarrow> nat \<Rightarrow> nat \<Rightarrow> hash_t \<Rightarrow> nat \<Rightarrow> split_state \<Rightarrow> nat \<Rightarrow> split_state \<times> nat result" where
  "x_split_step os bs prefix_bits new_bit get_id st get =
     x_bind (st, read_header (bucket_view bs (ss_cont st) get_id) get) (\<lambda>st (hash, key_length, value_length, cur).
     let record_length = (cur - get) + key_length + value_length in
     if record_length \<noteq> 4 + vbe_length (of_nat key_length :: size_t) + key_length
                        + vbe_length (of_nat value_length :: size_t) + value_length
     then (st, Inl Assertion_failed)
     else
       x_bind (if hash AND new_bit \<noteq> 0 then x_split_move1 os bs prefix_bits get_id get record_length st
               else x_split_move0 os bs prefix_bits get_id get record_length st)
         (\<lambda>st _. (st, Inr (get + record_length))))"

partial_function (option) x_split_inner ::
  "os_env \<Rightarrow> nat \<Rightarrow> nat \<Rightarrow> hash_t \<Rightarrow> nat \<Rightarrow> nat \<Rightarrow> split_state \<Rightarrow> nat \<Rightarrow> (split_state \<times> unit result) option" where
  "x_split_inner os bs prefix_bits new_bit get_id get_last st get =
     (if get = get_last then Some (st, Inr ())
      else case snd (x_split_step os bs prefix_bits new_bit get_id st get) of
        Inl e \<Rightarrow> Some (fst (x_split_step os bs prefix_bits new_bit get_id st get), Inl e)
      | Inr get' \<Rightarrow>
          x_split_inner os bs prefix_bits new_bit get_id get_last (fst (x_split_step os bs prefix_bits new_bit get_id st get)) get')"

partial_function (option) x_split_outer ::
  "os_env \<Rightarrow> nat \<Rightarrow> nat \<Rightarrow> hash_t \<Rightarrow> split_state \<Rightarrow> nat \<Rightarrow> (split_state \<times> unit result) option" where
  "x_split_outer os bs prefix_bits new_bit st get_id =
     (if get_id = INVALID_BUCKET_ID then Some (st, Inr ())
      else case upd_bucket bs (ss_cont st) get_id (\<lambda>b. b\<lparr>b_bytes_used := 0\<rparr>) of
        Inl e \<Rightarrow> Some (st, Inl e)
      | Inr c \<Rightarrow>
          (case x_split_inner os bs prefix_bits new_bit get_id (used_of (ss_cont st) get_id) (st\<lparr>ss_cont := c\<rparr>) 0 of
             None \<Rightarrow> None
           | Some x \<Rightarrow>
               (case snd x of
                  Inl e \<Rightarrow> Some (fst x, Inl e)
                | Inr _ \<Rightarrow>
                    (case next_bucket bs (ss_cont (fst x)) get_id of
                       Inl e \<Rightarrow> Some (fst x, Inl e)
                     | Inr n \<Rightarrow> x_split_outer os bs prefix_bits new_bit (fst x) n))))"

partial_function (option) x_split_free :: "nat \<Rightarrow> container \<Rightarrow> nat \<Rightarrow> (container \<times> unit result) option" where
  "x_split_free bs c free_bucket_id =
     (if free_bucket_id = INVALID_BUCKET_ID then Some (c, Inr ())
      else case get_bucket bs c free_bucket_id of
        Inl e \<Rightarrow> Some (c, Inl e)
      | Inr b \<Rightarrow>
          if b_bytes_used b \<noteq> 0 then Some (c, Inl Assertion_failed)
          else
            (case upd_bucket bs c free_bucket_id (\<lambda>b. b\<lparr>b_next := c_first_free c\<rparr>) of
               Inl e \<Rightarrow> Some (c, Inl e)
             | Inr c \<Rightarrow> x_split_free bs (c\<lparr>c_first_free := free_bucket_id\<rparr>) (b_next b)))"

definition x_cont_split :: "os_env \<Rightarrow> nat \<Rightarrow> container \<Rightarrow> nat \<Rightarrow> (container \<times> nat result) option" where
  "x_cont_split os bs c bucket_id =
     (let prefix_bits = b_prefix_bits (c_buckets c bucket_id) + 1 in
      case x_split_begin os bs c bucket_id of
        (c, Inl e) \<Rightarrow> Some (c, Inl e)
      | (c, Inr bit1_bucket_id) \<Rightarrow>
          (case shl32 1 (sz_sub HASH_BITS prefix_bits) of
             Inl e \<Rightarrow> Some (c, Inl e)
           | Inr new_bit \<Rightarrow>
               (case x_split_outer os bs prefix_bits new_bit
                       \<lparr>ss_cont = c, ss_bit0 = bucket_id, ss_bit1 = bit1_bucket_id, ss_put0 = 0, ss_put1 = 0\<rparr> bucket_id of
                  None \<Rightarrow> None
                | Some (st, Inl e) \<Rightarrow> Some (ss_cont st, Inl e)
                | Some (st, Inr _) \<Rightarrow>
                    (let c = ss_cont st; free_bucket_id = b_next (c_buckets c (ss_bit0 st)) in
                     case upd_bucket bs c (ss_bit0 st) (\<lambda>b. b\<lparr>b_next := INVALID_BUCKET_ID\<rparr>) of
                       Inl e \<Rightarrow> Some (c, Inl e)
                     | Inr c \<Rightarrow>
                         (case x_split_free bs c free_bucket_id of
                            None \<Rightarrow> None
                          | Some (c, Inl e) \<Rightarrow> Some (c, Inl e)
                          | Some (c, Inr _) \<Rightarrow> Some (c, Inr bit1_bucket_id))))))"

section \<open>The model without the state after an exception\<close>

text \<open>What is left of a statement when the state after an error is forgotten.\<close>

definition x_state :: "'s \<times> unit result \<Rightarrow> 's result" where
  "x_state x = map_sum id (\<lambda>_. fst x) (snd x)"

lemma x_state_simps [simp]: "x_state (s, Inl e) = Inl e" "x_state (s, Inr u) = Inr s"
  by (simp_all add: x_state_def)

lemma x_state_done [simp]: "x_state (x_done s r) = r"
  by (cases r) (simp_all add: x_done_def)

lemma x_state_bind:
  "x_state (x_bind m k) = bind_r (drop_state m) (\<lambda>(s, x). x_state (k s x))"
  by (cases "snd m") (simp_all add: x_bind_def)

lemma drop_state_bind: "drop_state (x_bind m k) = bind_r (drop_state m) (\<lambda>(s, x). drop_state (k s x))"
  by (cases "snd m") (simp_all add: x_bind_def)

lemma drop_state_unit: "drop_state x = bind_r (x_state x) (\<lambda>s. Inr (s, ()))"
  by (cases x; cases "snd x") (simp_all)

lemma x_state_on: "x_state (x_on st x) = bind_r (x_state x) (\<lambda>c. Inr (st\<lparr>ss_cont := c\<rparr>))"
  by (cases x; cases "snd x") (simp_all add: x_on_def)

lemma bind_r_assoc: "bind_r (bind_r m f) g = bind_r m (\<lambda>x. bind_r (f x) g)"
  by (cases m) simp_all

lemma x_split_copy_state: "x_state (x_split_copy bs c gid get n pid put) = split_copy bs c gid get n pid put"
  by (simp add: x_split_copy_def split_copy_def x_state_bind drop_state_unit bind_r_assoc)

lemma x_split_room1_state: "x_state (x_split_room1 os bs pb n st) = split_room1 os bs pb n st"
proof (cases "get_bucket bs (ss_cont st) (ss_bit1 st)")
  case (Inr b)
  show ?thesis
    by (cases rule: x_create_bucket_cases [of os bs "ss_cont st" pb];
        cases "upd_bucket bs (fst (x_create_bucket os bs (ss_cont st) pb)) (ss_bit1 st)
          (\<lambda>b. b\<lparr>b_next := projr (snd (x_create_bucket os bs (ss_cont st) pb))\<rparr>)")
      (simp_all add: Inr x_split_room1_def split_room1_def x_bind_def x_on_def x_done_def)
qed (simp add: x_split_room1_def split_room1_def x_bind_def)

lemma x_split_room0_state: "x_state (x_split_room0 os bs pb n st) = split_room0 os bs pb n st"
proof (cases "get_bucket bs (ss_cont st) (ss_bit0 st)")
  case (Inr b)
  show ?thesis
    by (cases rule: x_create_bucket_cases [of os bs "ss_cont st" pb])
      (auto simp: Inr x_split_room0_def split_room0_def x_bind_def x_on_def x_done_def bind_r_def split: sum.split)
qed (simp add: x_split_room0_def split_room0_def x_bind_def)

lemma x_split_move_state:
  "x_state (x_split_move1 os bs pb gid get n st) = split_move1 os bs pb gid get n st"
  "x_state (x_split_move0 os bs pb gid get n st) = split_move0 os bs pb gid get n st"
  by (simp_all add: x_split_move1_def split_move1_def x_split_move0_def split_move0_def x_state_bind drop_state_unit x_state_on
      x_split_room1_state x_split_room0_state x_split_copy_state bind_r_assoc)

lemma x_split_step_drop: "drop_state (x_split_step os bs pb nb gid st get) = split_step os bs pb nb gid st get"
proof (cases "read_header (bucket_view bs (ss_cont st) gid) get")
  case (Inr x)
  obtain hash kl vl cur where x: "x = (hash, kl, vl, cur)" by (cases x)
  show ?thesis
    by (simp add: Inr x x_split_step_def split_step_def x_bind_def [of "(st, Inr (hash, kl, vl, cur))"] Let_def drop_state_bind
        drop_state_unit x_split_move_state bind_r_assoc)
qed (simp add: x_split_step_def split_step_def x_bind_def)

lemma x_split_step_cases:
  obtains (throws) e where "snd (x_split_step os bs pb nb gid st get) = Inl e" "split_step os bs pb nb gid st get = Inl e"
  | (returns) get' where "snd (x_split_step os bs pb nb gid st get) = Inr get'"
      "split_step os bs pb nb gid st get = Inr (fst (x_split_step os bs pb nb gid st get), get')"
  using x_split_step_drop [of os bs pb nb gid st get] by (cases "snd (x_split_step os bs pb nb gid st get)") (auto simp: that)

text \<open>A loop and its model return together when each result of the one is a result of the other.\<close>

lemma map_option_eqI:
  assumes "\<And>x. f = Some x \<Longrightarrow> g = Some (h x)" and "\<And>y. g = Some y \<Longrightarrow> \<exists>x. f = Some x"
  shows "map_option h f = g"
  using assms by (cases f; cases g) auto

lemmas loop_inducts = x_split_inner.raw_induct [rotated, consumes 1, case_names step]
  split_inner.raw_induct [rotated, consumes 1, case_names step]
  x_split_outer.raw_induct [rotated, consumes 1, case_names step]
  split_outer.raw_induct [rotated, consumes 1, case_names step]
  x_split_free.raw_induct [rotated, consumes 1, case_names step]
  split_free.raw_induct [rotated, consumes 1, case_names step]

lemma x_split_inner_state:
  "map_option x_state (x_split_inner os bs pb nb gid lst st get) = split_inner os bs pb nb gid lst st get"
proof (rule map_option_eqI)
  fix x
  assume "x_split_inner os bs pb nb gid lst st get = Some x"
  then show "split_inner os bs pb nb gid lst st get = Some (x_state x)"
  proof (induction rule: loop_inducts(1))
    case (step loop os bs pb nb gid lst st get x)
    then show ?case
      by (cases rule: x_split_step_cases [of os bs pb nb gid st get])
        (auto simp: split_inner.simps [of os bs pb nb gid lst st get] split: if_splits)
  qed
next
  fix r
  assume "split_inner os bs pb nb gid lst st get = Some r"
  then show "\<exists>x. x_split_inner os bs pb nb gid lst st get = Some x"
  proof (induction rule: loop_inducts(2))
    case (step loop os bs pb nb gid lst st get r)
    then show ?case
      by (cases rule: x_split_step_cases [of os bs pb nb gid st get])
        (auto simp: x_split_inner.simps [of os bs pb nb gid lst st get] split: if_splits)
  qed
qed

lemma x_split_inner_cases:
  obtains (loops) "x_split_inner os bs pb nb gid lst st get = None" "split_inner os bs pb nb gid lst st get = None"
  | (throws) e st' where "x_split_inner os bs pb nb gid lst st get = Some (st', Inl e)" "split_inner os bs pb nb gid lst st get = Some (Inl e)"
  | (returns) st' where "x_split_inner os bs pb nb gid lst st get = Some (st', Inr ())" "split_inner os bs pb nb gid lst st get = Some (Inr st')"
proof (cases "x_split_inner os bs pb nb gid lst st get")
  case None
  then show ?thesis using that(1) x_split_inner_state [of os bs pb nb gid lst st get] by simp
next
  case (Some x)
  then show ?thesis using that(2,3) x_split_inner_state [of os bs pb nb gid lst st get] by (cases x; cases "snd x") auto
qed

lemma x_split_outer_state: "map_option x_state (x_split_outer os bs pb nb st gid) = split_outer os bs pb nb st gid"
proof (rule map_option_eqI)
  fix x
  assume "x_split_outer os bs pb nb st gid = Some x"
  then show "split_outer os bs pb nb st gid = Some (x_state x)"
  proof (induction rule: loop_inducts(3))
    case (step loop os bs pb nb st gid x)
    show ?case
    proof (cases "gid = INVALID_BUCKET_ID")
      case False
      show ?thesis
      proof (cases "upd_bucket bs (ss_cont st) gid (\<lambda>b. b\<lparr>b_bytes_used := 0\<rparr>)")
        case (Inr c)
        then show ?thesis using step False
          by (cases rule: x_split_inner_cases [of os bs pb nb gid "used_of (ss_cont st) gid" "st\<lparr>ss_cont := c\<rparr>" 0])
            (auto simp: split_outer.simps [of os bs pb nb st gid] split: sum.split_asm)
      qed (use step False in \<open>auto simp: split_outer.simps [of os bs pb nb st gid]\<close>)
    qed (use step in \<open>auto simp: split_outer.simps [of os bs pb nb st INVALID_BUCKET_ID]\<close>)
  qed
next
  fix r
  assume "split_outer os bs pb nb st gid = Some r"
  then show "\<exists>x. x_split_outer os bs pb nb st gid = Some x"
  proof (induction rule: loop_inducts(4))
    case (step loop os bs pb nb st gid r)
    show ?case
    proof (cases "gid = INVALID_BUCKET_ID")
      case False
      show ?thesis
      proof (cases "upd_bucket bs (ss_cont st) gid (\<lambda>b. b\<lparr>b_bytes_used := 0\<rparr>)")
        case (Inr c)
        then show ?thesis using step False
          by (cases rule: x_split_inner_cases [of os bs pb nb gid "used_of (ss_cont st) gid" "st\<lparr>ss_cont := c\<rparr>" 0])
            (auto simp: x_split_outer.simps [of os bs pb nb st gid] split: sum.split_asm)
      qed (use False in \<open>auto simp: x_split_outer.simps [of os bs pb nb st gid]\<close>)
    qed (auto simp: x_split_outer.simps [of os bs pb nb st INVALID_BUCKET_ID])
  qed
qed

lemma x_split_free_state: "map_option x_state (x_split_free bs c i) = split_free bs c i"
proof (rule map_option_eqI)
  fix x
  assume "x_split_free bs c i = Some x"
  then show "split_free bs c i = Some (x_state x)"
  proof (induction rule: loop_inducts(5))
    case (step loop bs c i x)
    then show ?case by (auto simp: split_free.simps [of bs c i] split: if_split_asm sum.split_asm)
  qed
next
  fix r
  assume "split_free bs c i = Some r"
  then show "\<exists>x. x_split_free bs c i = Some x"
  proof (induction rule: loop_inducts(6))
    case (step loop bs c i r)
    then show ?case by (auto simp: x_split_free.simps [of bs c i] split: if_split_asm sum.splits)
  qed
qed

lemma x_cont_split_drop: "map_option drop_state (x_cont_split os bs c i) = cont_split os bs c i"
proof (cases "x_split_begin os bs c i")
  case (Pair c1 r)
  show ?thesis
  proof (cases r)
    case (Inl e)
    then show ?thesis using Pair cont_split_throws [of os bs c i c1 e] by (simp add: x_cont_split_def Let_def)
  next
    case (Inr n)
    obtain c0 where c0: "upd_bucket bs c i (\<lambda>b. b\<lparr>b_prefix_bits := b_prefix_bits b + 1\<rparr>) = Inr c0"
      "x_create_bucket os bs c0 (b_prefix_bits (c_buckets c0 i)) = (c1, Inr n)"
      using Pair Inr by (auto simp: x_split_begin_def split: sum.split_asm)
    have pb: "b_prefix_bits (c_buckets c0 i) = b_prefix_bits (c_buckets c i) + 1"
      using c0(1) by (auto simp: upd_bucket_def split: if_split_asm)
    have new: "create_bucket os bs c0 (b_prefix_bits (c_buckets c i) + 1) = Inr (c1, n)"
      using x_create_bucket_drop [of os bs c0 "b_prefix_bits (c_buckets c0 i)"] c0(2) pb by simp
    show ?thesis
      using Pair Inr c0(1) pb new unfolding x_cont_split_def cont_split_def
      by (auto simp: Let_def bind_o_def x_split_outer_state [symmetric] x_split_free_state [symmetric]
          split: sum.split option.split prod.split)
  qed
qed

section \<open>Properties\<close>

text \<open>A container with buckets of 16 bytes: a chain of two of them, each with one record whose second hash bit is set, and an
  empty one; in a file with room for one more bucket on a disk that has none for a fifth.\<close>

definition lost_record :: "byte \<Rightarrow> record_view" where
  "lost_record k = \<lparr>rv_hash = 0xC0000000, rv_key = [k], rv_value = [7, 7, 7, 7, 7, 7]\<rparr>"

definition lost_bucket :: "nat \<Rightarrow> nat \<Rightarrow> nat \<Rightarrow> byte \<Rightarrow> bucket_t" where
  "lost_bucket bits used next k =
     \<lparr>b_prefix_bits = bits, b_bytes_used = used, b_next = next, b_data = [0, 0, 0, 0xC0, 1, 6, k, 7, 7, 7, 7, 7, 7, 0, 0, 0]\<rparr>"

definition demo_two :: container where
  "demo_two = \<lparr>c_signature = CONT_SIGNATURE, c_count = 3, c_first_free = INVALID_BUCKET_ID,
     c_buckets = (\<lambda>i. if i = 0 then lost_bucket 1 13 1 1 else if i = 1 then lost_bucket 1 13 INVALID_BUCKET_ID 2
                     else lost_bucket 1 0 INVALID_BUCKET_ID 0),
     c_file_map = demo_fm\<lparr>fm_length := cont_layout_size 16 + 3 * bucket_size 16\<rparr>\<rparr>"

lemma lost_enc: "enc (lost_record 1) = [0, 0, 0, 0xC0, 1, 6, 1, 7, 7, 7, 7, 7, 7]" "enc (lost_record 2) = [0, 0, 0, 0xC0, 1, 6, 2, 7, 7, 7, 7, 7, 7]"
  by code_simp+

lemma lost_header:
  "read_header [0, 0, 0, 0xC0, 1, 6, 1, 7, 7, 7, 7, 7, 7, 0, 0, 0] 0 = Inr (0xC0000000, 1, 6, 6)"
  "read_header [0, 0, 0, 0xC0, 1, 6, 2, 7, 7, 7, 7, 7, 7, 0, 0, 0] 0 = Inr (0xC0000000, 1, 6, 6)"
  by code_simp+

lemma lost_lengths: "vbe_length (1 :: size_t) = 1" "vbe_length (6 :: size_t) = 1"
  by code_simp+

lemmas demo_sizes = demo_fm_def readable_def writable_def bucket_off_def bucket_header_size_def cont_header_size_def bucket_size_def
  cont_layout_size_def

lemma demo_two_store: "store 16 demo_two {0, 2} (\<lambda>p. if p = 0 then [lost_record 1, lost_record 2] else [])"
proof -
  let ?ids = "\<lambda>p :: nat. if p = 0 then [0, 1] else [2]"
  let ?ct = "\<lambda>i :: nat. if i = 0 then [lost_record 1] else if i = 1 then [lost_record 2] else []"
  have three: "{..<3 :: nat} = {0, 1, 2}" by auto
  have "store_by 16 demo_two [] {0, 2} ?ids ?ct"
    by (auto simp: store_by_def cont_inv_def demo_two_def demo_sizes lost_bucket_def holds_chain_def three
        INVALID_ID_def INVALID_BUCKET_ID_def nexts_def bucket_holds_def lost_enc)
  then show ?thesis unfolding store_def by (intro exI [of _ "[]"] exI [of _ ?ids] exI [of _ ?ct]) simp
qed

text \<open>The split of the chain, up to the exception: the first record has been moved, the second bucket has been emptied.\<close>

abbreviation two_split :: "nat \<Rightarrow> nat \<Rightarrow> bucket_t \<Rightarrow> container" where
  "two_split used0 used1 b3 \<equiv> demo_two\<lparr>c_count := 4,
     c_buckets := (c_buckets demo_two)(0 := lost_bucket 2 used0 1 1, 1 := lost_bucket 1 used1 INVALID_BUCKET_ID 2, 3 := b3)\<rparr>"

lemma two_begin: "x_split_begin demo_full 16 demo_two 0 = (two_split 13 13 (lost_bucket 2 0 INVALID_BUCKET_ID 0), Inr 3)"
  by (simp add: x_split_begin_def x_create_bucket_def x_fill_bucket_def upd_bucket_def demo_two_def demo_sizes lost_bucket_def Let_def fun_eq_iff)

lemma two_first:
  "x_split_step demo_full 16 2 0x40000000 0
     \<lparr>ss_cont = two_split 0 13 (lost_bucket 2 0 INVALID_BUCKET_ID 0), ss_bit0 = 0, ss_bit1 = 3, ss_put0 = 0, ss_put1 = 0\<rparr> 0 =
   (\<lparr>ss_cont = two_split 0 13 (lost_bucket 2 13 INVALID_BUCKET_ID 1), ss_bit0 = 0, ss_bit1 = 3, ss_put0 = 0, ss_put1 = 13\<rparr>, Inr 13)"
  by (simp add: x_split_step_def x_split_move1_def x_split_room1_def x_split_copy_def x_bind_def x_on_def x_done_def bucket_view_def get_bucket_def
      upd_bucket_def put_data_def lost_header lost_lengths demo_two_def demo_sizes lost_bucket_def overwrite_def segment_def Let_def fun_eq_iff)

lemma two_second:
  "x_split_step demo_full 16 2 0x40000000 1
     \<lparr>ss_cont = two_split 0 0 (lost_bucket 2 13 INVALID_BUCKET_ID 1), ss_bit0 = 0, ss_bit1 = 3, ss_put0 = 0, ss_put1 = 13\<rparr> 0 =
   (\<lparr>ss_cont = two_split 0 0 (lost_bucket 2 13 INVALID_BUCKET_ID 1), ss_bit0 = 0, ss_bit1 = 3, ss_put0 = 0, ss_put1 = 13\<rparr>, Inl System_error)"
  by (simp add: x_split_step_def x_split_move1_def x_split_room1_def x_create_bucket_def x_bind_def x_on_def bucket_view_def get_bucket_def
      lost_header lost_lengths demo_two_def demo_sizes lost_bucket_def x_fm_resize_def linux_resize_def demo_full_def demo_os_def Let_def)

lemma two_throws: "x_cont_split demo_full 16 demo_two 0 = Some (two_split 0 0 (lost_bucket 2 13 INVALID_BUCKET_ID 1), Inl System_error)"
proof -
  let ?st = "\<lambda>u0 u1 b3 put. \<lparr>ss_cont = two_split u0 u1 b3, ss_bit0 = 0, ss_bit1 = 3, ss_put0 = 0, ss_put1 = put\<rparr>"
  let ?new = "lost_bucket 2 0 INVALID_BUCKET_ID 0" and ?moved = "lost_bucket 2 13 INVALID_BUCKET_ID 1"
  let ?outer = "x_split_outer demo_full 16 2 0x40000000" and ?inner = "x_split_inner demo_full 16 2 0x40000000"
  have ids: "(0::nat) \<noteq> INVALID_BUCKET_ID" "(1::nat) \<noteq> INVALID_BUCKET_ID" by (simp_all add: INVALID_BUCKET_ID_def INVALID_ID_def)
  have upd: "upd_bucket 16 (two_split 13 13 b) 0 (\<lambda>b. b\<lparr>b_bytes_used := 0\<rparr>) = Inr (two_split 0 13 b)"
    "upd_bucket 16 (two_split 0 13 b) 1 (\<lambda>b. b\<lparr>b_bytes_used := 0\<rparr>) = Inr (two_split 0 0 b)"
    "next_bucket 16 (two_split 0 13 b) 0 = Inr 1" for b
    by (simp_all add: upd_bucket_def next_bucket_def get_bucket_def demo_two_def demo_sizes lost_bucket_def fun_eq_iff)
  have used: "b_bytes_used (lost_bucket bits u n k) = u" for bits u n k by (simp add: lost_bucket_def)
  have second: "?inner 1 13 (?st 0 0 ?moved 13) 0 = Some (?st 0 0 ?moved 13, Inl System_error)"
    by (subst x_split_inner.simps) (simp only: two_second snd_conv fst_conv sum.case, simp)
  have "?inner 0 13 (?st 0 13 ?moved 13) 13 = Some (?st 0 13 ?moved 13, Inr ())" by (subst x_split_inner.simps) simp
  then have first: "?inner 0 13 (?st 0 13 ?new 0) 0 = Some (?st 0 13 ?moved 13, Inr ())"
    by (subst x_split_inner.simps) (simp only: two_first snd_conv fst_conv sum.case, simp)
  have "?outer (?st 0 13 ?moved 13) 1 = Some (?st 0 0 ?moved 13, Inl System_error)"
    by (subst x_split_outer.simps) (simp del: One_nat_def add: ids upd used second)
  then have "?outer (?st 13 13 ?new 0) 0 = Some (?st 0 0 ?moved 13, Inl System_error)"
    by (subst x_split_outer.simps) (simp del: One_nat_def add: ids upd used first)
  moreover have "shl32 1 (sz_sub HASH_BITS (b_prefix_bits (c_buckets demo_two 0) + 1)) = Inr 0x40000000"
    "b_prefix_bits (c_buckets demo_two 0) + 1 = 2"
    by (simp_all add: shl32_def HASH_BITS_def demo_two_def lost_bucket_def)
  ultimately show ?thesis by (simp del: One_nat_def add: x_cont_split_def two_begin)
qed

lemma find_value_empty:
  assumes "used_of c i = 0" and "i \<noteq> INVALID_BUCKET_ID" and "get_bucket bs c i = Inr (c_buckets c i)"
  shows "find_value bs c i hash key = find_value bs c (nexts c i) hash key"
  using assms by (subst find_value.simps) (simp add: find_scan.simps nexts_def)

lemma two_lost: "find_record 16 (two_split 0 0 (lost_bucket 2 13 INVALID_BUCKET_ID 1)) 0 hash key = Some (Inr None)"
proof -
  let ?c = "two_split 0 0 (lost_bucket 2 13 INVALID_BUCKET_ID 1)"
  have ids: "(0::nat) \<noteq> INVALID_BUCKET_ID" "(1::nat) \<noteq> INVALID_BUCKET_ID" by (simp_all add: INVALID_BUCKET_ID_def INVALID_ID_def)
  have empty: "used_of ?c 0 = 0" "used_of ?c 1 = 0" "nexts ?c 0 = 1" "nexts ?c 1 = INVALID_BUCKET_ID"
    "get_bucket 16 ?c 0 = Inr (c_buckets ?c 0)" "get_bucket 16 ?c 1 = Inr (c_buckets ?c 1)"
    by (simp_all add: nexts_def lost_bucket_def get_bucket_def demo_two_def demo_sizes)
  have "find_value 16 ?c 0 hash key = find_value 16 ?c INVALID_BUCKET_ID hash key"
    using find_value_empty [OF empty(1) ids(1) empty(5)] find_value_empty [OF empty(2) ids(2) empty(6)] empty(3,4) by simp
  moreover have "find_value 16 ?c INVALID_BUCKET_ID hash key = Some (Inr None)" by (subst find_value.simps) simp
  ultimately show ?thesis by (simp add: find_record_def)
qed

text \<open>The operations with the state they leave are those of the model: forgetting the state after an exception, they
  give the same results and do not return in the same cases.\<close>

theorem exceptions_refine:
  "map_sum id fst (drop_state (x_cat_split os cat)) = cat_split os cat
   \<and> drop_state (x_create_bucket os bs c n) = create_bucket os bs c n
   \<and> map_option drop_state (x_create_record os bs c i hash key v) = create_record os bs c i hash key v
   \<and> map_option drop_state (x_cont_split os bs c i) = cont_split os bs c i"
  by (simp only: x_cat_split_drop x_create_bucket_drop x_create_record_drop x_cont_split_drop)

text \<open>An exception in the middle of a split loses records: there is a well-formed container and a file that cannot grow
  for which \<open>split\<close> throws, and afterwards \<open>find_record\<close> finds none of the records that the chain held before.\<close>

theorem split_loses_records:
  "\<exists>os c c'. store 16 c {0, 2} (\<lambda>p. if p = 0 then [lost_record 1, lost_record 2] else [])
    \<and> x_cont_split os 16 c 0 = Some (c', Inl System_error) \<and> (\<forall>hash key. find_record 16 c' 0 hash key = Some (Inr None))"
  using demo_two_store two_throws two_lost by blast

end
