(* ===== verification/Hash_Map_Exceptions.thy ===== *)
theory Hash_Map_Exceptions
  imports Split_Exceptions Hash_Map_Traces
begin

text \<open>
  \<open>hash_map::get\<close> of \<^verbatim>\<open>src/src/hash_map.h\<close> with the state that an exception leaves, composed of the operations of
  \<^verbatim>\<open>Exception_Safety\<close> and \<^verbatim>\<open>Split_Exceptions\<close>. The only exception it can throw is the system error of a file that
  cannot grow; the other errors of the model end the process, and the state beside them is not followed further.
\<close>

section \<open>Model\<close>

definition x_bind_o :: "('s \<times> 'a result) option \<Rightarrow> ('s \<Rightarrow> 'a \<Rightarrow> ('s \<times> 'b result) option) \<Rightarrow> ('s \<times> 'b result) option" where
  "x_bind_o m k = (case m of None \<Rightarrow> None | Some (s, Inl e) \<Rightarrow> Some (s, Inl e) | Some (s, Inr x) \<Rightarrow> k s x)"

definition x_in_cont :: "hash_map \<Rightarrow> container \<times> 'a result \<Rightarrow> hash_map \<times> 'a result" where
  "x_in_cont hm x = (hm\<lparr>hm_container := fst x\<rparr>, snd x)"

definition x_in_cat :: "hash_map \<Rightarrow> catalogue \<times> 'a result \<Rightarrow> hash_map \<times> 'a result" where
  "x_in_cat hm x = (hm\<lparr>hm_catalogue := fst x\<rparr>, snd x)"

definition x_hm_grow :: "os_env \<Rightarrow> nat \<Rightarrow> hash_map \<Rightarrow> nat \<Rightarrow> hash_map \<times> unit result" where
  "x_hm_grow os bs hm bucket_id =
     (let cat = hm_catalogue hm; c = hm_container hm in
      x_bind (hm, bucket_prefix_bits bs c bucket_id) (\<lambda>hm bits.
      if bits = cat_prefix_bits cat then
        x_bind (hm, shl64 1 (cat_prefix_bits cat)) (\<lambda>hm entries.
        if buckets_count c > unat entries then x_in_cat hm (x_cat_split os cat) else (hm, Inr ()))
      else (hm, Inr ())))"

definition x_hm_make_room :: "os_env \<Rightarrow> nat \<Rightarrow> hash_map \<Rightarrow> hash_t \<Rightarrow> nat \<Rightarrow> (hash_map \<times> nat result) option" where
  "x_hm_make_room os bs hm hash bucket_id =
     x_bind_o (Some (hm, bucket_to_split bs (hm_container hm) bucket_id)) (\<lambda>hm to_split.
     if \<not> to_split then Some (hm, Inr bucket_id)
     else
       x_bind_o (Some (x_hm_grow os bs hm bucket_id)) (\<lambda>hm _.
       x_bind_o (Some (hm, bucket_prefix_bits bs (hm_container hm) bucket_id)) (\<lambda>hm bits.
       if bits < cat_prefix_bits (hm_catalogue hm) then
         x_bind_o (map_option (x_in_cont hm) (x_cont_split os bs (hm_container hm) bucket_id)) (\<lambda>hm new_bucket_id.
         Some (case hm_enter bs hm hash bucket_id new_bucket_id of Inl e \<Rightarrow> (hm, Inl e) | Inr (hm, bucket_id) \<Rightarrow> (hm, Inr bucket_id)))
       else Some (hm, Inr bucket_id))))"

definition x_hm_get ::
  "os_env \<Rightarrow> nat \<Rightarrow> hash_map \<Rightarrow> hash_t \<Rightarrow> bytes \<Rightarrow> bytes \<Rightarrow> (hash_map \<times> string_view option result) option" where
  "x_hm_get os bs hm hash key default_value =
     x_bind_o (Some (hm, cat_find (hm_catalogue hm) hash)) (\<lambda>hm bucket_id.
     x_bind_o (map_option (Pair hm) (find_record bs (hm_container hm) bucket_id hash key)) (\<lambda>hm found.
     case found of
       Some sv \<Rightarrow> Some (hm, Inr (Some sv))
     | None \<Rightarrow>
         x_bind_o (x_hm_make_room os bs hm hash bucket_id) (\<lambda>hm bucket_id.
         x_bind_o (map_option (x_in_cont hm) (x_create_record os bs (hm_container hm) bucket_id hash key default_value)) (\<lambda>hm sv.
         Some (hm, Inr (Some sv))))))"

section \<open>The model without the state after an exception\<close>

abbreviation drop_o :: "('s \<times> 'a result) option \<Rightarrow> ('s \<times> 'a) result option" where
  "drop_o x \<equiv> map_option (\<lambda>x. drop_state x) x"

lemma drop_o_bind: "drop_o (x_bind_o m k) = bind_o (drop_o m) (\<lambda>(s, x). drop_o (k s x))"
  by (cases m; cases "snd (the m)") (auto simp: x_bind_o_def split: prod.split)

lemma drop_o_pair: "drop_o (map_option (Pair s) m) = bind_o m (\<lambda>x. Some (Inr (s, x)))"
  by (cases m; cases "the m") auto

lemma drop_o_in_cont: "drop_o (map_option (x_in_cont hm) m) = bind_o (drop_o m) (\<lambda>(c, x). Some (Inr (hm\<lparr>hm_container := c\<rparr>, x)))"
  by (cases m; cases "snd (the m)") (auto simp: x_in_cont_def)

lemma drop_o_done: "drop_o (Some (s, r)) = bind_o (Some r) (\<lambda>x. Some (Inr (s, x)))"
  by (cases r) simp_all

lemma x_hm_grow_state: "x_state (x_hm_grow os bs hm i) = hm_grow os bs hm i"
proof -
  have split: "x_state (x_in_cat hm (x_cat_split os (hm_catalogue hm))) = bind_r (cat_split os (hm_catalogue hm)) (\<lambda>cat. Inr (hm\<lparr>hm_catalogue := cat\<rparr>))"
    unfolding x_cat_split_drop [of os "hm_catalogue hm", symmetric]
    by (cases "x_cat_split os (hm_catalogue hm)"; cases "snd (x_cat_split os (hm_catalogue hm))") (auto simp: x_in_cat_def)
  show ?thesis
    by (cases "bucket_prefix_bits bs (hm_container hm) i"; cases "shl64 1 (cat_prefix_bits (hm_catalogue hm))")
      (simp_all add: x_hm_grow_def hm_grow_def x_bind_def Let_def split)
qed

lemma x_enter_drop:
  "drop_state (case hm_enter bs hm hash i n of Inl e \<Rightarrow> (hm, Inl e) | Inr (hm, i) \<Rightarrow> (hm, Inr i)) = hm_enter bs hm hash i n"
  by (cases "hm_enter bs hm hash i n") auto

lemma x_hm_make_room_drop: "drop_o (x_hm_make_room os bs hm hash i) = hm_make_room os bs hm hash i"
proof (cases "bucket_to_split bs (hm_container hm) i")
  case (Inr to_split)
  obtain hm1 r where grow: "x_hm_grow os bs hm i = (hm1, r)" by fastforce
  show ?thesis
  proof (cases r)
    case (Inl e)
    then have "hm_grow os bs hm i = Inl e" using x_hm_grow_state [of os bs hm i] grow by simp
    then show ?thesis using grow Inl \<open>bucket_to_split bs (hm_container hm) i = Inr to_split\<close>
      by (simp add: x_hm_make_room_def hm_make_room_def x_bind_o_def)
  next
    case r: (Inr u)
    then have g: "hm_grow os bs hm i = Inr hm1" using x_hm_grow_state [of os bs hm i] grow by simp
    have split: "drop_o (x_bind_o (map_option (x_in_cont hm1) (x_cont_split os bs (hm_container hm1) i)) (\<lambda>hm n.
          Some (case hm_enter bs hm hash i n of Inl e \<Rightarrow> (hm, Inl e) | Inr (hm, i) \<Rightarrow> (hm, Inr i)))) =
        bind_o (cont_split os bs (hm_container hm1) i) (\<lambda>(c, n). Some (hm_enter bs (hm1\<lparr>hm_container := c\<rparr>) hash i n))"
      unfolding drop_o_bind drop_o_in_cont x_cont_split_drop by (simp add: bind_o_assoc split_def x_enter_drop)
    show ?thesis using Inr grow r g split
      by (cases "bucket_prefix_bits bs (hm_container hm1) i")
        (simp_all add: x_hm_make_room_def hm_make_room_def x_bind_o_def [of "Some _"] Let_def)
  qed
qed (simp add: x_hm_make_room_def hm_make_room_def x_bind_o_def)

lemma x_hm_get_drop: "drop_o (x_hm_get os bs hm hash key v) = hm_get os bs hm hash key v"
proof -
  have create: "drop_o (map_option (x_in_cont hm) (x_create_record os bs (hm_container hm) i hash key v)) =
      bind_o (create_record os bs (hm_container hm) i hash key v) (\<lambda>(c, x). Some (Inr (hm\<lparr>hm_container := c\<rparr>, x)))" for hm i
    unfolding drop_o_in_cont x_create_record_drop ..
  have after: "drop_o (x_bind_o (x_hm_make_room os bs hm hash i) (\<lambda>hm i.
        x_bind_o (map_option (x_in_cont hm) (x_create_record os bs (hm_container hm) i hash key v)) (\<lambda>hm sv. Some (hm, Inr (Some sv))))) =
      bind_o (hm_make_room os bs hm hash i) (\<lambda>(hm, i).
        bind_o (create_record os bs (hm_container hm) i hash key v) (\<lambda>(c, sv). Some (Inr (hm\<lparr>hm_container := c\<rparr>, Some sv))))" for i
    by (simp add: drop_o_bind x_hm_make_room_drop create bind_o_assoc split_def)
  show ?thesis
  proof (cases "cat_find (hm_catalogue hm) hash")
    case (Inr i)
    show ?thesis
    proof (cases "find_record bs (hm_container hm) i hash key")
      case (Some r)
      then show ?thesis using Inr after by (cases r) (auto simp: x_hm_get_def hm_get_def x_bind_o_def [of "Some _"] split: option.split)
    qed (simp add: Inr x_hm_get_def hm_get_def x_bind_o_def)
  qed (simp add: x_hm_get_def hm_get_def x_bind_o_def)
qed

section \<open>Exceptions of get\<close>

lemma x_hm_get_absent:
  assumes "cat_find (hm_catalogue hm) hash = Inr i" and "find_record bs (hm_container hm) i hash key = Some (Inr None)"
  shows "x_hm_get os bs hm hash key v =
    x_bind_o (x_hm_make_room os bs hm hash i) (\<lambda>hm i.
      x_bind_o (map_option (x_in_cont hm) (x_create_record os bs (hm_container hm) i hash key v)) (\<lambda>hm sv. Some (hm, Inr (Some sv))))"
  using assms by (simp add: x_hm_get_def x_bind_o_def [of "Some _"])

text \<open>What an exception leaves of a map beside which nothing was stored: the map, or, on macOS only, the map whose container has lost
  its mapping.\<close>

definition hm_unmapped :: "hash_map \<Rightarrow> hash_map" where
  "hm_unmapped hm = hm\<lparr>hm_container := (hm_container hm)\<lparr>c_file_map := (c_file_map (hm_container hm))\<lparr>fm_extent := 0\<rparr>\<rparr>\<rparr>"

definition hm_leaves :: "os_env \<Rightarrow> hash_map \<Rightarrow> hash_map \<Rightarrow> bool" where
  "hm_leaves os hm hm' \<longleftrightarrow> hm' = hm \<or> os_platform os = MacOS \<and> hm' = hm_unmapped hm"

lemma hm_leavesI: "cont_leaves os (hm_container hm) c' \<Longrightarrow> hm_leaves os hm (hm\<lparr>hm_container := c'\<rparr>)"
  by (auto simp: cont_leaves_cases hm_leaves_def hm_unmapped_def)

lemma hm_unmapped_faults:
  "cat_find (hm_catalogue hm) h = Inr j \<Longrightarrow> j \<noteq> INVALID_BUCKET_ID \<Longrightarrow> hm_find bs (hm_unmapped hm) h k = Some (Inl Bad_access)"
  by (simp add: hm_find_def hm_unmapped_def find_record_unmapped)

lemma x_hm_get_throws:
  assumes "cat_find (hm_catalogue hm) hash = Inr i" and "find_record bs (hm_container hm) i hash key = Some (Inr None)"
    and "bytes_required key v \<le> bs" and "x_hm_get os bs hm hash key v = Some (hm', Inl System_error)"
  shows "(bucket_to_split bs (hm_container hm) i = Inr False \<longrightarrow> hm_leaves os hm hm')
    \<and> ((\<exists>hm1 j. hm_make_room os bs hm hash i = Some (Inr (hm1, j)) \<and> hm_leaves os hm1 hm') \<or> hm_make_room os bs hm hash i = Some (Inl System_error))"
proof -
  note get = x_hm_get_absent [OF assms(1,2), of os v]
  have room: "hm_make_room os bs hm hash i = drop_o (x_hm_make_room os bs hm hash i)" by (simp add: x_hm_make_room_drop)
  obtain hm1 r where r: "x_hm_make_room os bs hm hash i = Some (hm1, r)"
    using assms(4) unfolding get by (cases "x_hm_make_room os bs hm hash i") (auto simp: x_bind_o_def)
  have unsplit: "hm1 = hm \<and> r = Inr i" if "bucket_to_split bs (hm_container hm) i = Inr False"
    using r that by (simp add: x_hm_make_room_def x_bind_o_def)
  show ?thesis
  proof (cases r)
    case (Inl e)
    then have "e = System_error" using assms(4) r unfolding get by (simp add: x_bind_o_def)
    then show ?thesis using room r Inl unsplit by auto
  next
    case (Inr j)
    then obtain c' where c': "x_create_record os bs (hm_container hm1) j hash key v = Some (c', Inl System_error)" "hm' = hm1\<lparr>hm_container := c'\<rparr>"
      using assms(4) r unfolding get by (auto simp: x_bind_o_def x_in_cont_def split: option.split_asm sum.split_asm)
    then have "hm_leaves os hm1 hm'" using x_create_record_throws [OF c'(1) assms(3)] hm_leavesI by simp
    then show ?thesis using room r Inr unsplit by auto
  qed
qed

section \<open>Properties\<close>

text \<open>The exceptions of \<open>get\<close> are those of the model: forgetting the state they leave gives \<open>hm_get\<close>.\<close>

theorem get_exceptions_refine: "map_option (\<lambda>x. drop_state x) (x_hm_get os bs hm hash key v) = hm_get os bs hm hash key v"
  by (rule x_hm_get_drop)



text \<open>A hash map over the container of \<^verbatim>\<open>Split_Exceptions\<close>: the hashes of the upper half lead to its chain of two buckets.\<close>

definition lost_map :: hash_map where
  "lost_map = \<lparr>hm_catalogue = demo_cat\<lparr>cat_prefix_bits := 2, cat_prefix_shift := 30, cat_prefix_mask := 0xC0000000, cat_buffer_size := 4,
       cat_buffer := (\<lambda>i. if i < 2 then 2 else 0)\<rparr>, hm_container = demo_two\<rparr>"

definition lost_recs :: "nat \<Rightarrow> record_view list" where
  "lost_recs p = (if p = 0 then [lost_record 1, lost_record 2] else [])"

lemma lost_map_heads: "hm_heads lost_map = {0, 2}" "hm_head lost_map 0xC0000000 = 0" "hm_bits lost_map = 2"
proof -
  have four: "{..<4 :: nat} = {0, 1, 2, 3}" by auto
  show "hm_heads lost_map = {0, 2}" by (auto simp: hm_heads_def lost_map_def four)
qed (simp_all add: hm_head_def lost_map_def prefix_of_def)

lemma lost_map_inv: "hm_inv 16 lost_map lost_recs"
proof -
  have cat: "cat_inv (hm_catalogue lost_map)"
    by (simp add: cat_inv_def lost_map_def demo_cat_def demo_fm_def readable_def cat_header_size_def mask_eq_exp_minus_1)
  have "hm_depth lost_map p = 1" for p by (simp add: hm_depth_def lost_map_def demo_two_def lost_bucket_def)
  moreover have "(if j < 2 then 2 else 0 :: nat) = (if i < 2 then 2 else 0) \<longleftrightarrow> j div 2 = i div 2" if "i < 4" "j < 4" for i j :: nat
    using that by auto presburger+
  ultimately have "dir_ok (hm_bits lost_map) (cat_buffer (hm_catalogue lost_map)) (hm_depth lost_map)"
    unfolding dir_ok_def lost_map_heads(3) by (simp add: lost_map_def)
  moreover have "store 16 (hm_container lost_map) (hm_heads lost_map) lost_recs"
    unfolding lost_map_heads using demo_two_store by (simp add: lost_map_def lost_recs_def [abs_def])
  ultimately show ?thesis
    unfolding hm_inv_def lost_map_heads using cat
    by (auto simp: lost_recs_def lost_record_def kv_def lost_map_heads) (simp_all add: lost_map_def demo_two_def)
qed

text \<open>C28. Storing a key can lose others: there is a hash map in good order and a file that cannot grow for which \<open>get\<close> throws, and
  keys that the map held before are then not found any more.\<close>

theorem get_loses_keys:
  "\<exists>os hm m hm'. hm_repr 16 hm m \<and> m (0xC0000000, [1]) \<noteq> None \<and> m (0xC0000000, [2]) \<noteq> None
    \<and> x_hm_get os 16 hm 0xC0000000 [3] [] = Some (hm', Inl System_error)
    \<and> hm_find 16 hm' 0xC0000000 [1] = Some (Inr None) \<and> hm_find 16 hm' 0xC0000000 [2] = Some (Inr None)"
proof -
  let ?h = "0xC0000000 :: hash_t" and ?m = "hm_abs lost_map lost_recs" and ?c = "two_split 0 0 (lost_bucket 2 13 INVALID_BUCKET_ID 1)"
  let ?hm = "lost_map\<lparr>hm_container := ?c\<rparr>"
  have repr: "hm_repr 16 lost_map ?m" using lost_map_inv by (auto simp: hm_repr_def)
  have cat: "cat_find (hm_catalogue lost_map) ?h = Inr 0" using hm_invD(9) [OF lost_map_inv, of ?h] by (simp add: lost_map_heads)
  have m: "?m (?h, [1]) \<noteq> None" "?m (?h, [2]) \<noteq> None" "?m (?h, [3]) = None"
    by (simp_all add: hm_abs_def lost_map_heads lookup_def lost_recs_def lost_record_def kv_def)
  have "hm_find 16 lost_map ?h [3] = Some (Inr None)" by (rule hm_kv.find_absent [OF repr m(3)])
  then have find: "find_record 16 (hm_container lost_map) 0 ?h [3] = Some (Inr None)" by (simp add: hm_find_def cat)
  have "bucket_to_split 16 demo_two 0 = Inr True" "bucket_prefix_bits 16 demo_two 0 = Inr 1"
    by (simp_all add: bucket_to_split_def bucket_prefix_bits_def get_bucket_def demo_two_def demo_sizes lost_bucket_def INVALID_BUCKET_ID_def INVALID_ID_def)
  then have "x_hm_make_room demo_full 16 lost_map ?h 0 = Some (?hm, Inl System_error)"
    by (simp add: x_hm_make_room_def x_hm_grow_def x_bind_o_def x_bind_def x_in_cont_def two_throws lost_map_def)
  then have "x_hm_get demo_full 16 lost_map ?h [3] [] = Some (?hm, Inl System_error)"
    unfolding x_hm_get_absent [OF cat find] by (simp add: x_bind_o_def)
  moreover have "hm_find 16 ?hm ?h k = Some (Inr None)" for k using cat by (simp del: One_nat_def add: hm_find_def two_lost)
  ultimately show ?thesis using repr m(1,2) by blast
qed

end
