(* ===== verification/Py_Module.thy ===== *)
theory Py_Module
  imports Py_Bindings Hash_Map_Exceptions
begin

text \<open>
  The classes that the Python module registers at the end of \<^verbatim>\<open>src/src/bindings.cpp\<close>: which method name leads to which
  member function, with which arguments, keywords and defaults, and what a program sees. What nanobind and Python do with
  any other call (arguments that do not fit, the attributes every object inherits, a second \<^verbatim>\<open>__init__\<close>) is
  not in the source and is a parameter. A call that raises leaves the object as it was, except \<open>close\<close>, and
  \<open>__setitem__\<close> when the file cannot grow: for these the object after the exception is part of the outcome.
  The property is that a program sees a dictionary that can be closed and that may be read-only.
\<close>

section \<open>Model\<close>

datatype py_object =
    Py_none
  | Py_str string
  | Py_bytes bytes
  | Py_bool bool
  | Py_int nat
  | Py_tuple bytes bytes
  | Py_self
  | Py_iterator py_iterator

datatype py_outcome = Returns py_object | Raises error | Raises_python string

text \<open>A call: the name, the arguments by position and those by keyword. \<open>nb_args\<close> gives each named parameter its
  argument: by position, by keyword, or its default.\<close>

type_synonym py_call = "string \<times> py_object list \<times> (string \<times> py_object) list"

fun nb_args :: "(string \<times> py_object option) list \<Rightarrow> py_object list \<Rightarrow> (string \<times> py_object) list \<Rightarrow> py_object list option" where
  "nb_args [] args kw = (if args = [] \<and> kw = [] then Some [] else None)"
| "nb_args ((n, d) # ps) (x # args) kw = (if n \<in> fst ` set kw then None else map_option (Cons x) (nb_args ps args kw))"
| "nb_args ((n, d) # ps) [] kw =
     (case map_of kw n of
        Some x \<Rightarrow> map_option (Cons x) (nb_args ps [] (filter (\<lambda>(m, _). m \<noteq> n) kw))
      | None \<Rightarrow> (case d of None \<Rightarrow> None | Some x \<Rightarrow> map_option (Cons x) (nb_args ps [] kw)))"

text \<open>What the code relies on nanobind and Python for: the outcome of the calls that no registered method takes.\<close>

record nb_env =
  nb_new :: "py_object list \<Rightarrow> (string \<times> py_object) list \<Rightarrow> (py_outcome + py_disk_hash)"
  nb_call :: "py_disk_hash \<Rightarrow> py_call \<Rightarrow> (py_disk_hash \<times> py_outcome) option"
  nb_iter_call :: "py_iterator \<Rightarrow> py_call \<Rightarrow> (py_iterator \<times> py_outcome) option"

text \<open>The outcome of a member function that returns a value, and of one that changes the object.\<close>

definition returns :: "py_disk_hash \<Rightarrow> ('a \<Rightarrow> py_object) \<Rightarrow> 'a result option \<Rightarrow> (py_disk_hash \<times> py_outcome) option" where
  "returns p cast r = map_option (\<lambda>r. (p, case r of Inl e \<Rightarrow> Raises e | Inr x \<Rightarrow> Returns (cast x))) r"

definition changes :: "py_disk_hash \<Rightarrow> py_disk_hash result option \<Rightarrow> (py_disk_hash \<times> py_outcome) option" where
  "changes p r = map_option (\<lambda>r. case r of Inl e \<Rightarrow> (p, Raises e) | Inr p' \<Rightarrow> (p', Returns Py_none)) r"

definition leaves :: "(py_disk_hash \<times> unit result) option \<Rightarrow> (py_disk_hash \<times> py_outcome) option" where
  "leaves x = map_option (\<lambda>(p, r). (p, case r of Inl e \<Rightarrow> Raises e | Inr _ \<Rightarrow> Returns Py_none)) x"

text \<open>\<open>put\<close> with the object an exception leaves.\<close>

definition x_py_put :: "os_env \<Rightarrow> py_disk_hash \<Rightarrow> bytes \<Rightarrow> bytes \<Rightarrow> (py_disk_hash \<times> unit result) option" where
  "x_py_put os p key v =
     x_bind_o (Some (p, ensure_open p)) (\<lambda>p hm.
     x_bind_o (Some (p, ensure_writable p)) (\<lambda>p _.
     x_bind_o (map_option (Pair p) (hm_find BS hm (fnv1a key) key)) (\<lambda>p r.
     if r \<noteq> None then Some (p, Inl (key_error key))
     else
       x_bind_o (map_option (\<lambda>x. (p\<lparr>py_map := Some (fst x)\<rparr>, snd x)) (x_hm_get os BS hm (fnv1a key) key v)) (\<lambda>p _.
       Some (p, Inr ())))))"

text \<open>The constructor, with \<open>read_only\<close> false unless it is given.\<close>

definition DiskHash_new ::
    "nb_env \<Rightarrow> os_env \<Rightarrow> cat_layout \<Rightarrow> cont_layout \<Rightarrow> py_object list \<Rightarrow> (string \<times> py_object) list \<Rightarrow> (py_outcome + py_disk_hash)" where
  "DiskHash_new nb os cat_disk cont_disk args kw =
     (case nb_args [(''path'', None), (''read_only'', Some (Py_bool False))] args kw of
        Some [Py_str path, Py_bool read_only] \<Rightarrow>
          (case py_open os path read_only cat_disk cont_disk of Inl e \<Rightarrow> Inl (Raises e) | Inr p \<Rightarrow> Inr p)
      | _ \<Rightarrow> nb_new nb args kw)"

definition DiskHash :: "nb_env \<Rightarrow> os_env \<Rightarrow> py_disk_hash \<Rightarrow> py_call \<Rightarrow> (py_disk_hash \<times> py_outcome) option" where
  "DiskHash nb os p c =
     (case c of (name, args, kw) \<Rightarrow>
      if name = ''get'' then
        (case nb_args [(''key'', None), (''default'', Some Py_none)] args kw of
           Some [Py_bytes key, default_val] \<Rightarrow> returns p id (py_get_default Py_bytes p key default_val)
         | _ \<Rightarrow> nb_call nb p c)
      else if kw \<noteq> [] then nb_call nb p c
      else if name = ''__getitem__'' then
        (case args of [Py_bytes key] \<Rightarrow> returns p Py_bytes (py_get p key) | _ \<Rightarrow> nb_call nb p c)
      else if name = ''__setitem__'' then
        (case args of [Py_bytes key, Py_bytes v] \<Rightarrow> leaves (x_py_put os p key v) | _ \<Rightarrow> nb_call nb p c)
      else if name = ''__contains__'' then
        (case args of [Py_bytes key] \<Rightarrow> returns p Py_bool (py_contains p key) | _ \<Rightarrow> nb_call nb p c)
      else if name = ''__delitem__'' \<or> name = ''remove'' then
        (case args of [Py_bytes key] \<Rightarrow> changes p (py_remove p key) | _ \<Rightarrow> nb_call nb p c)
      else if name = ''__enter__'' then
        (case args of [] \<Rightarrow> Some (py_enter p, Returns Py_self) | _ \<Rightarrow> nb_call nb p c)
      else if name = ''__exit__'' then leaves (Some (py_exit os p))
      else if name = ''close'' then (case args of [] \<Rightarrow> leaves (Some (py_close os p)) | _ \<Rightarrow> nb_call nb p c)
      else if name = ''bytes_allocated'' then
        (case args of [] \<Rightarrow> returns p Py_int (Some (py_bytes_allocated p)) | _ \<Rightarrow> nb_call nb p c)
      else if name = ''__iter__'' then
        (case args of [] \<Rightarrow> returns p Py_iterator (py_iter p) | _ \<Rightarrow> nb_call nb p c)
      else nb_call nb p c)"

definition DiskHashIterator :: "nb_env \<Rightarrow> py_disk_hash \<Rightarrow> py_iterator \<Rightarrow> py_call \<Rightarrow> (py_iterator \<times> py_outcome) option" where
  "DiskHashIterator nb p pit c =
     (if c = (''__iter__'', [], []) then Some (pit, Returns Py_self)
      else if c = (''__next__'', [], []) then
        map_option (\<lambda>r. case r of Inl e \<Rightarrow> (pit, Raises e) | Inr (pit, key, v) \<Rightarrow> (pit, Returns (Py_tuple key v))) (py_next p pit)
      else nb_iter_call nb pit c)"

text \<open>The calls a registered method takes, one by one.\<close>

lemma method_calls:
  "DiskHash nb os p (''get'', [Py_bytes key], []) = returns p id (py_get_default Py_bytes p key Py_none)"
  "DiskHash nb os p (''get'', [Py_bytes key, d], []) = returns p id (py_get_default Py_bytes p key d)"
  "DiskHash nb os p (''get'', [Py_bytes key], [(''default'', d)]) = returns p id (py_get_default Py_bytes p key d)"
  "DiskHash nb os p (''get'', [], [(''key'', Py_bytes key)]) = returns p id (py_get_default Py_bytes p key Py_none)"
  "DiskHash nb os p (''get'', [], [(''key'', Py_bytes key), (''default'', d)]) = returns p id (py_get_default Py_bytes p key d)"
  "DiskHash nb os p (''get'', [], [(''default'', d), (''key'', Py_bytes key)]) = returns p id (py_get_default Py_bytes p key d)"
  "DiskHash nb os p (''__getitem__'', [Py_bytes key], []) = returns p Py_bytes (py_get p key)"
  "DiskHash nb os p (''__setitem__'', [Py_bytes key, Py_bytes v], []) = leaves (x_py_put os p key v)"
  "DiskHash nb os p (''__contains__'', [Py_bytes key], []) = returns p Py_bool (py_contains p key)"
  "DiskHash nb os p (''__delitem__'', [Py_bytes key], []) = changes p (py_remove p key)"
  "DiskHash nb os p (''remove'', [Py_bytes key], []) = changes p (py_remove p key)"
  "DiskHash nb os p (''__enter__'', [], []) = Some (py_enter p, Returns Py_self)"
  "DiskHash nb os p (''__exit__'', args, []) = leaves (Some (py_exit os p))"
  "DiskHash nb os p (''close'', [], []) = leaves (Some (py_close os p))"
  "DiskHash nb os p (''bytes_allocated'', [], []) = returns p Py_int (Some (py_bytes_allocated p))"
  "DiskHash nb os p (''__iter__'', [], []) = returns p Py_iterator (py_iter p)"
  by (simp_all add: DiskHash_def)

section \<open>Programs\<close>

text \<open>A block of calls, ended by the first one that raises, and the statement \<^verbatim>\<open>with\<close>: \<open>__exit__\<close> is called however the
  block ends, and since it returns \<^verbatim>\<open>None\<close> an exception of the block goes on.\<close>

fun py_block :: "nb_env \<Rightarrow> os_env \<Rightarrow> py_disk_hash \<Rightarrow> py_call list \<Rightarrow> (py_disk_hash \<times> py_outcome) option" where
  "py_block nb os p [] = Some (p, Returns Py_none)"
| "py_block nb os p (c # calls) =
     (case DiskHash nb os p c of
        None \<Rightarrow> None
      | Some (p, Returns x) \<Rightarrow> py_block nb os p calls
      | Some (p, out) \<Rightarrow> Some (p, out))"

definition py_with :: "nb_env \<Rightarrow> os_env \<Rightarrow> py_disk_hash \<Rightarrow> py_call list \<Rightarrow> (py_disk_hash \<times> py_outcome) option" where
  "py_with nb os p calls =
     (case DiskHash nb os p (''__enter__'', [], []) of
        Some (p, Returns _) \<Rightarrow>
          (case py_block nb os p calls of
             None \<Rightarrow> None
           | Some (p, out) \<Rightarrow>
               (case DiskHash nb os p (''__exit__'', [Py_none, Py_none, Py_none], []) of
                  Some (p, Returns _) \<Rightarrow> Some (p, out)
                | r \<Rightarrow> r))
      | r \<Rightarrow> r)"

text \<open>What the methods do on a dictionary \<open>m\<close> that is open for writing.\<close>

lemma DiskHash_dict:
  assumes "py_holds p m"
  shows "DiskHash nb os p (''get'', [Py_bytes k], []) = Some (p, Returns (case m k of None \<Rightarrow> Py_none | Some v \<Rightarrow> Py_bytes v))"
    and "DiskHash nb os p (''get'', [Py_bytes k, d], []) = Some (p, Returns (case m k of None \<Rightarrow> d | Some v \<Rightarrow> Py_bytes v))"
    and "DiskHash nb os p (''__getitem__'', [Py_bytes k], []) = Some (p, case m k of None \<Rightarrow> Raises (key_error k) | Some v \<Rightarrow> Returns (Py_bytes v))"
    and "DiskHash nb os p (''__contains__'', [Py_bytes k], []) = Some (p, Returns (Py_bool (m k \<noteq> None)))"
  using py_get_spec [OF assms, of k] py_get_default_spec [OF assms, of Py_bytes k] py_contains_spec [OF assms, of k]
  by (simp_all add: DiskHash_def returns_def split: option.split)

text \<open>Forgetting the object after an exception gives the model of \<open>put\<close>.\<close>

lemma x_py_put_state: "map_option x_state (x_py_put os p key v) = py_put os p key v"
proof (cases "ensure_open p")
  case (Inr hm)
  have get: "hm_get os BS hm (fnv1a key) key v = drop_o (x_hm_get os BS hm (fnv1a key) key v)" by (simp add: x_hm_get_drop)
  show ?thesis
  proof (cases "hm_find BS hm (fnv1a key) key")
    case (Some r)
    then show ?thesis using Inr
      by (cases "ensure_writable p"; cases r; cases "x_hm_get os BS hm (fnv1a key) key v"; cases "snd (the (x_hm_get os BS hm (fnv1a key) key v))")
        (auto simp: x_py_put_def py_put_def x_bind_o_def get)
  qed (use Inr in \<open>cases "ensure_writable p"; simp add: x_py_put_def py_put_def x_bind_o_def\<close>)
qed (simp add: x_py_put_def py_put_def x_bind_o_def)

lemma x_py_put_returns: "py_put os p key v = Some (Inr p') \<Longrightarrow> x_py_put os p key v = Some (p', Inr ())"
  unfolding x_py_put_state [symmetric] by (cases "x_py_put os p key v"; cases "snd (the (x_py_put os p key v))") auto

lemma DiskHash_changes:
  assumes "py_holds p m" and "\<not> py_read_only p"
  shows "m k \<noteq> None \<Longrightarrow> DiskHash nb os p (''__setitem__'', [Py_bytes k, Py_bytes v], []) = Some (p, Raises (key_error k))"
    and "m k = None \<Longrightarrow> py_room os p k v \<Longrightarrow>
      \<exists>p'. DiskHash nb os p (''__setitem__'', [Py_bytes k, Py_bytes v], []) = Some (p', Returns Py_none) \<and> py_holds p' (m(k \<mapsto> v)) \<and> \<not> py_read_only p'"
    and "m k = None \<Longrightarrow> DiskHash nb os p (''__delitem__'', [Py_bytes k], []) = Some (p, Raises (key_error k))"
    and "m k \<noteq> None \<Longrightarrow>
      \<exists>p'. DiskHash nb os p (''__delitem__'', [Py_bytes k], []) = Some (p', Returns Py_none) \<and> py_holds p' (m(k := None)) \<and> \<not> py_read_only p'"
proof -
  obtain hm where hm: "py_map p = Some hm" "hm_holds BS hm m" using assms(1) by (auto simp: py_holds_def)
  show "DiskHash nb os p (''__setitem__'', [Py_bytes k, Py_bytes v], []) = Some (p, Raises (key_error k))" if "m k \<noteq> None"
  proof -
    from that obtain w where "m k = Some w" by blast
    then obtain sv where "hm_find BS hm (fnv1a k) k = Some (Inr (Some sv))" by (rule hm_kv.key_find_present [OF hm(2)])
    then show ?thesis using hm(1) assms(2)
      by (simp add: method_calls leaves_def x_py_put_def x_bind_o_def ensure_open_def ensure_writable_def)
  qed
qed (use py_put_spec [OF assms, of k os v] py_remove_spec [OF assms, of k] in
    \<open>auto simp: method_calls changes_def leaves_def dest!: x_py_put_returns\<close>)

lemma py_close_closed:
  assumes "py_close os p = (p', Inr ())"
  shows "py_map p' = None"
proof (cases "py_map p")
  case (Some hm)
  then show ?thesis using assms by (cases "hm_close os hm") (auto simp: py_close_def split: sum.splits)
qed (use assms in \<open>auto simp: py_close_def\<close>)

section \<open>The dictionary a program sees\<close>

datatype dict_state = Closed | Open key_contents bool

fun py_models :: "py_disk_hash \<Rightarrow> dict_state \<Rightarrow> bool" where
  "py_models p Closed \<longleftrightarrow> py_map p = None"
| "py_models p (Open m read_only) \<longleftrightarrow> py_holds p m \<and> py_read_only p = read_only"

datatype dict_call =
    D_get bytes "py_object option"
  | D_getitem bytes
  | D_setitem bytes bytes
  | D_contains bytes
  | D_delitem bytes
  | D_enter
  | D_close
  | D_bytes_allocated
  | D_iter

text \<open>The ways a program may write a call.\<close>

inductive writes :: "dict_call \<Rightarrow> py_call \<Rightarrow> bool" where
  "writes (D_get k None) (''get'', [Py_bytes k], [])"
| "writes (D_get k None) (''get'', [], [(''key'', Py_bytes k)])"
| "writes (D_get k (Some d)) (''get'', [Py_bytes k, d], [])"
| "writes (D_get k (Some d)) (''get'', [Py_bytes k], [(''default'', d)])"
| "writes (D_get k (Some d)) (''get'', [], [(''key'', Py_bytes k), (''default'', d)])"
| "writes (D_get k (Some d)) (''get'', [], [(''default'', d), (''key'', Py_bytes k)])"
| "writes (D_getitem k) (''__getitem__'', [Py_bytes k], [])"
| "writes (D_setitem k v) (''__setitem__'', [Py_bytes k, Py_bytes v], [])"
| "writes (D_contains k) (''__contains__'', [Py_bytes k], [])"
| "writes (D_delitem k) (''__delitem__'', [Py_bytes k], [])"
| "writes (D_delitem k) (''remove'', [Py_bytes k], [])"
| "writes D_enter (''__enter__'', [], [])"
| "writes D_close (''close'', [], [])"
| "writes D_close (''__exit__'', args, [])"
| "writes D_bytes_allocated (''bytes_allocated'', [], [])"
| "writes D_iter (''__iter__'', [], [])"

text \<open>The state after a call, and the outcomes it may have. The size is not determined by the contents; an iterator
  lists every item once when a loop takes it to its end before the next call.\<close>

fun dict_next :: "dict_state \<Rightarrow> dict_call \<Rightarrow> dict_state" where
  "dict_next (Open m False) (D_setitem k v) = Open (if m k = None then m(k \<mapsto> v) else m) False"
| "dict_next (Open m False) (D_delitem k) = Open (m(k := None)) False"
| "dict_next s D_close = Closed"
| "dict_next s _ = s"

definition closed_error :: error where
  "closed_error = Runtime_error ''hash map is closed''"

definition read_only_error :: error where
  "read_only_error = Runtime_error ''hash map is read-only''"

fun dict_outcome :: "dict_state \<Rightarrow> dict_call \<Rightarrow> py_disk_hash \<Rightarrow> py_outcome \<Rightarrow> bool" where
  "dict_outcome s D_enter p out \<longleftrightarrow> out = Returns Py_self"
| "dict_outcome s D_close p out \<longleftrightarrow> out = Returns Py_none"
| "dict_outcome Closed _ p out \<longleftrightarrow> out = Raises closed_error"
| "dict_outcome (Open m _) (D_get k d) p out \<longleftrightarrow>
     out = Returns (case m k of Some v \<Rightarrow> Py_bytes v | None \<Rightarrow> (case d of Some x \<Rightarrow> x | None \<Rightarrow> Py_none))"
| "dict_outcome (Open m _) (D_getitem k) p out \<longleftrightarrow> out = (case m k of None \<Rightarrow> Raises (key_error k) | Some v \<Rightarrow> Returns (Py_bytes v))"
| "dict_outcome (Open m ro) (D_setitem k v) p out \<longleftrightarrow>
     out = (if ro then Raises read_only_error else if m k = None then Returns Py_none else Raises (key_error k))"
| "dict_outcome (Open m _) (D_contains k) p out \<longleftrightarrow> out = Returns (Py_bool (m k \<noteq> None))"
| "dict_outcome (Open m ro) (D_delitem k) p out \<longleftrightarrow>
     out = (if ro then Raises read_only_error else if m k = None then Raises (key_error k) else Returns Py_none)"
| "dict_outcome (Open m _) D_bytes_allocated p out \<longleftrightarrow> (\<exists>n. out = Returns (Py_int n))"
| "dict_outcome (Open m _) D_iter p out \<longleftrightarrow>
     (\<exists>it xs. out = Returns (Py_iterator it) \<and> py_loop p it [] = Some (Inr xs) \<and> distinct (map fst xs)
       \<and> (\<forall>k v. (k, v) \<in> set xs \<longleftrightarrow> m k = Some v))"

text \<open>The object and the outcome after each call.\<close>

fun calls_run :: "nb_env \<Rightarrow> os_env \<Rightarrow> py_disk_hash \<Rightarrow> py_call list \<Rightarrow> (py_disk_hash \<times> py_outcome) list option" where
  "calls_run nb os p [] = Some []"
| "calls_run nb os p (c # cs) =
     (case DiskHash nb os p c of
        None \<Rightarrow> None
      | Some (p, out) \<Rightarrow> map_option (Cons (p, out)) (calls_run nb os p cs))"

fun dict_allows :: "py_disk_hash \<Rightarrow> dict_state \<Rightarrow> dict_call list \<Rightarrow> (py_disk_hash \<times> py_outcome) list \<Rightarrow> bool" where
  "dict_allows p s [] run \<longleftrightarrow> run = []"
| "dict_allows p s (c # cs) [] \<longleftrightarrow> False"
| "dict_allows p s (c # cs) ((p', out) # run) \<longleftrightarrow>
     dict_outcome s c p' out \<and> py_models p' (dict_next s c) \<and> (dict_next s c = s \<longrightarrow> p' = p) \<and> dict_allows p' (dict_next s c) cs run"

lemma dict_allows_Cons:
  "dict_allows p s (c # cs) run \<longleftrightarrow> (\<exists>p' out run'. run = (p', out) # run' \<and> dict_outcome s c p' out \<and> py_models p' (dict_next s c)
     \<and> (dict_next s c = s \<longrightarrow> p' = p) \<and> dict_allows p' (dict_next s c) cs run')"
  by (cases run) auto

text \<open>What the file system has to serve: room for a new key, and closing the files.\<close>

definition call_served :: "os_env \<Rightarrow> py_disk_hash \<Rightarrow> py_call \<Rightarrow> bool" where
  "call_served os p c =
     (case c of (name, args, kw) \<Rightarrow>
      if name = ''__setitem__'' then
        (case args of [Py_bytes k, Py_bytes v] \<Rightarrow> py_contains p k = Some (Inr False) \<longrightarrow> py_read_only p \<or> py_room os p k v | _ \<Rightarrow> True)
      else name = ''close'' \<or> name = ''__exit__'' \<longrightarrow> snd (py_close os p) = Inr ())"

fun calls_served :: "nb_env \<Rightarrow> os_env \<Rightarrow> py_disk_hash \<Rightarrow> py_call list \<Rightarrow> bool" where
  "calls_served nb os p [] \<longleftrightarrow> True"
| "calls_served nb os p (c # cs) \<longleftrightarrow>
     call_served os p c \<and> (case DiskHash nb os p c of Some (p, _) \<Rightarrow> calls_served nb os p cs | None \<Rightarrow> True)"

lemma demo_os_py_close: "snd (py_close demo_os p) = Inr ()"
  by (cases "py_map p") (simp_all add: py_close_def hm_close_def cat_close_def cont_close_def demo_os_close)

text \<open>One call on a closed object, on a read-only one, and on one that is open for writing.\<close>

lemma closed_call:
  assumes "py_map p = None" and "writes c call"
  shows "\<exists>out. DiskHash nb os p call = Some (p, out) \<and> dict_outcome Closed c p out"
  using assms(2,1)
  by (cases rule: writes.cases)
    (simp_all add: method_calls returns_def changes_def leaves_def py_get_def py_get_default_def x_py_put_def py_contains_def
      py_remove_def py_enter_def py_exit_def py_close_def py_bytes_allocated_def py_iter_def py_map_ptr_def ensure_open_def closed_error_def x_bind_o_def)

lemma py_iter_spec:
  assumes "py_holds p m"
  obtains it xs where "py_iter p = Some (Inr it)" and "py_loop p it [] = Some (Inr xs)" and "distinct (map fst xs)"
    and "\<forall>k v. (k, v) \<in> set xs \<longleftrightarrow> m k = Some v"
proof -
  obtain xs where xs: "py_items p = Some (Inr xs)" "distinct (map fst xs)" "\<forall>k v. (k, v) \<in> set xs \<longleftrightarrow> m k = Some v"
    by (rule py_items_spec [OF assms])
  from xs(1) obtain it where "py_iter p = Some (Inr it)" "py_loop p it [] = Some (Inr xs)" by (auto simp: py_items_def bind_o_eq_Inr)
  then show ?thesis using xs(2,3) that by blast
qed

lemma read_only_changes:
  assumes "py_holds p m" and "py_read_only p"
  shows "DiskHash nb os p (''__setitem__'', [Py_bytes k, Py_bytes v], []) = Some (p, Raises read_only_error)"
    and "py_remove p k = Some (Inl read_only_error)"
  using assms by (auto elim!: py_holdsE simp: method_calls leaves_def x_py_put_def py_remove_def x_bind_o_def ensure_writable_def read_only_error_def)

definition call_ok :: "nb_env \<Rightarrow> os_env \<Rightarrow> py_disk_hash \<Rightarrow> dict_state \<Rightarrow> dict_call \<Rightarrow> py_call \<Rightarrow> bool" where
  "call_ok nb os p s c call \<longleftrightarrow> (\<exists>p' out. DiskHash nb os p call = Some (p', out) \<and> dict_outcome s c p' out
     \<and> py_models p' (dict_next s c) \<and> (dict_next s c = s \<longrightarrow> p' = p))"

lemma close_call:
  assumes "snd (py_close os p) = Inr ()"
  shows "call_ok nb os p (Open m ro) D_close (''close'', [], [])" and "call_ok nb os p (Open m ro) D_close (''__exit__'', args, [])"
  using assms py_close_closed [of os p "fst (py_close os p)"] by (cases "py_close os p"; simp add: call_ok_def method_calls leaves_def py_exit_def)+

lemma setitem_call:
  assumes "py_holds p m" and "call_served os p (''__setitem__'', [Py_bytes k, Py_bytes v], [])"
  shows "call_ok nb os p (Open m (py_read_only p)) (D_setitem k v) (''__setitem__'', [Py_bytes k, Py_bytes v], [])"
proof (cases "py_read_only p")
  case True
  then show ?thesis using read_only_changes(1) [OF assms(1)] assms(1) by (simp add: call_ok_def)
next
  case False
  have "m k = None \<Longrightarrow> py_room os p k v" using assms False py_contains_spec [OF assms(1), of k] by (simp add: call_served_def)
  then show ?thesis using DiskHash_changes(1) [OF assms(1) False, of k nb os v] DiskHash_changes(2) [OF assms(1) False, of k os v nb] assms(1) False
    by (cases "m k") (auto simp: call_ok_def fun_upd_idem_iff)
qed

lemma delitem_call:
  assumes "py_holds p m" and "name = ''__delitem__'' \<or> name = ''remove''"
  shows "call_ok nb os p (Open m (py_read_only p)) (D_delitem k) (name, [Py_bytes k], [])"
proof (cases "py_read_only p")
  case True
  then show ?thesis using read_only_changes(2) [OF assms(1)] assms by (auto simp: call_ok_def method_calls changes_def)
next
  case False
  show ?thesis
  proof (cases "m k")
    case None
    then show ?thesis using py_remove_spec(1) [OF assms(1) False, of k] assms False
      by (auto simp: call_ok_def method_calls changes_def fun_upd_idem)
  next
    case (Some v)
    then show ?thesis using py_remove_spec(2) [OF assms(1) False, of k] assms(2) False
      by (auto simp: call_ok_def method_calls changes_def fun_upd_idem_iff)
  qed
qed

lemma read_call:
  assumes "py_holds p m" and "writes c call" and "\<forall>k v. c \<noteq> D_setitem k v" and "\<forall>k. c \<noteq> D_delitem k" and "c \<noteq> D_close"
  shows "call_ok nb os p (Open m (py_read_only p)) c call"
proof -
  obtain it xs where it: "py_iter p = Some (Inr it)" "py_loop p it [] = Some (Inr xs)" "distinct (map fst xs)"
    "\<forall>k v. (k, v) \<in> set xs \<longleftrightarrow> m k = Some v" by (rule py_iter_spec [OF assms(1)])
  obtain hm where hm: "ensure_open p = Inr hm" using assms(1) by (rule py_holdsE)
  note specs = py_get_spec [OF assms(1)] py_get_default_spec [OF assms(1)] py_contains_spec [OF assms(1)]
  show ?thesis using assms(2,3,4,5,1) hm it
    by (cases rule: writes.cases)
      (auto simp: call_ok_def method_calls returns_def specs py_enter_def py_bytes_allocated_def split: option.splits)
qed

lemma one_call:
  assumes "py_models p s" and "writes c call" and "call_served os p call"
  shows "call_ok nb os p s c call"
proof (cases s)
  case Closed
  moreover have "dict_next Closed c = Closed" by (cases c) simp_all
  ultimately show ?thesis using closed_call [OF _ assms(2)] assms(1) by (auto simp: call_ok_def)
next
  case (Open m ro)
  then have p: "py_holds p m" "ro = py_read_only p" using assms(1) by simp_all
  show ?thesis using assms(2,3) unfolding Open p(2)
    by (cases rule: writes.cases)
      (auto intro: read_call [OF p(1)] writes.intros setitem_call [OF p(1)] delitem_call [OF p(1)] close_call simp: call_served_def)
qed

lemma calls_run_spec:
  "py_models p s \<Longrightarrow> list_all2 writes cs calls \<Longrightarrow> calls_served nb os p calls \<Longrightarrow>
    \<exists>run. calls_run nb os p calls = Some run \<and> dict_allows p s cs run"
proof (induction calls arbitrary: p s cs)
  case (Cons call calls)
  from Cons.prems(2) obtain c cs' where cs: "cs = c # cs'" "writes c call" "list_all2 writes cs' calls" by (auto simp: list_all2_Cons2)
  have "call_ok nb os p s c call" using one_call [OF Cons.prems(1) cs(2)] Cons.prems(3) by simp
  then obtain p1 out where d: "DiskHash nb os p call = Some (p1, out)" "dict_outcome s c p1 out" "py_models p1 (dict_next s c)"
    "dict_next s c = s \<longrightarrow> p1 = p" by (auto simp: call_ok_def)
  moreover have "calls_served nb os p1 calls" using Cons.prems(3) d(1) by simp
  ultimately obtain run where "calls_run nb os p1 calls = Some run" "dict_allows p1 (dict_next s c) cs' run"
    using Cons.IH cs(3) by blast
  then show ?case using d cs(1) by simp
qed simp

section \<open>Properties\<close>

text \<open>A binding library that refuses every call it has no method for.\<close>

definition demo_nb :: nb_env where
  "demo_nb = \<lparr>nb_new = (\<lambda>_ _. Inl (Raises_python ''TypeError'')), nb_call = (\<lambda>p _. Some (p, Raises_python ''TypeError'')),
     nb_iter_call = (\<lambda>pit _. Some (pit, Raises_python ''TypeError''))\<rparr>"

text \<open>C11. A registered \<open>DiskHash\<close> is a dictionary that can be closed: any sequence of calls of its methods by their registered names,
  with arguments by position or by keyword, in which the program may catch every exception and go on, has the results and the
  exceptions of the abstract object, whose state is a dictionary, open for writing or read-only, or closed. Reads and stores are
  as in \<open>dict\<close>, but a present key is not overwritten; a read-only object raises on every change and a closed one on
  everything but \<open>__enter__\<close>, \<open>__exit__\<close> and \<open>close\<close>, and whatever raises does not touch the object.\<close>

theorem python_module_refines:
  assumes "py_models p s" and "list_all2 writes cs calls" and "calls_served nb os p calls"
  shows "\<exists>run. calls_run nb os p calls = Some run \<and> dict_allows p s cs run"
  by (rule calls_run_spec [OF assms])

theorem python_module_refines_witness:
  "\<exists>p p1 p2. DiskHash_new demo_nb demo_os empty_cat_layout (empty_cont_layout BS) [Py_str ''db''] [(''read_only'', Py_bool False)] = Inr p
    \<and> calls_run demo_nb demo_os p [(''__setitem__'', [Py_bytes [3], Py_bytes [4]], []), (''get'', [Py_bytes [9]], [(''default'', Py_int 7)]),
        (''close'', [], []), (''remove'', [Py_bytes [3]], [])] =
      Some [(p1, Returns Py_none), (p1, Returns (Py_int 7)), (p2, Returns Py_none), (p2, Raises (Runtime_error ''hash map is closed''))]"
proof -
  let ?calls = "[(''__setitem__'', [Py_bytes [3], Py_bytes [4]], []), (''get'', [Py_bytes [9]], [(''default'', Py_int 7)]),
        (''close'', [], []), (''remove'', [Py_bytes [3]], [])]"
  let ?cs = "[D_setitem [3] [4], D_get [9] (Some (Py_int 7)), D_close, D_delitem [3]]"
  obtain p where p: "py_open demo_os ''db'' False empty_cat_layout (empty_cont_layout BS) = Inr p" "py_holds p (\<lambda>_. None)"
    "\<not> py_read_only p" "py_room demo_os p [3] [4]" by (rule demo_python)
  have new: "DiskHash_new demo_nb demo_os empty_cat_layout (empty_cont_layout BS) [Py_str ''db''] [(''read_only'', Py_bool False)] = Inr p"
    using p(1) by (simp add: DiskHash_new_def)
  have "call_served demo_os p (hd ?calls)" "\<forall>call \<in> set (tl ?calls). \<forall>p. call_served demo_os p call"
    using p(4) demo_os_py_close by (simp_all add: call_served_def)
  then have served: "calls_served demo_nb demo_os p ?calls" by (simp split: option.split)
  have written: "list_all2 writes ?cs ?calls" by (auto intro: writes.intros)
  have "py_models p (Open (\<lambda>_. None) False)" using p(2,3) by simp
  from python_module_refines [OF this written served] obtain run where run: "calls_run demo_nb demo_os p ?calls = Some run" "dict_allows p (Open (\<lambda>_. None) False) ?cs run"
    by (elim exE conjE)
  from run(2) have "\<exists>p1 p2. run = [(p1, Returns Py_none), (p1, Returns (Py_int 7)), (p2, Returns Py_none), (p2, Raises closed_error)]"
    by (simp only: dict_allows_Cons) clarsimp
  then obtain p1 p2 where "run = [(p1, Returns Py_none), (p1, Returns (Py_int 7)), (p2, Returns Py_none), (p2, Raises closed_error)]" by blast
  then show ?thesis using new run(1) unfolding closed_error_def by blast
qed

text \<open>An assignment that raises because the file cannot grow leaves the object as it was and can be repeated, if the
  chain of the key need not be split and the platform is not macOS.\<close>

theorem python_put_exception:
  assumes "py_holds p m" and "\<not> py_read_only p" and "py_map p = Some hm" and "m k = None" and "bytes_required k v \<le> BS"
    and "bucket_to_split BS (hm_container hm) (hm_head hm (fnv1a k)) = Inr False"
    and "DiskHash nb os p (''__setitem__'', [Py_bytes k, Py_bytes v], []) = Some (p', Raises System_error)" and "os_platform os \<noteq> MacOS"
  shows "p' = p"
proof -
  have hm: "hm_holds BS hm m" using assms(1,3) by (auto simp: py_holds_def)
  have find: "hm_find BS hm (fnv1a k) k = Some (Inr None)" by (rule hm_kv.key_find_absent [OF hm assms(4)])
  obtain recs where I: "hm_inv BS hm recs" using hm by (auto simp: hm_holds_def hm_repr_def)
  note cat = hm_invD(9) [OF I, of "fnv1a k"]
  have rec: "find_record BS (hm_container hm) (hm_head hm (fnv1a k)) (fnv1a k) k = Some (Inr None)" using find cat by (simp add: hm_find_def)
  have put: "x_py_put os p k v = Some (p', Inl System_error)"
    using assms(7) by (cases "x_py_put os p k v"; cases "snd (the (x_py_put os p k v))") (auto simp: method_calls leaves_def)
  then obtain hm' where get: "x_hm_get os BS hm (fnv1a k) k v = Some (hm', Inl System_error)" "p' = p\<lparr>py_map := Some hm'\<rparr>"
    using find assms(2,3) by (auto simp: x_py_put_def x_bind_o_def ensure_open_def ensure_writable_def split: option.split_asm sum.split_asm)
  have "hm' = hm" using x_hm_get_throws [OF cat rec assms(5) get(1)] assms(6,8) by (auto simp: hm_leaves_def)
  then show ?thesis using get(2) assms(3) by simp
qed

text \<open>The statement \<^verbatim>\<open>with\<close> always closes: if the files can be closed, then however its block ends, normally or with an
  exception, the map is released, the outcome is that of the block, and every later method that needs the map
  raises; if closing fails, that exception is the outcome.\<close>

theorem python_with_closes:
  assumes "py_block nb os p calls = Some (p1, out)" and "py_close os p1 = (p2, r)"
  shows "case r of
      Inl e \<Rightarrow> py_with nb os p calls = Some (p2, Raises e)
    | Inr _ \<Rightarrow> py_with nb os p calls = Some (p2, out) \<and> py_map p2 = None
        \<and> DiskHash nb os p2 (''__getitem__'', [Py_bytes k], []) = Some (p2, Raises (Runtime_error ''hash map is closed''))"
proof -
  have "DiskHash nb os p (''__enter__'', [], []) = Some (p, Returns Py_self)" by (simp add: DiskHash_def py_enter_def)
  moreover have "DiskHash nb os p1 (''__exit__'', [Py_none, Py_none, Py_none], []) = leaves (Some (p2, r))"
    using assms(2) by (simp add: DiskHash_def py_exit_def)
  ultimately have w: "py_with nb os p calls = (case r of Inl e \<Rightarrow> Some (p2, Raises e) | Inr _ \<Rightarrow> Some (p2, out))"
    using assms(1) by (cases r) (simp_all add: py_with_def leaves_def)
  show ?thesis
  proof (cases r)
    case (Inr u)
    then have "py_map p2 = None" using py_close_closed assms(2) by simp
    then show ?thesis using w Inr by (simp add: DiskHash_def returns_def py_get_def ensure_open_def)
  qed (use w in simp)
qed

theorem python_with_closes_witness:
  "\<exists>p p2. DiskHash_new nb demo_os empty_cat_layout (empty_cont_layout BS) [Py_str ''db''] [] = Inr p
    \<and> py_with nb demo_os p [(''__getitem__'', [Py_bytes [3]], []), (''close'', [], [])] = Some (p2, Raises (key_error [3]))
    \<and> py_map p2 = None"
proof -
  obtain p where "py_open demo_os ''db'' False empty_cat_layout (empty_cont_layout BS) = Inr p" and p: "py_holds p (\<lambda>_. None)"
    by (rule demo_python)
  then have new: "DiskHash_new nb demo_os empty_cat_layout (empty_cont_layout BS) [Py_str ''db''] [] = Inr p" by (simp add: DiskHash_new_def)
  from p obtain hm where hm: "py_map p = Some hm" by (auto simp: py_holds_def)
  have "py_block nb demo_os p [(''__getitem__'', [Py_bytes [3]], []), (''close'', [], [])] = Some (p, Raises (key_error [3]))"
    using DiskHash_dict(3) [OF p, of nb demo_os "[3]"] by simp
  moreover have "\<exists>p2. py_close demo_os p = (p2, Inr ())"
    using hm by (simp add: py_close_def hm_close_def cat_close_def cont_close_def demo_os_close)
  then obtain p2 where "py_close demo_os p = (p2, Inr ())" by blast
  ultimately show ?thesis using python_with_closes [of nb demo_os p _ p] new by fastforce
qed

end
