(* ===== verification/Persistence.thy ===== *)
theory Persistence
  imports Hash_Map_Traces
begin

text \<open>
  What survives on disk, and what does not fit. Closing and opening again brings the map back as far as
  the mapping made by the constructor reaches: it covers \<^verbatim>\<open>sizeof(layout_t)\<close> bytes, rounded up to a page,
  and grows only when buckets are created. Records larger than a bucket are never stored.
\<close>

section \<open>Opening existing files\<close>

text \<open>The contents of the two files of a hash map.\<close>

definition cat_disk :: "hash_map \<Rightarrow> cat_layout" where
  "cat_disk hm = cat_layout.truncate (hm_catalogue hm)"

definition cont_disk :: "hash_map \<Rightarrow> cont_layout" where
  "cont_disk hm = cont_layout.truncate (hm_container hm)"

definition hm_signed :: "hash_map \<Rightarrow> bool" where
  "hm_signed hm \<longleftrightarrow> cat_signature (hm_catalogue hm) = CAT_SIGNATURE \<and> c_signature (hm_container hm) = CONT_SIGNATURE"

definition remap :: "hash_map \<Rightarrow> file_map \<Rightarrow> file_map \<Rightarrow> hash_map" where
  "remap hm fm1 fm2 = \<lparr>hm_catalogue = (hm_catalogue hm)\<lparr>cat_file_map := fm1\<rparr>, hm_container = (hm_container hm)\<lparr>c_file_map := fm2\<rparr>\<rparr>"

lemma disk_extend:
  "cat_layout.extend (cat_disk hm) \<lparr>cat_file_map = fm1\<rparr> = (hm_catalogue hm)\<lparr>cat_file_map := fm1\<rparr>"
  "cont_layout.extend (cont_disk hm) \<lparr>c_file_map = fm2\<rparr> = (hm_container hm)\<lparr>c_file_map := fm2\<rparr>"
  by (simp_all add: cat_disk_def cont_disk_def cat_layout.defs cont_layout.defs)

lemma unix_open_fields:
  assumes "os_platform os \<noteq> Windows" and "fm_open os f ro n = Inr fm" and "n \<noteq> 0"
  shows "fm_extent fm = page_ceil os n" "fm_length fm = n" "fm_read_only fm = ro"
proof -
  have "fm_open os f ro n = linux_open os f ro n" using assms(1) by (cases "os_platform os") (simp_all add: fm_open_def)
  then show "fm_extent fm = page_ceil os n" "fm_length fm = n" "fm_read_only fm = ro"
    using assms(2,3) by (auto simp: linux_open_def Let_def split: if_splits option.splits)
qed

lemma layout_sizes: "cat_layout_size \<noteq> 0" "cont_layout_size bs \<noteq> 0"
  by (simp_all add: cat_layout_size_def cat_header_size_def cont_layout_size_def cont_header_size_def)

text \<open>Opening the files of a hash map with both signatures gives the same structure over two new mappings.\<close>

lemma hm_open_existing:
  assumes "hm_signed hm" and "c_count (hm_container hm) \<noteq> 0"
    and "fm_open os (f @ ''cat'') ro cat_layout_size = Inr fm1" and "readable fm1 cat_layout_size"
    and "fm_open os (f @ ''dat'') ro (cont_layout_size bs) = Inr fm2" and "readable fm2 cont_header_size"
  shows "hm_open os bs f ro (cat_disk hm) (cont_disk hm) = Inr (remap hm fm1 fm2)"
  using assms
  by (simp add: hm_open_def cat_open_def cont_open_def disk_extend remap_def hm_signed_def Let_def buckets_count_def CAT_SIGNATURE_def CONT_SIGNATURE_def)

lemma store_remap:
  assumes "store bs c H recs" and "readable fm (fm_length fm)" and "readable fm (bucket_off bs (c_count c))"
  shows "store bs (c\<lparr>c_file_map := fm\<rparr>) H recs"
proof -
  have n: "nexts (c\<lparr>c_file_map := fm\<rparr>) = nexts c" by (simp add: nexts_def fun_eq_iff)
  have "store_by bs (c\<lparr>c_file_map := fm\<rparr>) fs H ids ct" if "store_by bs c fs H ids ct" for fs ids ct
    using that assms(2,3) unfolding store_by_def cont_inv_def holds_chain_def n by simp
  then show ?thesis using assms(1) unfolding store_def by blast
qed

lemma hm_repr_remap:
  assumes R: "hm_repr bs hm m"
    and fm1: "readable fm1 (fm_length fm1)" "readable fm1 (cat_header_size + 8 * 2 ^ hm_bits hm)"
    and fm2: "readable fm2 (fm_length fm2)" "readable fm2 (bucket_off bs (c_count (hm_container hm)))"
  shows "hm_repr bs (remap hm fm1 fm2) m"
proof -
  from R obtain recs where I: "hm_inv bs hm recs" and m: "m = hm_abs hm recs" unfolding hm_repr_def by blast
  note i = hm_invD [OF I]
  let ?hm = "remap hm fm1 fm2"
  have f: "hm_bits ?hm = hm_bits hm" "hm_heads ?hm = hm_heads hm" "hm_head ?hm = hm_head hm" "hm_depth ?hm = hm_depth hm"
    "cat_buffer (hm_catalogue ?hm) = cat_buffer (hm_catalogue hm)"
    by (simp_all add: remap_def hm_heads_def hm_head_def hm_depth_def fun_eq_iff)
  have "cat_inv (hm_catalogue ?hm)" using i(1) fm1 by (auto simp: cat_inv_def remap_def)
  moreover have "store bs (hm_container ?hm) (hm_heads hm) recs" using store_remap [OF i(3) fm2] by (simp add: remap_def)
  ultimately have "hm_inv bs ?hm recs"
    using I unfolding hm_inv_def f by (simp add: remap_def)
  moreover have "m = hm_abs ?hm recs" by (simp add: m hm_abs_def f)
  ultimately show ?thesis unfolding hm_repr_def by blast
qed

text \<open>Both at once, on the systems where a mapping reaches to the end of its last page.\<close>

lemma hm_reopen:
  assumes R: "hm_repr bs hm m" and sg: "hm_signed hm" and os: "os_platform os \<noteq> Windows" "os_serves os" "cont_layout_size bs < os_limit os"
    and f: "os_opens os (f @ ''cat'')" "os_opens os (f @ ''dat'')"
  obtains fm1 fm2 where "hm_open os bs f False (cat_disk hm) (cont_disk hm) = Inr (remap hm fm1 fm2)"
    and "writable fm1 (page_ceil os cat_layout_size)" and "writable fm2 (page_ceil os (cont_layout_size bs))"
    and "fm_extent fm2 = page_ceil os (cont_layout_size bs)"
    and "fm_length fm1 = cat_layout_size" and "fm_length fm2 = cont_layout_size bs"
proof -
  have lim: "cat_layout_size < os_limit os" "0 < cat_layout_size" "0 < cont_layout_size bs"
    using os(1) layout_sizes by (auto simp: cat_layout_size_def cat_header_size_def os_limit_def cont_layout_size_def cont_header_size_def split: platform.splits)
  obtain fm1 where 1: "fm_open os (f @ ''cat'') False cat_layout_size = Inr fm1" "writable fm1 cat_layout_size"
    using fm_open_served [OF os(2) f(1) lim(2,1)] by blast
  obtain fm2 where 2: "fm_open os (f @ ''dat'') False (cont_layout_size bs) = Inr fm2" "writable fm2 (cont_layout_size bs)"
    using fm_open_served [OF os(2) f(2) lim(3) os(3)] by blast
  note x = unix_open_fields [OF os(1) 1(1) layout_sizes(1)] unix_open_fields [OF os(1) 2(1) layout_sizes(2)]
  have "readable fm2 cont_header_size" using 2(2) by (auto simp: writable_def readable_def cont_layout_size_def)
  moreover have "c_count (hm_container hm) \<noteq> 0"
    using R store_get_bucket(2) hm_invD(3,10) unfolding hm_repr_def by (metis not_less_zero)
  ultimately have "hm_open os bs f False (cat_disk hm) (cont_disk hm) = Inr (remap hm fm1 fm2)"
    using hm_open_existing [OF sg _ 1(1) _ 2(1)] 1(2) by (simp add: writable_def)
  then show ?thesis using that x 1(2) 2(2) by (simp add: writable_def readable_def)
qed

section \<open>Records that are too large\<close>

lemma create_record_loop_oversize:
  assumes "create_record_loop os bs required c p = Some r"
  shows "bs < required \<longrightarrow> (\<exists>e. r = Inl e)"
  using _ assms
proof (rule create_record_loop.raw_induct)
  fix loop os bs required c p and r :: "(container \<times> nat) result"
  assume IH: "\<And>os bs required c p r. loop os bs required c p = Some r \<Longrightarrow> bs < required \<longrightarrow> (\<exists>e. r = Inl e)"
    and body: "(case get_bucket bs c p of Inl e \<Rightarrow> Some (Inl e)
      | Inr b \<Rightarrow> if bs < b_bytes_used b + required then
          (if b_next b = INVALID_BUCKET_ID then
             (case create_bucket os bs c (b_prefix_bits b) of Inl e \<Rightarrow> Some (Inl e)
              | Inr cn \<Rightarrow> (case upd_bucket bs (fst cn) p (\<lambda>b. b\<lparr>b_next := snd cn\<rparr>) of Inl e \<Rightarrow> Some (Inl e)
                  | Inr c \<Rightarrow> loop os bs required c (snd cn)))
           else loop os bs required c (b_next b))
        else Some (Inr (c, p))) = Some r"
  show "bs < required \<longrightarrow> (\<exists>e. r = Inl e)"
    using body IH by (auto split: sum.split_asm if_split_asm intro: sym)
qed

lemma create_record_oversize:
  assumes "bs < bytes_required k v"
  shows "create_record os bs c p h k v \<noteq> Some (Inr x)"
proof
  assume "create_record os bs c p h k v = Some (Inr x)"
  then obtain y where "create_record_loop os bs (bytes_required k v) c p = Some (Inr y)"
    by (auto simp: create_record_def bind_o_eq_Inr)
  from create_record_loop_oversize [OF this] assms show False by simp
qed

section \<open>Properties\<close>

text \<open>C32. A small map survives being closed and opened again: as long as catalogue and buckets lie within the
  pages that the constructors map, the map opened from the files is writable and holds the same pairs.\<close>

theorem reopen_small:
  assumes "hm_repr bs hm m" and "hm_signed hm" and "os_platform os \<noteq> Windows" and "os_serves os" and "cont_layout_size bs < os_limit os"
    and "os_opens os (f @ ''cat'')" and "os_opens os (f @ ''dat'')"
    and cat: "cat_header_size + 8 * 2 ^ cat_prefix_bits (hm_catalogue hm) \<le> page_ceil os cat_layout_size"
    and dat: "bucket_off bs (c_count (hm_container hm)) \<le> page_ceil os (cont_layout_size bs)"
  shows "\<exists>hm'. hm_open os bs f False (cat_disk hm) (cont_disk hm) = Inr hm' \<and> hm_repr bs hm' m \<and> hm_rw hm'"
proof -
  obtain fm1 fm2 where fm: "hm_open os bs f False (cat_disk hm) (cont_disk hm) = Inr (remap hm fm1 fm2)"
    "writable fm1 (page_ceil os cat_layout_size)" "writable fm2 (page_ceil os (cont_layout_size bs))"
    "fm_length fm1 = cat_layout_size" "fm_length fm2 = cont_layout_size bs" by (rule hm_reopen [OF assms(1-7)])
  have "0 < os_page_size os" using assms(4) by (simp add: os_serves_def)
  note ge = page_ceil_ge [OF this]
  have "hm_repr bs (remap hm fm1 fm2) m"
    using fm(2-5) cat dat ge [of cat_layout_size] ge [of "cont_layout_size bs"]
    by (intro hm_repr_remap [OF assms(1)]) (auto simp: writable_def readable_def)
  moreover have "hm_rw (remap hm fm1 fm2)" using fm(2,3) by (simp add: hm_rw_def cont_rw_def remap_def writable_def)
  ultimately show ?thesis using fm(1) by blast
qed

theorem reopen_small_witness:
  "\<exists>hm'. hm_open demo_os 64 ''db'' False (cat_disk demo_hm) (cont_disk demo_hm) = Inr hm' \<and> hm_repr 64 hm' demo_map \<and> hm_rw hm'"
proof (rule reopen_small)
  show "hm_repr 64 demo_hm demo_map" by (rule demo_hm_repr)
  show "hm_signed demo_hm" by (simp add: hm_signed_def demo_hm_def demo_cat_def demo_cont_def)
  show "os_platform demo_os \<noteq> Windows" by (simp add: demo_os_def)
  show "os_serves demo_os" "os_opens demo_os (''db'' @ ''cat'')" "os_opens demo_os (''db'' @ ''dat'')" by (rule demo_os_serves)+
  show "cont_layout_size 64 < os_limit demo_os"
    by (simp add: demo_os_serves cont_layout_size_def cont_header_size_def bucket_size_def bucket_header_size_def)
  show "cat_header_size + 8 * 2 ^ cat_prefix_bits (hm_catalogue demo_hm) \<le> page_ceil demo_os cat_layout_size"
    by (simp add: demo_hm_def demo_cat_def cat_header_size_def cat_layout_size_def page_ceil_def demo_os_def)
  show "bucket_off 64 (c_count (hm_container demo_hm)) \<le> page_ceil demo_os (cont_layout_size 64)"
    by (simp add: demo_hm_repr(3) bucket_off_def cont_layout_size_def cont_header_size_def bucket_size_def bucket_header_size_def page_ceil_def demo_os_def)
qed

text \<open>C33. A larger map does not: opening its files succeeds, but looking up any key whose chain starts in a
  bucket beyond the pages that the constructor maps accesses unmapped memory.\<close>

theorem reopen_faults:
  assumes R: "hm_repr bs hm m" and "hm_signed hm" and "os_platform os \<noteq> Windows" and "os_serves os" and "cont_layout_size bs < os_limit os"
    and "os_opens os (f @ ''cat'')" and "os_opens os (f @ ''dat'')"
    and cat: "cat_header_size + 8 * 2 ^ cat_prefix_bits (hm_catalogue hm) \<le> page_ceil os cat_layout_size"
    and p: "cat_find (hm_catalogue hm) h = Inr p"
    and beyond: "page_ceil os (cont_layout_size bs) < bucket_off bs p + bucket_header_size"
  shows "\<exists>hm'. hm_open os bs f False (cat_disk hm) (cont_disk hm) = Inr hm' \<and> hm_find bs hm' h k = Some (Inl Bad_access)"
proof -
  obtain fm1 fm2 where fm: "hm_open os bs f False (cat_disk hm) (cont_disk hm) = Inr (remap hm fm1 fm2)"
    "writable fm1 (page_ceil os cat_layout_size)" "fm_extent fm2 = page_ceil os (cont_layout_size bs)" "fm_length fm1 = cat_layout_size"
    by (rule hm_reopen [OF assms(1-7)])
  from R obtain recs where I: "hm_inv bs hm recs" unfolding hm_repr_def by blast
  note i = hm_invD [OF I]
  have "0 < os_page_size os" using assms(4) by (simp add: os_serves_def)
  then have "cat_inv (hm_catalogue (remap hm fm1 fm2))"
    using i(1) fm(2,4) cat page_ceil_ge [of os cat_layout_size] by (auto simp: cat_inv_def remap_def writable_def readable_def)
  moreover have ph: "p = hm_head hm h" using p i(9) [of h] by simp
  ultimately have "cat_find (hm_catalogue (remap hm fm1 fm2)) h = Inr p"
    using cat_find_eq by (simp add: remap_def hm_head_def)
  moreover have "p \<noteq> INVALID_BUCKET_ID"
    using store_get_bucket(2) [OF i(3) i(10) [of h]] i(3) ph unfolding store_def store_by_def cont_inv_def by (auto simp: INVALID_BUCKET_ID_def)
  moreover have "get_bucket bs (hm_container (remap hm fm1 fm2)) p = Inl Bad_access"
    using beyond fm(3) by (simp add: get_bucket_def readable_def remap_def)
  ultimately show ?thesis using fm(1) by (simp add: hm_find_def find_record_def find_value.simps)
qed

text \<open>A map of four entries and four buckets of the default size.\<close>

definition demo_big :: hash_map where
  "demo_big = \<lparr>hm_catalogue = demo_cat\<lparr>cat_prefix_bits := 2, cat_prefix_shift := 30, cat_prefix_mask := 0xC0000000, cat_buffer_size := 4\<rparr>,
     hm_container = \<lparr>c_signature = CONT_SIGNATURE, c_count = 4, c_first_free = INVALID_BUCKET_ID,
       c_buckets = (\<lambda>_. \<lparr>b_prefix_bits = 2, b_bytes_used = 0, b_next = INVALID_BUCKET_ID, b_data = replicate DEFAULT_BUCKET_SIZE 0\<rparr>),
       c_file_map = demo_fm\<lparr>fm_length := 20000, fm_extent := 20480\<rparr>\<rparr>\<rparr>"

lemma demo_big_repr: "hm_repr DEFAULT_BUCKET_SIZE demo_big (\<lambda>_. None)"
proof -
  let ?c = "hm_container demo_big"
  have bits: "hm_bits demo_big = 2" "hm_depth demo_big = (\<lambda>_. 2)" "cat_buffer (hm_catalogue demo_big) = (\<lambda>i. i)"
    by (simp_all add: demo_big_def demo_cat_def hm_depth_def fun_eq_iff)
  have four: "{..<4 :: nat} = {0, 1, 2, 3}" by auto
  have heads: "hm_heads demo_big = {0, 1, 2, 3}" by (simp add: hm_heads_def bits four)
  have "store_by DEFAULT_BUCKET_SIZE ?c [] {0, 1, 2, 3} (\<lambda>p. [p]) (\<lambda>_. [])"
    by (auto simp: store_by_def cont_inv_def holds_chain_def demo_big_def demo_fm_def readable_def bucket_off_def bucket_size_def
        bucket_header_size_def cont_header_size_def INVALID_ID_def INVALID_BUCKET_ID_def nexts_def bucket_holds_Nil DEFAULT_BUCKET_SIZE_def)
  then have "store DEFAULT_BUCKET_SIZE ?c (hm_heads demo_big) (\<lambda>_. [])" unfolding heads store_def by force
  moreover have "cat_inv (hm_catalogue demo_big)"
    by (simp add: cat_inv_def demo_big_def demo_cat_def demo_fm_def readable_def cat_header_size_def mask_eq_exp_minus_1)
  moreover have "dir_ok 2 (\<lambda>i. i) (\<lambda>_. 2)" by (simp add: dir_ok_def)
  moreover have "c_count ?c = 4" by (simp add: demo_big_def)
  ultimately have "hm_inv DEFAULT_BUCKET_SIZE demo_big (\<lambda>_. [])" by (simp add: hm_inv_def bits)
  moreover have "(\<lambda>_. None) = hm_abs demo_big (\<lambda>_. [])" by (auto simp: hm_abs_def lookup_def)
  ultimately show ?thesis unfolding hm_repr_def by blast
qed

theorem reopen_faults_witness:
  "\<exists>hm'. hm_open demo_os DEFAULT_BUCKET_SIZE ''db'' False (cat_disk demo_big) (cont_disk demo_big) = Inr hm'
    \<and> hm_find DEFAULT_BUCKET_SIZE hm' 0x80000000 [1] = Some (Inl Bad_access)"
proof (rule reopen_faults)
  show "hm_repr DEFAULT_BUCKET_SIZE demo_big (\<lambda>_. None)" by (rule demo_big_repr)
  show "hm_signed demo_big" by (simp add: hm_signed_def demo_big_def demo_cat_def)
  show "os_platform demo_os \<noteq> Windows" by (simp add: demo_os_def)
  show "os_serves demo_os" "os_opens demo_os (''db'' @ ''cat'')" "os_opens demo_os (''db'' @ ''dat'')" by (rule demo_os_serves)+
  show "cont_layout_size DEFAULT_BUCKET_SIZE < os_limit demo_os"
    by (simp add: demo_os_serves cont_layout_size_def cont_header_size_def bucket_size_def bucket_header_size_def DEFAULT_BUCKET_SIZE_def)
  show "cat_header_size + 8 * 2 ^ cat_prefix_bits (hm_catalogue demo_big) \<le> page_ceil demo_os cat_layout_size"
    by (simp add: demo_big_def demo_cat_def cat_header_size_def cat_layout_size_def page_ceil_def demo_os_def)
  show "cat_find (hm_catalogue demo_big) 0x80000000 = Inr 2"
    by (simp add: cat_find_def cat_index_def cat_get_def shr32_def demo_big_def demo_cat_def demo_fm_def readable_def cat_header_size_def)
  show "page_ceil demo_os (cont_layout_size DEFAULT_BUCKET_SIZE) < bucket_off DEFAULT_BUCKET_SIZE 2 + bucket_header_size"
    by (simp add: bucket_off_def cont_layout_size_def cont_header_size_def bucket_size_def bucket_header_size_def page_ceil_def demo_os_def DEFAULT_BUCKET_SIZE_def)
qed

text \<open>C34. A record larger than a bucket is never stored: the search for a bucket with room appends one bucket
  after the other and comes back only with an error of the system, if at all.\<close>

theorem oversize_never_stored:
  assumes big: "bs < bytes_required k v" and "hm_find bs hm h k = Some (Inr None)"
  shows "hm_get os bs hm h k v \<noteq> Some (Inr x)"
proof
  assume "hm_get os bs hm h k v = Some (Inr x)"
  then obtain c p y where "create_record os bs c p h k v = Some (Inr y)"
    using assms(2) by (fastforce simp: hm_get_def hm_find_def bind_o_eq_Inr split: option.splits)
  with create_record_oversize [OF big] show False by blast
qed

theorem oversize_never_stored_witness: "\<nexists>x. hm_get demo_os 64 demo_hm 5 [3] (replicate 100 0) = Some (Inr x)"
proof -
  have "64 < bytes_required [3] (replicate 100 0)" by (simp add: bytes_required_def)
  moreover have "hm_find 64 demo_hm 5 [3] = Some (Inr None)"
    using hm_find_spec [OF demo_hm_repr(1), of 5 "[3]"] by (auto simp: demo_map_def shown_def)
  ultimately show ?thesis using oversize_never_stored by blast
qed

end
