(* ===== verification/Hash_Map_Views.thy ===== *)
theory Hash_Map_Views
  imports Hash_Map_Traces
begin

text \<open>
  Writing through a view. \<open>get\<close> returns a view into the mapped file, and the typed wrapper lets its
  caller write through it. The lemmas pin down where the view points (to the value of the record that
  \<open>find\<close> finds, also right after the record was created) and show that overwriting as many bytes
  there changes the value of this one pair and nothing else.
\<close>

section \<open>The view of a new record\<close>

lemma concat_upd_matches:
  assumes "\<forall>r \<in> set (concat (map ct xs)). \<not> matches h k r" and "i \<notin> set us" and "set us \<subseteq> set xs"
  shows "\<forall>r \<in> set (concat (map (ct(i := rs)) us)). \<not> matches h k r"
proof -
  have "map (ct(i := rs)) us = map ct us" using assms(2) by (intro map_cong) auto
  then show ?thesis using assms(1,3) by auto
qed

lemma store_create_view:
  assumes S: "store bs c H recs" and p: "p \<in> H" and rw: "cont_rw c"
    and os: "os_serves os" "capacity os bs (c_count c)" and fits: "bytes_required k v \<le> bs"
    and none: "lookup (recs p) h k = None" and made: "create_record os bs c p h k v = Some (Inr (c', sv))"
  shows "find_record bs c' p h k = Some (Inr (Some sv))"
proof -
  define r where "r = \<lparr>rv_hash = h, rv_key = k, rv_value = v\<rparr>"
  from S obtain fs ids ct where S': "store_by bs c fs H ids ct" and recs: "\<forall>q \<in> H. recs q = concat (map ct (ids q))"
    unfolding store_def by blast
  note s = store_byD [OF S']
  from create_record_spec [OF s(1) rw os fits s(3,4,5,6) [OF p] r_def] made obtain fs' ns i ct' where
    sv: "sv = view_of i (ct' i) r" and st: "stored bs c fs p (ids p) ct r c' fs' ns i ct'" by auto
  let ?xs = "ids p @ ns"
  have t: "cont_inv bs c' fs'" "chain (nexts c') p ?xs" "holds_chain bs c' ?xs (ct'(i := ct' i @ [r]))" "i \<in> set ?xs"
     "\<And>j. ct' j = (if j \<in> set ns then [] else ct j)"
    using st unfolding stored_def by blast+
  have old: "\<forall>r \<in> set (concat (map ct (ids p))). \<not> matches h k r" using none recs p by (simp add: lookup_none)
  have no: "\<forall>r \<in> set (concat (map ct' ?xs)). \<not> matches h k r" using old t(5) by auto
  from t(4) obtain us vs where us: "?xs = us @ i # vs" by (meson split_list)
  have "i \<notin> set us" using chain_distinct [OF t(2)] us by simp
  moreover have "set us \<subseteq> set ?xs" using us by auto
  ultimately have nous: "\<forall>r \<in> set (concat (map (ct'(i := ct' i @ [r])) us)). \<not> matches h k r"
    by (rule concat_upd_matches [OF no])
  have as: "\<forall>r \<in> set (ct' i). \<not> matches h k r" using no t(4) by auto
  have m: "matches h k r" by (simp add: r_def matches_def)
  have ct: "(ct'(i := ct' i @ [r])) i = ct' i @ r # []" by simp
  show ?thesis
    using find_value_found(1) [OF t(1) t(2) [unfolded us] t(3) [unfolded us] nous ct as m] by (simp add: find_record_def sv)
qed

lemma hm_get_view:
  assumes R: "hm_repr bs hm m" and rw: "hm_rw hm" and os: "os_serves os" "hm_capacity os bs hm"
    and fits: "bytes_required k d \<le> bs" and m: "m (h, k) = None" and got: "hm_get os bs hm h k d = Some (Inr (hm', Some sv))"
  shows "hm_find bs hm' h k = Some (Inr (Some sv))"
proof -
  from R obtain recs where I: "hm_inv bs hm recs" and mm: "m = hm_abs hm recs" unfolding hm_repr_def by blast
  have fnd: "find_record bs (hm_container hm) (hm_head hm h) h k = Some (Inr None)"
    using hm_find_spec [OF R, of h k] m hm_invD(9) [OF I, of h] by (auto simp: shown_def hm_find_def)
  obtain hm1 recs1 where room: "hm_make_room os bs hm h (hm_head hm h) = Some (Inr (hm1, hm_head hm1 h))"
    and I1: "hm_inv bs hm1 recs1" "hm_rw hm1" and abs1: "hm_abs hm1 recs1 = m"
    and cnt: "c_count (hm_container hm1) \<le> 2 * c_count (hm_container hm)"
    using hm_make_room_spec [OF I rw os, of h] mm by blast
  note i = hm_invD [OF I1(1)]
  have cap: "capacity os bs (c_count (hm_container hm1))"
    using os(2) cnt by (auto simp: hm_capacity_def intro: capacity_mono)
  from got obtain c' where cr: "create_record os bs (hm_container hm1) (hm_head hm1 h) h k d = Some (Inr (c', sv))"
    and hm': "hm' = hm1\<lparr>hm_container := c'\<rparr>"
    using fnd room hm_invD(9) [OF I, of h] by (auto simp: hm_get_def bind_o_eq_Inr)
  have "lookup (recs1 (hm_head hm1 h)) h k = None" using abs1 m by (auto simp: hm_abs_def)
  moreover have "cont_rw (hm_container hm1)" using I1(2) by (simp add: hm_rw_def)
  ultimately have "find_record bs c' (hm_head hm1 h) h k = Some (Inr (Some sv))"
    using store_create_view [OF i(3) i(10) _ os(1) cap fits _ cr] by blast
  then show ?thesis using i(9) [of h] by (simp add: hm' hm_find_def)
qed

section \<open>Overwriting a value\<close>

lemma enc_same_length:
  assumes "length ys = length (rv_value r)"
  shows "enc (r\<lparr>rv_value := ys\<rparr>) = overwrite (value_offset r) ys (enc r)" "length (enc (r\<lparr>rv_value := ys\<rparr>)) = length (enc r)"
proof -
  have h: "enc_header (rv_hash r) (rv_key r) ys = enc_header (rv_hash r) (rv_key r) (rv_value r)"
    using assms by (simp add: enc_header_def size_word_def)
  show "enc (r\<lparr>rv_value := ys\<rparr>) = overwrite (value_offset r) ys (enc r)"
    using assms by (simp add: enc_def h value_offset_def overwrite_def)
  show "length (enc (r\<lparr>rv_value := ys\<rparr>)) = length (enc r)" using assms by (simp add: enc_def h)
qed

lemma bucket_holds_write:
  assumes holds: "bucket_holds bs b (as @ r # zs)" and len: "length (b_data b) = bs" and ys: "length ys = length (rv_value r)"
  shows "bucket_holds bs (b\<lparr>b_data := overwrite (length (encs as) + value_offset r) ys (b_data b)\<rparr>) (as @ r\<lparr>rv_value := ys\<rparr> # zs)"
proof -
  define rest where "rest = drop (b_bytes_used b) (b_data b)"
  have d: "b_data b = encs as @ enc r @ encs zs @ rest"
    using bucket_holds_data [OF holds len] by (simp add: rest_def)
  have e: "value_offset r + length ys = length (enc r)" using value_offset_enc [of r] ys by simp
  have "overwrite (length (encs as) + value_offset r) ys (b_data b) = encs as @ overwrite (value_offset r) ys (enc r) @ encs zs @ rest"
    unfolding d using e by (simp add: overwrite_def)
  also have "\<dots> = encs (as @ r\<lparr>rv_value := ys\<rparr> # zs) @ rest" using enc_same_length(1) [OF ys] by simp
  finally have w: "overwrite (length (encs as) + value_offset r) ys (b_data b) = encs (as @ r\<lparr>rv_value := ys\<rparr> # zs) @ rest" .
  have l: "length (encs (as @ r\<lparr>rv_value := ys\<rparr> # zs)) = length (encs (as @ r # zs))" using enc_same_length(2) [OF ys] by simp
  have "b_bytes_used b = length (encs (as @ r # zs))" "b_bytes_used b \<le> bs" using holds by (simp_all add: bucket_holds_def)
  then show ?thesis unfolding bucket_holds_def using l by (simp add: w del: encs_simps)
qed

lemma store_write:
  assumes S: "store bs c H recs" and p: "p \<in> H" and rw: "cont_rw c"
    and found: "find_record bs c p h k = Some (Inr (Some sv))" and v: "lookup (recs p) h k = Some v" and ys: "length ys = length v"
  shows "\<exists>c' xs r zs. put_data bs c (sv_bucket sv) (sv_offset sv) ys = Inr c' \<and> recs p = xs @ r # zs
    \<and> (\<forall>r \<in> set xs. \<not> matches h k r) \<and> matches h k r
    \<and> store bs c' H (recs(p := xs @ r\<lparr>rv_value := ys\<rparr> # zs)) \<and> cont_rw c' \<and> c_count c' = c_count c
    \<and> (\<forall>q \<in> H. b_prefix_bits (c_buckets c' q) = b_prefix_bits (c_buckets c q))"
proof -
  from S obtain fs ids ct where S': "store_by bs c fs H ids ct" and recs: "\<forall>q \<in> H. recs q = concat (map ct (ids q))"
    unfolding store_def by blast
  note s = store_byD [OF S']
  have "\<exists>r \<in> set (concat (map ct (ids p))). matches h k r" using v recs p lookup_none [of "recs p" h k] by auto
  then obtain us i vs as r zs where ids: "ids p = us @ i # vs" and no: "\<forall>r \<in> set (concat (map ct us)). \<not> matches h k r"
    and ct: "ct i = as @ r # zs" and as: "\<forall>r \<in> set as. \<not> matches h k r" and m: "matches h k r" by (rule first_match)
  have i: "i < c_count c" "bucket_holds bs (c_buckets c i) (as @ r # zs)" "i \<in> set (ids p)" using s(5) [OF p] ids ct by auto
  have "find_record bs c p h k = Some (Inr (Some (view_of i as r)))"
    using find_value_found(1) [OF s(1) _ _ no ct as m] s(3,5) [OF p] ids by (simp add: find_record_def)
  then have sv: "sv_bucket sv = i" "sv_offset sv = length (encs as) + value_offset r" using found by (simp_all add: view_of_def)
  define xs where "xs = concat (map ct us) @ as"
  define ws where "ws = zs @ concat (map ct vs)"
  have rp: "recs p = xs @ r # ws" using recs p ids ct by (simp add: xs_def ws_def)
  have nx: "\<forall>r \<in> set xs. \<not> matches h k r" using no as by (auto simp: xs_def)
  have yr: "length ys = length (rv_value r)" using v lookup_first [OF nx m, of ws] rp ys by simp
  define b where "b = (c_buckets c i)\<lparr>b_data := overwrite (length (encs as) + value_offset r) ys (b_data (c_buckets c i))\<rparr>"
  have room: "length (encs as) + value_offset r + length ys \<le> bs"
    using i(2) value_offset_enc [of r] yr by (simp add: bucket_holds_def)
  then have put: "put_data bs c (sv_bucket sv) (sv_offset sv) ys = Inr (put_bucket c i b)"
    using put_data_eq [OF s(1) rw i(1)] sv by (simp add: b_def)
  have len: "length (b_data b) = bs" using room length_data [OF s(1), of i] by (simp add: b_def)
  have nb: "b_next b = nexts c i" by (simp add: b_def nexts_def)
  have inv: "cont_inv bs (put_bucket c i b) fs" using len nb by (intro cont_inv_upd [OF s(1)]) auto
  let ?ct = "ct(i := as @ r\<lparr>rv_value := ys\<rparr> # zs)"
  have holds: "holds_chain bs (put_bucket c i b) (ids p) ?ct"
    using bucket_holds_write [OF i(2) length_data [OF s(1)] yr] by (intro holds_chain_put [OF s(5) [OF p]]) (simp add: b_def)
  have ch: "chain (nexts (put_bucket c i b)) p (ids p)" using s(3) [OF p] nb by (simp add: chain_put_same)
  have "\<forall>j. j \<notin> set (ids p) \<union> set (ids p) \<longrightarrow> c_buckets (put_bucket c i b) j = c_buckets c j" using i(3) by auto
  with store_update(1) [OF S' p recs inv _ ch s(4) [OF p] holds s(6) [OF p]]
  have up: "store bs (put_bucket c i b) H (recs(p := concat (map ?ct (ids p))))" by simp
  have "i \<notin> set us" "i \<notin> set vs" using chain_distinct [OF s(3) [OF p]] ids by auto
  then have "concat (map ?ct (ids p)) = xs @ r\<lparr>rv_value := ys\<rparr> # ws"
    unfolding ids using concat_map_upd_notin [of i us ct] concat_map_upd_notin [of i vs ct] by (simp add: xs_def ws_def)
  moreover have "\<forall>q \<in> H. b_prefix_bits (c_buckets (put_bucket c i b) q) = b_prefix_bits (c_buckets c q)" by (simp add: b_def)
  ultimately show ?thesis using put rp nx m up rw
    by (intro exI [of _ "put_bucket c i b"] exI [of _ xs] exI [of _ r] exI [of _ ws]) simp
qed

text \<open>Reading back through the same view.\<close>

lemma sv_read_length: "sv_read bs c sv = Inr v \<Longrightarrow> length v = sv_size sv"
  unfolding sv_read_def segment_def by (auto split: if_split_asm)

lemma sv_read_written:
  assumes rd: "sv_read bs c sv = Inr v" and put: "put_data bs c (sv_bucket sv) (sv_offset sv) ys = Inr c'" and ys: "length ys = length v"
  shows "sv_read bs c' sv = Inr ys"
proof -
  let ?i = "sv_bucket sv" and ?off = "sv_offset sv"
  let ?n = "fm_extent (c_file_map c) - (bucket_off bs ?i + bucket_header_size)" and ?d = "b_data (c_buckets c ?i)"
  have sz: "sv_size sv = length ys" using sv_read_length [OF rd] ys by simp
  have ok: "fm_start (c_file_map c) \<noteq> 0" "?off + length ys \<le> ?n" "?off + length ys \<le> length ?d"
    using rd sz by (auto simp: sv_read_def bucket_view_def split: if_split_asm)
  have c': "c' = c\<lparr>c_buckets := (c_buckets c)(?i := (c_buckets c ?i)\<lparr>b_data := overwrite ?off ys ?d\<rparr>)\<rparr>"
    using put by (auto simp: put_data_def split: if_split_asm)
  have "segment ?off (length ys) (take ?n (overwrite ?off ys ?d)) = segment ?off (length ys) (overwrite ?off ys ?d)"
    using ok(2) by (simp add: segment_def drop_take min_def)
  also have "\<dots> = ys" using ok(3) by (rule segment_overwrite)
  finally show ?thesis using ok by (simp add: sv_read_def bucket_view_def c' sz)
qed

lemma hm_write_spec:
  assumes R: "hm_repr bs hm m" and rw: "hm_rw hm" and found: "hm_find bs hm h k = Some (Inr (Some sv))"
    and v: "m (h, k) = Some v" and ys: "length ys = length v"
  shows "\<exists>c'. put_data bs (hm_container hm) (sv_bucket sv) (sv_offset sv) ys = Inr c'
    \<and> hm_repr bs (hm\<lparr>hm_container := c'\<rparr>) (m((h, k) \<mapsto> ys)) \<and> hm_rw (hm\<lparr>hm_container := c'\<rparr>)"
proof -
  from R obtain recs where I: "hm_inv bs hm recs" and m: "m = hm_abs hm recs" unfolding hm_repr_def by blast
  note i = hm_invD [OF I]
  let ?p = "hm_head hm h"
  have f: "find_record bs (hm_container hm) ?p h k = Some (Inr (Some sv))" using found i(9) [of h] by (simp add: hm_find_def)
  have l: "lookup (recs ?p) h k = Some v" using v m by (simp add: hm_abs_def)
  have crw: "cont_rw (hm_container hm)" using rw by (simp add: hm_rw_def)
  from store_write [OF i(3) i(10) crw f l ys] obtain c' xs r zs where
    c': "put_data bs (hm_container hm) (sv_bucket sv) (sv_offset sv) ys = Inr c'" and rp: "recs ?p = xs @ r # zs"
    and nx: "\<forall>r \<in> set xs. \<not> matches h k r" and mt: "matches h k r"
    and S: "store bs c' (hm_heads hm) (recs(?p := xs @ r\<lparr>rv_value := ys\<rparr> # zs))" and c'rw: "cont_rw c'"
    and cnt: "c_count c' = c_count (hm_container hm)"
    and pb: "\<forall>q \<in> hm_heads hm. b_prefix_bits (c_buckets c' q) = b_prefix_bits (c_buckets (hm_container hm) q)" by blast
  define r' where "r' = r\<lparr>rv_value := ys\<rparr>"
  have r': "rv_hash r' = rv_hash r" "rv_key r' = rv_key r" "rv_value r' = ys" "rv_hash r = h" "rv_key r = k"
    using mt by (simp_all add: r'_def matches_def)
  have route: "\<forall>q \<in> set (xs @ r' # zs). hm_head hm (rv_hash q) = ?p"
    using i(4) [OF i(10) [of h]] rp r'(1) by auto
  have dist: "distinct (map (fst \<circ> kv) (xs @ r' # zs))"
    using i(5) [OF i(10) [of h]] rp r'(1,2) by (simp add: kv_def)
  have I': "hm_inv bs (hm\<lparr>hm_container := c'\<rparr>) (recs(?p := xs @ r' # zs))"
    using S cnt by (intro hm_inv_update [OF I _ _ pb i(10) route dist]) (simp_all add: r'_def)
  have "lookup (xs @ r' # zs) h' k' = (m((h, k) \<mapsto> ys)) (h', k')" if "hm_head hm h' = ?p" for h' k'
  proof -
    have d: "distinct (map (fst \<circ> kv) (xs @ r # zs))" using i(5) [OF i(10) [of h]] rp by simp
    have "lookup (xs @ zs) (rv_hash r') (rv_key r') = None" using lookup_delete [OF d, of h k] r' by simp
    from lookup_insert [OF this, of h' k'] lookup_delete [OF d, of h' k'] show ?thesis
      using that rp m r' by (auto simp: hm_abs_def)
  qed
  moreover have "hm_abs hm recs (h', k') = (m((h, k) \<mapsto> ys)) (h', k')" if "hm_head hm h' \<noteq> ?p" for h' k'
    using that m by auto
  moreover have "hm_head (hm\<lparr>hm_container := c'\<rparr>) = hm_head hm" by (simp add: hm_head_def fun_eq_iff)
  ultimately have "hm_abs (hm\<lparr>hm_container := c'\<rparr>) (recs(?p := xs @ r' # zs)) = m((h, k) \<mapsto> ys)"
    by (intro hm_abs_update) auto
  then have "hm_repr bs (hm\<lparr>hm_container := c'\<rparr>) (m((h, k) \<mapsto> ys))" using I' unfolding hm_repr_def by metis
  moreover have "hm_rw (hm\<lparr>hm_container := c'\<rparr>)" using c'rw rw by (simp add: hm_rw_def)
  ultimately show ?thesis using c' by blast
qed

end
