(* ===== verification/Wrapped_Hash_Map.thy ===== *)
theory Wrapped_Hash_Map
  imports Hash_Map_Views
begin

text \<open>
  The typed wrapper of \<^verbatim>\<open>src/src/wrapped_hash_map.h\<close>: keys and values of C++ types over the byte strings of
  the hash map. The template parameters are arguments: the hash function, the bytes of a key (\<open>wrap\<close> of a
  string or of an object), the object representation of the trivial value type with its size, and the
  value-initialised \<^verbatim>\<open>value_type()\<close>. \<open>operator[]\<close> returns a reference into the mapped file, which is the
  view the hash map returned; reading and assigning through it are \<open>wm_load\<close> and \<open>wm_store\<close>.
\<close>

section \<open>Model\<close>

record ('k, 'v) value_types =
  vt_hash :: "'k \<Rightarrow> hash_t"
  vt_wrap :: "'k \<Rightarrow> bytes"
  vt_object :: "'v \<Rightarrow> bytes"
  vt_value :: "bytes \<Rightarrow> 'v"
  vt_size :: nat
  vt_init :: 'v

text \<open>\<open>wrap\<close> of a string is its bytes; \<open>wrap\<close> of any other object is its object representation.\<close>

definition wrap_string :: "bytes \<Rightarrow> bytes" where
  "wrap_string s = s"

definition wrap_object :: "('a \<Rightarrow> bytes) \<Rightarrow> 'a \<Rightarrow> bytes" where
  "wrap_object object_bytes t = object_bytes t"

definition wm_open :: "os_env \<Rightarrow> nat \<Rightarrow> string \<Rightarrow> bool \<Rightarrow> cat_layout \<Rightarrow> cont_layout \<Rightarrow> hash_map result" where
  "wm_open os bs filename read_only cats dats = hm_open os bs filename read_only cats dats"

definition wm_index :: "('k, 'v) value_types \<Rightarrow> os_env \<Rightarrow> nat \<Rightarrow> hash_map \<Rightarrow> 'k \<Rightarrow> (hash_map \<times> string_view) result option" where
  "wm_index vt os bs hm key =
     bind_o (hm_get os bs hm (vt_hash vt key) (vt_wrap vt key) (wrap_object (vt_object vt) (vt_init vt))) (\<lambda>(hm, res).
     case res of None \<Rightarrow> Some (Inl Undefined) | Some sv \<Rightarrow> Some (Inr (hm, sv)))"

definition wm_load :: "('k, 'v) value_types \<Rightarrow> nat \<Rightarrow> hash_map \<Rightarrow> string_view \<Rightarrow> 'v result" where
  "wm_load vt bs hm ref = bind_r (sv_read bs (hm_container hm) (ref\<lparr>sv_size := vt_size vt\<rparr>)) (\<lambda>v. Inr (vt_value vt v))"

definition wm_store :: "('k, 'v) value_types \<Rightarrow> nat \<Rightarrow> hash_map \<Rightarrow> string_view \<Rightarrow> 'v \<Rightarrow> hash_map result" where
  "wm_store vt bs hm ref v =
     bind_r (put_data bs (hm_container hm) (sv_bucket ref) (sv_offset ref) (vt_object vt v)) (\<lambda>c. Inr (hm\<lparr>hm_container := c\<rparr>))"

definition wm_remove :: "('k, 'v) value_types \<Rightarrow> nat \<Rightarrow> hash_map \<Rightarrow> 'k \<Rightarrow> (hash_map \<times> bool) result option" where
  "wm_remove vt bs hm key = hm_remove bs hm (vt_hash vt key) (vt_wrap vt key)"

definition wm_bytes_allocated :: "hash_map \<Rightarrow> nat" where
  "wm_bytes_allocated hm = hm_bytes_allocated hm"

definition wm_close :: "os_env \<Rightarrow> hash_map \<Rightarrow> hash_map \<times> unit result" where
  "wm_close os hm = hm_close os hm"

definition wm_begin :: "nat \<Rightarrow> hash_map \<Rightarrow> const_iterator result option" where
  "wm_begin bs hm = hm_begin bs hm"

definition wm_end :: const_iterator where
  "wm_end = hm_end"

section \<open>Object representations\<close>

text \<open>What the language says of a trivial type: its objects have the same number of bytes, and the bytes
  determine the object.\<close>

locale object_repr =
  fixes obj :: "'v \<Rightarrow> bytes" and val :: "bytes \<Rightarrow> 'v" and len :: nat
  assumes object_size: "length (obj v) = len"
    and value_object: "val (obj v) = v"
begin

text \<open>A view that shows an object shows it at the size of the type, and reading it gives the object.\<close>

lemma load_view:
  assumes "sv_read bs c sv = Inr (obj v)"
  shows "bind_r (sv_read bs c (sv\<lparr>sv_size := len\<rparr>)) (\<lambda>b. Inr (val b)) = Inr v"
proof -
  have "length (obj v) = sv_size sv" using assms by (rule sv_read_length)
  then have "sv\<lparr>sv_size := len\<rparr> = sv" by (simp add: object_size)
  then show ?thesis using assms by (simp add: value_object)
qed

end

interpretation word32: object_repr hash_bytes bytes_hash 4
  by unfold_locales (simp_all add: bytes_hash_hash_bytes)

text \<open>The values of a typed map, behind the bytes of the hash map.\<close>

definition types_ok :: "('k, 'v) value_types \<Rightarrow> bool" where
  "types_ok vt \<longleftrightarrow> inj (vt_wrap vt) \<and> object_repr (vt_object vt) (vt_value vt) (vt_size vt)"

definition wm_holds :: "('k, 'v) value_types \<Rightarrow> nat \<Rightarrow> hash_map \<Rightarrow> ('k \<Rightarrow> 'v option) \<Rightarrow> bool" where
  "wm_holds vt bs hm m \<longleftrightarrow> hm_rw hm \<and> (\<exists>M. hm_repr bs hm M \<and> (\<forall>k. M (vt_hash vt k, vt_wrap vt k) = map_option (vt_object vt) (m k)))"

definition wm_room :: "('k, 'v) value_types \<Rightarrow> os_env \<Rightarrow> nat \<Rightarrow> hash_map \<Rightarrow> 'k \<Rightarrow> bool" where
  "wm_room vt os bs hm k \<longleftrightarrow> hm_room os bs hm (vt_wrap vt k) (vt_object vt (vt_init vt))"

lemma wm_holds_upd:
  assumes vt: "types_ok vt" and M: "hm_repr bs hm' (M((vt_hash vt k, vt_wrap vt k) := map_option (vt_object vt) ov))" "hm_rw hm'"
    and old: "\<forall>k. M (vt_hash vt k, vt_wrap vt k) = map_option (vt_object vt) (m k)"
  shows "wm_holds vt bs hm' (m(k := ov))"
proof -
  have "(M((vt_hash vt k, vt_wrap vt k) := map_option (vt_object vt) ov)) (vt_hash vt k', vt_wrap vt k')
    = map_option (vt_object vt) ((m(k := ov)) k')" for k'
    using old vt by (auto simp: types_ok_def inj_eq)
  then show ?thesis using M unfolding wm_holds_def by blast
qed

text \<open>The reference \<open>operator[]\<close> returns: it shows the value, and the hash map finds it there.\<close>

lemma wm_index_spec:
  assumes vt: "types_ok vt" and H: "wm_holds vt bs hm m" and room: "wm_room vt os bs hm k"
  obtains hm' ref M v where "wm_index vt os bs hm k = Some (Inr (hm', ref))"
    and "v = (case m k of None \<Rightarrow> vt_init vt | Some v \<Rightarrow> v)"
    and "hm_repr bs hm' M" and "hm_rw hm'" and "\<forall>k'. M (vt_hash vt k', vt_wrap vt k') = map_option (vt_object vt) ((m(k \<mapsto> v)) k')"
    and "hm_find bs hm' (vt_hash vt k) (vt_wrap vt k) = Some (Inr (Some ref))"
proof -
  let ?h = "vt_hash vt k" and ?k = "vt_wrap vt k" and ?d = "vt_object vt (vt_init vt)"
  from H obtain M where M: "hm_repr bs hm M" "hm_rw hm" "\<forall>k. M (vt_hash vt k, vt_wrap vt k) = map_option (vt_object vt) (m k)"
    unfolding wm_holds_def by blast
  have r: "os_serves os" "hm_capacity os bs hm" "bytes_required ?k ?d \<le> bs" using room by (simp_all add: wm_room_def hm_room_def)
  show thesis
  proof (cases "m k")
    case None
    then have no: "M (?h, ?k) = None" using M(3) by simp
    from hm_get_new [OF M(1,2) r no] obtain hm' sv where g: "hm_get os bs hm ?h ?k ?d = Some (Inr (hm', Some sv))"
      "hm_repr bs hm' (M((?h, ?k) \<mapsto> ?d))" "hm_rw hm'" by blast
    have "\<forall>k'. (M((?h, ?k) \<mapsto> ?d)) (vt_hash vt k', vt_wrap vt k') = map_option (vt_object vt) ((m(k \<mapsto> vt_init vt)) k')"
      using M(3) vt by (auto simp: types_ok_def inj_eq)
    with g hm_get_view [OF M(1,2) r no g(1)] None show thesis
      by (intro that [of hm' sv "vt_init vt" "M((?h, ?k) \<mapsto> ?d)"]) (simp_all add: wm_index_def wrap_object_def)
  next
    case (Some v)
    then have yes: "M (?h, ?k) = Some (vt_object vt v)" using M(3) by simp
    from hm_find_spec [OF M(1), of ?h ?k] yes obtain sv where f: "hm_find bs hm ?h ?k = Some (Inr (Some sv))"
      by (auto simp: shown_def)
    from hm_get_found [OF M(1) yes, of os ?d] obtain sv' where g: "hm_get os bs hm ?h ?k ?d = Some (Inr (hm, Some sv'))" by blast
    have "sv' = sv" using f g by (auto simp: hm_get_def hm_find_def bind_o_eq_Inr)
    moreover have "m(k \<mapsto> v) = m" using Some by auto
    ultimately show thesis using f g M Some
      by (intro that [of hm sv v M]) (simp_all add: wm_index_def wrap_object_def)
  qed
qed

lemma wm_load_view:
  assumes "types_ok vt" and "sv_read bs (hm_container hm) ref = Inr (vt_object vt v)"
  shows "wm_load vt bs hm ref = Inr v"
  using assms unfolding wm_load_def types_ok_def by (auto intro: object_repr.load_view)

lemma wm_load_found:
  assumes vt: "types_ok vt" and R: "hm_repr bs hm M" and f: "hm_find bs hm h k = Some (Inr (Some ref))"
    and v: "M (h, k) = Some (vt_object vt v)"
  shows "wm_load vt bs hm ref = Inr v"
proof -
  have "sv_read bs (hm_container hm) ref = Inr (vt_object vt v)"
    using hm_find_spec [OF R, of h k] f v by (auto simp: shown_def)
  then show ?thesis by (rule wm_load_view [OF vt])
qed

section \<open>Properties\<close>

text \<open>C21. \<open>operator[]\<close> gives a reference to the value of the key, stored as \<open>value_type()\<close> when the key was new,
  and an assignment through it changes the value of this key and nothing else.\<close>

theorem wrapped_assigns:
  assumes vt: "types_ok vt" and "wm_holds vt bs hm m" and "wm_room vt os bs hm k"
  shows "\<exists>hm' ref hm''. wm_index vt os bs hm k = Some (Inr (hm', ref))
    \<and> wm_load vt bs hm' ref = Inr (case m k of None \<Rightarrow> vt_init vt | Some v \<Rightarrow> v)
    \<and> wm_holds vt bs hm' (m(k \<mapsto> (case m k of None \<Rightarrow> vt_init vt | Some v \<Rightarrow> v)))
    \<and> wm_store vt bs hm' ref w = Inr hm'' \<and> wm_holds vt bs hm'' (m(k \<mapsto> w)) \<and> wm_load vt bs hm'' ref = Inr w"
proof -
  let ?h = "vt_hash vt k" and ?k = "vt_wrap vt k"
  obtain hm' ref M v where i: "wm_index vt os bs hm k = Some (Inr (hm', ref))" and v: "v = (case m k of None \<Rightarrow> vt_init vt | Some v \<Rightarrow> v)"
    and M: "hm_repr bs hm' M" "hm_rw hm'" "\<forall>k'. M (vt_hash vt k', vt_wrap vt k') = map_option (vt_object vt) ((m(k \<mapsto> v)) k')"
    and f: "hm_find bs hm' ?h ?k = Some (Inr (Some ref))" by (rule wm_index_spec [OF assms])
  have Mk: "M (?h, ?k) = Some (vt_object vt v)" using M(3) by simp
  have l: "length (vt_object vt w) = length (vt_object vt v)" 
    using vt object_repr.object_size unfolding types_ok_def by metis
  from hm_write_spec [OF M(1,2) f Mk l] obtain c where
    c: "put_data bs (hm_container hm') (sv_bucket ref) (sv_offset ref) (vt_object vt w) = Inr c"
      "hm_repr bs (hm'\<lparr>hm_container := c\<rparr>) (M((?h, ?k) \<mapsto> vt_object vt w))" "hm_rw (hm'\<lparr>hm_container := c\<rparr>)" by blast
  let ?hm = "hm'\<lparr>hm_container := c\<rparr>"
  have "sv_read bs (hm_container hm') ref = Inr (vt_object vt v)" using hm_find_spec [OF M(1), of ?h ?k] f Mk by (auto simp: shown_def)
  from sv_read_written [OF this c(1) l] have "sv_read bs (hm_container ?hm) ref = Inr (vt_object vt w)" by simp
  then have lw: "wm_load vt bs ?hm ref = Inr w" by (rule wm_load_view [OF vt])
  have "wm_holds vt bs ?hm ((m(k \<mapsto> v))(k := Some w))" using c(2) by (intro wm_holds_upd [OF vt _ c(3) M(3)]) simp
  moreover have "wm_holds vt bs hm' (m(k \<mapsto> v))" using M unfolding wm_holds_def by blast
  moreover have "wm_load vt bs hm' ref = Inr v" by (rule wm_load_found [OF vt M(1) f Mk])
  ultimately show ?thesis using i c(1) lw unfolding v by (auto simp: wm_store_def)
qed

text \<open>A map from 32-bit keys to 32-bit values, hashed by identity.\<close>

definition demo_types :: "(32 word, 32 word) value_types" where
  "demo_types = \<lparr>vt_hash = (\<lambda>k. k), vt_wrap = wrap_object hash_bytes, vt_object = hash_bytes, vt_value = bytes_hash, vt_size = 4, vt_init = 0\<rparr>"

lemma demo_types_ok: "types_ok demo_types"
proof -
  have "inj hash_bytes" by (metis bytes_hash_hash_bytes injI)
  then show ?thesis using word32.object_repr_axioms by (simp add: types_ok_def demo_types_def wrap_object_def [abs_def])
qed

theorem wrapped_assigns_witness:
  "\<exists>hm' ref hm''. wm_index demo_types demo_os 64 demo_hm 9 = Some (Inr (hm', ref)) \<and> wm_load demo_types 64 hm' ref = Inr 0
    \<and> wm_store demo_types 64 hm' ref 77 = Inr hm'' \<and> wm_load demo_types 64 hm'' ref = Inr 77"
proof -
  have "hash_bytes k \<noteq> [1]" for k by (simp add: hash_bytes_def)
  then have "wm_holds demo_types 64 demo_hm (\<lambda>_. None)"
    using demo_hm_repr(1,2) by (auto simp: wm_holds_def demo_types_def wrap_object_def demo_map_def intro!: exI [of _ demo_map])
  moreover have "bytes_required (hash_bytes 9) (hash_bytes 0) \<le> 64" by code_simp
  then have "wm_room demo_types demo_os 64 demo_hm 9"
    using demo_room by (simp add: wm_room_def hm_room_def demo_types_def wrap_object_def)
  ultimately show ?thesis using wrapped_assigns [OF demo_types_ok, of 64 demo_hm "\<lambda>_. None" demo_os 9 77] by (auto simp: demo_types_def)
qed

end
