(* ===== verification/Sharded_Concurrency.thy ===== *)
theory Sharded_Concurrency
  imports Sharded_Hash_Map
begin

text \<open>
  The sharded map under concurrent calls. Each member function of \<^verbatim>\<open>src/src/server/sharded_hash_map.h\<close> takes
  the \<^verbatim>\<open>std::shared_mutex\<close> of its shard, shared or exclusive, works on the hash map of the shard, and
  releases the mutex on return; \<open>keys\<close> does so for one shard after the other, so that a round of its loop
  is a call of its own here. The work is not taken to be atomic: a thread works on the hash map as it was
  when it took the mutex, and its result takes effect when it releases it. That this amounts to running
  the calls one after the other is what the lemmas show.
\<close>

section \<open>Calls\<close>

datatype lock_mode = Shared | Exclusive

datatype call = C_get bytes | C_set bytes bytes | C_remove bytes | C_list nat

fun call_mode :: "call \<Rightarrow> lock_mode" where
  "call_mode (C_get k) = Shared"
| "call_mode (C_set k v) = Exclusive"
| "call_mode (C_remove k) = Exclusive"
| "call_mode (C_list i) = Shared"

fun call_shard :: "nat \<Rightarrow> call \<Rightarrow> nat" where
  "call_shard n (C_get k) = unat (fnv1a k) mod n"
| "call_shard n (C_set k v) = unat (fnv1a k) mod n"
| "call_shard n (C_remove k) = unat (fnv1a k) mod n"
| "call_shard n (C_list i) = i"

text \<open>What a call does between taking and releasing the mutex.\<close>

fun call_body :: "os_env \<Rightarrow> call \<Rightarrow> hash_map \<Rightarrow> (hash_map \<times> sh_answer) result option" where
  "call_body os (C_get key) hm =
     bind_o (hm_find BS hm (hash_key key) key) (\<lambda>result.
     case result of
       Some sv \<Rightarrow> bind_o (Some (sv_read BS (hm_container hm) sv)) (\<lambda>v. Some (Inr (hm, SValue (Some v))))
     | None \<Rightarrow> Some (Inr (hm, SValue None)))"
| "call_body os (C_set key v) hm =
     bind_o (hm_find BS hm (hash_key key) key) (\<lambda>found.
     if found \<noteq> None then Some (Inr (hm, SDone False))
     else bind_o (hm_get os BS hm (hash_key key) key v) (\<lambda>(hm, _). Some (Inr (hm, SDone True))))"
| "call_body os (C_remove key) hm =
     bind_o (hm_remove BS hm (hash_key key) key) (\<lambda>(hm, removed). Some (Inr (hm, SDone removed)))"
| "call_body os (C_list i) hm = bind_o (hm_listing BS hm) (\<lambda>xs. Some (Inr (hm, SList (map fst xs))))"

text \<open>The operations of the sharded map are these bodies on the shard of the key.\<close>

lemma sh_get_is_call:
  "sh_get s key = bind_o (Some (shard_of s key)) (\<lambda>(idx, hm). bind_o (call_body os (C_get key) hm) (\<lambda>(hm, a).
     case a of SValue v \<Rightarrow> Some (Inr v) | _ \<Rightarrow> None))"
  unfolding sh_get_def call_body.simps bind_o_assoc
  by (intro bind_o_cong refl) (auto simp: bind_o_assoc split: option.splits intro!: bind_o_cong)

lemma sh_set_is_call:
  "sh_set os s key v = bind_o (Some (shard_of s key)) (\<lambda>(idx, hm). bind_o (call_body os (C_set key v) hm) (\<lambda>(hm, a).
     case a of SDone b \<Rightarrow> Some (Inr (sh_put_shard s idx hm, b)) | _ \<Rightarrow> None))"
proof -
  have "sh_put_shard s idx hm = s" if "shard_of s key = Inr (idx, hm)" for idx hm
    using that by (auto simp: shard_of_def sh_put_shard_def bind_r_eq_Inr split: if_splits)
  then show ?thesis
    by (cases "shard_of s key") (auto simp: sh_set_def bind_o_assoc intro!: bind_o_cong)
qed

lemma sh_remove_is_call:
  "sh_remove s key = bind_o (Some (shard_of s key)) (\<lambda>(idx, hm). bind_o (call_body os (C_remove key) hm) (\<lambda>(hm, a).
     case a of SDone b \<Rightarrow> Some (Inr (sh_put_shard s idx hm, b)) | _ \<Rightarrow> None))"
  unfolding sh_remove_def call_body.simps bind_o_assoc
  by (intro bind_o_cong refl) (auto simp: bind_o_assoc intro!: bind_o_cong)

section \<open>Threads and mutexes\<close>

record shared_mutex =
  mx_readers :: "nat set"
  mx_writer :: "nat option"

datatype thread_state = Idle | Pending call | Inside call hash_map

record cstate =
  cs_map :: sharded_hash_map
  cs_mutex :: "nat \<Rightarrow> shared_mutex"
  cs_threads :: "nat \<Rightarrow> thread_state"

abbreviation cs_shard :: "cstate \<Rightarrow> call \<Rightarrow> nat" where
  "cs_shard s c \<equiv> call_shard (sh_num_shards (cs_map s)) c"

definition mx_free :: "lock_mode \<Rightarrow> shared_mutex \<Rightarrow> bool" where
  "mx_free mode mx \<longleftrightarrow> mx_writer mx = None \<and> (mode = Exclusive \<longrightarrow> mx_readers mx = {})"

definition mx_lock :: "lock_mode \<Rightarrow> nat \<Rightarrow> shared_mutex \<Rightarrow> shared_mutex" where
  "mx_lock mode t mx = (case mode of Shared \<Rightarrow> mx\<lparr>mx_readers := insert t (mx_readers mx)\<rparr> | Exclusive \<Rightarrow> mx\<lparr>mx_writer := Some t\<rparr>)"

definition mx_unlock :: "lock_mode \<Rightarrow> nat \<Rightarrow> shared_mutex \<Rightarrow> shared_mutex" where
  "mx_unlock mode t mx = (case mode of Shared \<Rightarrow> mx\<lparr>mx_readers := mx_readers mx - {t}\<rparr> | Exclusive \<Rightarrow> mx\<lparr>mx_writer := None\<rparr>)"

text \<open>What the system and the caller owe a call that stores a record.\<close>

fun call_served :: "os_env \<Rightarrow> call \<Rightarrow> hash_map \<Rightarrow> bool" where
  "call_served os (C_set k v) hm = hm_room os BS hm k v"
| "call_served os _ hm = True"

text \<open>The steps of the system, labelled with the answer of the call that returns in them.\<close>

inductive cstep :: "os_env \<Rightarrow> cstate \<Rightarrow> (call \<times> sh_answer) list \<Rightarrow> cstate \<Rightarrow> bool" for os where
  invoke: "cs_threads s t = Idle \<Longrightarrow> cs_shard s c < sh_num_shards (cs_map s) \<Longrightarrow>
    cstep os s [] (s\<lparr>cs_threads := (cs_threads s)(t := Pending c)\<rparr>)"
| enter: "cs_threads s t = Pending c \<Longrightarrow> mx_free (call_mode c) (cs_mutex s (cs_shard s c)) \<Longrightarrow>
    cs_shard s c < sh_num_shards (cs_map s) \<Longrightarrow>
    cstep os s [] (s\<lparr>cs_mutex := (cs_mutex s)(cs_shard s c := mx_lock (call_mode c) t (cs_mutex s (cs_shard s c))),
                    cs_threads := (cs_threads s)(t := Inside c (sh_shards (cs_map s) ! cs_shard s c))\<rparr>)"
| leave: "cs_threads s t = Inside c hm \<Longrightarrow> call_served os c hm \<Longrightarrow> call_body os c hm = Some (Inr (hm', a)) \<Longrightarrow>
    cstep os s [(c, a)]
      (s\<lparr>cs_map := (if call_mode c = Exclusive then sh_put_shard (cs_map s) (cs_shard s c) hm' else cs_map s),
         cs_mutex := (cs_mutex s)(cs_shard s c := mx_unlock (call_mode c) t (cs_mutex s (cs_shard s c))),
         cs_threads := (cs_threads s)(t := Idle)\<rparr>)"

inductive_cases cstep_cases: "cstep os s l s'"

inductive crun :: "os_env \<Rightarrow> cstate \<Rightarrow> (call \<times> sh_answer) list \<Rightarrow> cstate \<Rightarrow> bool" for os where
  none: "crun os s [] s"
| more: "crun os s h s' \<Longrightarrow> cstep os s' l s'' \<Longrightarrow> crun os s (h @ l) s''"

text \<open>At the beginning no thread is in a call and no mutex is taken.\<close>

definition cs_init :: "sharded_hash_map \<Rightarrow> cstate" where
  "cs_init m = \<lparr>cs_map = m, cs_mutex = (\<lambda>_. \<lparr>mx_readers = {}, mx_writer = None\<rparr>), cs_threads = (\<lambda>_. Idle)\<rparr>"

section \<open>Mutual exclusion\<close>

definition inside :: "cstate \<Rightarrow> nat \<Rightarrow> lock_mode \<Rightarrow> nat \<Rightarrow> bool" where
  "inside s t mode i \<longleftrightarrow> (\<exists>c hm. cs_threads s t = Inside c hm \<and> call_mode c = mode \<and> cs_shard s c = i)"

definition mx_ok :: "cstate \<Rightarrow> nat \<Rightarrow> bool" where
  "mx_ok s i \<longleftrightarrow> mx_readers (cs_mutex s i) = {t. inside s t Shared i}
     \<and> (\<forall>t. mx_writer (cs_mutex s i) = Some t \<longleftrightarrow> inside s t Exclusive i)
     \<and> (\<forall>t t'. inside s t Exclusive i \<longrightarrow> \<not> inside s t' Shared i)"

definition cs_ok :: "cstate \<Rightarrow> bool" where
  "cs_ok s \<longleftrightarrow> (\<forall>i. mx_ok s i)
     \<and> (\<forall>t c hm. cs_threads s t = Inside c hm \<longrightarrow>
          cs_shard s c < sh_num_shards (cs_map s) \<and> hm = sh_shards (cs_map s) ! cs_shard s c)
     \<and> (\<forall>t c. cs_threads s t = Pending c \<longrightarrow> cs_shard s c < sh_num_shards (cs_map s))"

lemma cs_okD:
  assumes "cs_ok s"
  shows "mx_ok s i" "cs_threads s t = Inside c hm \<Longrightarrow> cs_shard s c < sh_num_shards (cs_map s)"
    "cs_threads s t = Inside c hm \<Longrightarrow> hm = sh_shards (cs_map s) ! cs_shard s c"
    "cs_threads s t = Pending c \<Longrightarrow> cs_shard s c < sh_num_shards (cs_map s)"
  using assms unfolding cs_ok_def by blast+

lemma mx_okD:
  assumes "mx_ok s i"
  shows "mx_readers (cs_mutex s i) = {t. inside s t Shared i}" "mx_writer (cs_mutex s i) = Some t \<longleftrightarrow> inside s t Exclusive i"
    "inside s t Exclusive i \<Longrightarrow> \<not> inside s t' Shared i"
  using assms unfolding mx_ok_def by blast+

lemma mx_ok_cong:
  assumes "mx_ok s i" and "cs_mutex s' i = cs_mutex s i" and "\<And>t mode. inside s' t mode i = inside s t mode i"
  shows "mx_ok s' i"
  using assms unfolding mx_ok_def by simp

text \<open>A thread that is in a shard exclusively is alone there.\<close>

lemma alone:
  assumes "cs_ok s" and "inside s t Exclusive i" and "inside s t' mode i"
  shows "t' = t"
proof (cases mode)
  case Shared
  then show ?thesis using mx_okD(3) [OF cs_okD(1) [OF assms(1)] assms(2)] assms(3) by simp
next
  case Exclusive
  then show ?thesis
    using mx_okD(2) [OF cs_okD(1) [OF assms(1)], of i t] mx_okD(2) [OF cs_okD(1) [OF assms(1)], of i t'] assms(2,3) by simp
qed

lemma cs_ok_init: "cs_ok (cs_init m)"
  by (simp add: cs_ok_def mx_ok_def cs_init_def inside_def)

lemma inside_threads:
  assumes "cs_threads s' = (cs_threads s)(t := x)" and "sh_num_shards (cs_map s') = sh_num_shards (cs_map s)"
  shows "inside s' t' mode i = (if t' = t then (\<exists>c hm. x = Inside c hm \<and> call_mode c = mode \<and> cs_shard s c = i) else inside s t' mode i)"
  using assms by (auto simp: inside_def)

lemma cs_ok_invoke:
  assumes ok: "cs_ok s" and t: "cs_threads s t = Idle" and c: "cs_shard s c < sh_num_shards (cs_map s)"
    and s': "cs_threads s' = (cs_threads s)(t := Pending c)" "cs_mutex s' = cs_mutex s" "cs_map s' = cs_map s"
  shows "cs_ok s'"
proof -
  have "inside s' t' mode i = inside s t' mode i" for t' mode i using t by (simp add: inside_def s')
  then have "mx_ok s' i" for i by (intro mx_ok_cong [OF cs_okD(1) [OF ok]]) (simp_all add: s')
  then show ?thesis using cs_okD(2-4) [OF ok] c unfolding cs_ok_def s' by (auto split: if_split_asm)
qed

lemma cs_ok_enter:
  assumes ok: "cs_ok s" and t: "cs_threads s t = Pending c" and free: "mx_free (call_mode c) (cs_mutex s (cs_shard s c))"
    and lt: "cs_shard s c < sh_num_shards (cs_map s)" and map: "cs_map s' = cs_map s"
    and mx: "cs_mutex s' = (cs_mutex s)(cs_shard s c := mx_lock (call_mode c) t (cs_mutex s (cs_shard s c)))"
    and th: "cs_threads s' = (cs_threads s)(t := Inside c (sh_shards (cs_map s) ! cs_shard s c))"
  shows "cs_ok s'"
proof -
  let ?i = "cs_shard s c"
  have ins: "inside s' t' mode i = (if t' = t then mode = call_mode c \<and> i = ?i else inside s t' mode i)" for t' mode i
    using inside_threads [OF th, of t' mode i] map by auto
  have out: "\<not> inside s t mode i" for mode i using t by (simp add: inside_def)
  have w: "mx_writer (cs_mutex s ?i) = None" "call_mode c = Exclusive \<Longrightarrow> mx_readers (cs_mutex s ?i) = {}"
    using free by (auto simp: mx_free_def)
  note old = mx_okD [OF cs_okD(1) [OF ok, of ?i]]
  have now: "\<not> inside s t' Exclusive ?i" for t' using old(2) [of t'] w(1) by simp
  have mxi: "cs_mutex s' ?i = mx_lock (call_mode c) t (cs_mutex s ?i)" by (simp add: mx)
  have "mx_ok s' i" for i
  proof (cases "i = ?i")
    case True
    have "mx_ok s' ?i"
      using old(1) w now out by (cases "call_mode c") (auto simp: mx_ok_def ins mxi mx_lock_def)
    then show ?thesis using True by simp
  next
    case False
    then show ?thesis using out by (intro mx_ok_cong [OF cs_okD(1) [OF ok]]) (auto simp: mx ins)
  qed
  then show ?thesis using cs_okD(2-4) [OF ok] lt unfolding cs_ok_def th map by (auto split: if_split_asm)
qed

lemma cs_ok_leave:
  assumes ok: "cs_ok s" and t: "cs_threads s t = Inside c hm"
    and map: "cs_map s' = (if call_mode c = Exclusive then sh_put_shard (cs_map s) (cs_shard s c) hm' else cs_map s)"
    and mx: "cs_mutex s' = (cs_mutex s)(cs_shard s c := mx_unlock (call_mode c) t (cs_mutex s (cs_shard s c)))"
    and th: "cs_threads s' = (cs_threads s)(t := Idle)"
  shows "cs_ok s'"
proof -
  let ?i = "cs_shard s c"
  have n: "sh_num_shards (cs_map s') = sh_num_shards (cs_map s)" by (simp add: map)
  have ins: "inside s' t' mode i = (t' \<noteq> t \<and> inside s t' mode i)" for t' mode i
    using inside_threads [OF th n, of t' mode i] by auto
  have me: "inside s t (call_mode c) ?i" and only: "\<And>mode i. inside s t mode i \<Longrightarrow> mode = call_mode c \<and> i = ?i"
    using t by (auto simp: inside_def)
  note old = mx_okD [OF cs_okD(1) [OF ok, of ?i]]
  have mxi: "cs_mutex s' ?i = mx_unlock (call_mode c) t (cs_mutex s ?i)" by (simp add: mx)
  have "mx_ok s' ?i"
  proof (cases "call_mode c")
    case Shared
    then have "\<not> inside s t Exclusive ?i" using only by fastforce
    then show ?thesis using old Shared by (auto simp: mx_ok_def ins mxi mx_unlock_def)
  next
    case Exclusive
    have "t' = t" if "inside s t' mode ?i" for t' mode using alone [OF ok _ that] me Exclusive by simp
    moreover have "\<not> inside s t Shared ?i" using only Exclusive by fastforce
    ultimately show ?thesis using Exclusive old(1) by (auto simp: mx_ok_def ins mxi mx_unlock_def)
  qed
  moreover have "mx_ok s' i" if "i \<noteq> ?i" for i
    using that only by (intro mx_ok_cong [OF cs_okD(1) [OF ok]]) (auto simp: mx ins)
  ultimately have "\<forall>i. mx_ok s' i" by metis
  moreover have "cs_shard s c' < sh_num_shards (cs_map s) \<and> h = sh_shards (cs_map s') ! cs_shard s c'"
    if th': "cs_threads s' t' = Inside c' h" for t' c' h
  proof -
    have t': "t' \<noteq> t" "cs_threads s t' = Inside c' h" using th' th by (auto split: if_split_asm)
    then have "inside s t' (call_mode c') (cs_shard s c')" by (auto simp: inside_def)
    then have "call_mode c = Exclusive \<Longrightarrow> cs_shard s c' \<noteq> ?i" using alone [OF ok, of t ?i t'] me t'(1) by auto
    then show ?thesis using cs_okD(2,3) [OF ok t'(2)] by (auto simp: map nth_list_update)
  qed
  moreover have "cs_shard s c' < sh_num_shards (cs_map s)" if "cs_threads s' t' = Pending c'" for t' c'
    using that cs_okD(4) [OF ok, of t' c'] th by (auto split: if_split_asm)
  ultimately show ?thesis unfolding cs_ok_def n by blast
qed

section \<open>One call\<close>

text \<open>What a call may answer and what it leaves, on one map from keys to values spread over \<open>n\<close> shards.\<close>

fun call_allows :: "nat \<Rightarrow> key_contents \<Rightarrow> call \<Rightarrow> sh_answer \<Rightarrow> bool" where
  "call_allows n m (C_get k) a \<longleftrightarrow> a = SValue (m k)"
| "call_allows n m (C_set k v) a \<longleftrightarrow> a = SDone (m k = None)"
| "call_allows n m (C_remove k) a \<longleftrightarrow> a = SDone (m k \<noteq> None)"
| "call_allows n m (C_list i) a \<longleftrightarrow>
     (\<exists>ks. a = SList ks \<and> distinct ks \<and> set ks = {k \<in> dom m. unat (fnv1a k) mod n = i})"

fun call_after :: "key_contents \<Rightarrow> call \<Rightarrow> key_contents" where
  "call_after m (C_set k v) = (if m k = None then m(k \<mapsto> v) else m)"
| "call_after m (C_remove k) = m(k := None)"
| "call_after m _ = m"

lemma call_body_spec:
  assumes S: "sh_holds s m" and i: "i = call_shard (sh_num_shards s) c" "i < sh_num_shards s"
    and served: "call_served os c (sh_shards s ! i)"
  shows "\<exists>hm' a. call_body os c (sh_shards s ! i) = Some (Inr (hm', a)) \<and> call_allows (sh_num_shards s) m c a
    \<and> sh_holds (if call_mode c = Exclusive then sh_put_shard s i hm' else s) (call_after m c)"
proof (cases c)
  case (C_get k)
  then have "i = sh_idx s k" using i(1) by (simp add: sh_idx_def)
  with sh_holdsD(1) [OF S, of k] C_get sh_get_spec [OF S, of k] S show ?thesis
    by (auto simp: sh_get_def bind_o_eq_Inr split: option.splits)
next
  case (C_set k v)
  then have ik: "i = sh_idx s k" using i(1) by (simp add: sh_idx_def)
  note D = sh_holdsD [OF S, of k]
  show ?thesis
  proof (cases "m k")
    case None
    then have none: "shard_part s m i k = None" using D(5) ik by simp
    have "hm_room os BS (sh_shards s ! i) k v" using served C_set by simp
    note room = this
    obtain hm' sv where g: "hm_find BS (sh_shards s ! i) (fnv1a k) k = Some (Inr None)"
      "hm_get os BS (sh_shards s ! i) (fnv1a k) k v = Some (Inr (hm', Some sv))"
      "hm_holds BS hm' ((shard_part s m i)(k \<mapsto> v))" "hm_rw hm'"
      by (rule hm_kv.key_put [OF D(3,4) [folded ik] room none])
    have "sh_holds (sh_put_shard s i hm') (m(k \<mapsto> v))" using sh_holds_upd [OF S, of hm' k "Some v"] g(3,4) ik by simp
    then show ?thesis using g(1,2) None C_set by (simp add: hash_key_def)
  next
    case (Some w)
    then have "shard_part s m i k = Some w" using D(5) ik by simp
    then obtain sv where f: "hm_find BS (sh_shards s ! i) (fnv1a k) k = Some (Inr (Some sv))"
      by (rule hm_kv.key_find_present [OF D(3) [folded ik]])
    have same: "sh_put_shard s i (sh_shards s ! i) = s" by (simp add: sh_put_shard_def)
    show ?thesis using f Some C_set S by (simp add: hash_key_def same)
  qed
next
  case (C_remove k)
  then have ik: "i = sh_idx s k" using i(1) by (simp add: sh_idx_def)
  note D = sh_holdsD [OF S, of k]
  obtain hm' where r: "hm_remove BS (sh_shards s ! i) (fnv1a k) k = Some (Inr (hm', shard_part s m i k \<noteq> None))"
    "hm_holds BS hm' ((shard_part s m i)(k := None))" "hm_rw hm'" by (rule hm_kv.key_remove [OF D(3,4) [folded ik]])
  have "sh_holds (sh_put_shard s i hm') (m(k := None))" using sh_holds_upd [OF S, of hm' k None] r(2,3) ik by simp
  then show ?thesis using r(1) D(5) ik C_remove by (simp add: hash_key_def)
next
  case (C_list j)
  then have j: "i = j" using i(1) by simp
  have "hm_holds BS (sh_shards s ! i) (shard_part s m i)" using S i(2) by (simp add: sh_holds_def)
  then obtain xs where xs: "hm_listing BS (sh_shards s ! i) = Some (Inr xs)" "distinct (map fst xs)"
    "\<forall>k v. (k, v) \<in> set xs \<longleftrightarrow> shard_part s m i k = Some v" by (rule hm_it.key_lists)
  have "fst ` set xs = dom (shard_part s m i)" using xs(3) by force
  also have "\<dots> = {k \<in> dom m. unat (fnv1a k) mod sh_num_shards s = i}" by (auto simp: shard_part_def sh_idx_def split: if_splits)
  finally show ?thesis using xs(1,2) S C_list j by simp
qed

section \<open>Runs\<close>

fun history_allows :: "nat \<Rightarrow> key_contents \<Rightarrow> (call \<times> sh_answer) list \<Rightarrow> bool" where
  "history_allows n m [] = True"
| "history_allows n m ((c, a) # h) = (call_allows n m c a \<and> history_allows n (call_after m c) h)"

definition history_after :: "key_contents \<Rightarrow> (call \<times> sh_answer) list \<Rightarrow> key_contents" where
  "history_after m h = fold (\<lambda>(c, a) m. call_after m c) h m"

lemma history_after_simps [simp]:
  "history_after m [] = m" "history_after m ((c, a) # h) = history_after (call_after m c) h"
  by (simp_all add: history_after_def)

lemma history_after_append: "history_after m (h @ l) = history_after (history_after m h) l"
  by (simp add: history_after_def)

lemma history_allows_append:
  "history_allows n m (h @ l) = (history_allows n m h \<and> history_allows n (history_after m h) l)"
  by (induction n m h rule: history_allows.induct) simp_all

lemma cstep_spec:
  assumes "cstep os s l s'" and ok: "cs_ok s" and S: "sh_holds (cs_map s) m"
  shows "cs_ok s' \<and> sh_holds (cs_map s') (history_after m l) \<and> history_allows (sh_num_shards (cs_map s)) m l
    \<and> sh_num_shards (cs_map s') = sh_num_shards (cs_map s)"
  using assms(1)
proof cases
  case (invoke t c)
  then have "cs_ok s'" by (intro cs_ok_invoke [OF ok]) simp_all
  then show ?thesis using S invoke by (simp add: history_after_def)
next
  case (enter t c)
  then have "cs_ok s'" by (intro cs_ok_enter [OF ok enter(3,4,5)]) simp_all
  then show ?thesis using S enter by (simp add: history_after_def)
next
  case (leave t c hm hm' a)
  have "cs_ok s'" using leave by (intro cs_ok_leave [OF ok leave(3), of s' hm']) simp_all
  moreover note lt = cs_okD(2,3) [OF ok leave(3)]
  have "call_served os c (sh_shards (cs_map s) ! cs_shard s c)" using leave(4) lt(2) by simp
  from call_body_spec [OF S refl lt(1) this] leave(5) lt(2)
  have "call_allows (sh_num_shards (cs_map s)) m c a"
    "sh_holds (if call_mode c = Exclusive then sh_put_shard (cs_map s) (cs_shard s c) hm' else cs_map s) (call_after m c)" by auto
  ultimately show ?thesis using leave(1,2) by (simp add: history_after_def)
qed

lemma crun_spec:
  assumes "crun os s h s'" and "cs_ok s" and "sh_holds (cs_map s) m"
  shows "cs_ok s' \<and> sh_holds (cs_map s') (history_after m h) \<and> history_allows (sh_num_shards (cs_map s)) m h
    \<and> sh_num_shards (cs_map s') = sh_num_shards (cs_map s)"
  using assms
proof (induction)
  case (none s)
  then show ?case by (simp add: history_after_def)
next
  case (more s h s' l s'')
  then have "cs_ok s'" "sh_holds (cs_map s') (history_after m h)" "history_allows (sh_num_shards (cs_map s)) m h"
    "sh_num_shards (cs_map s') = sh_num_shards (cs_map s)" by blast+
  with cstep_spec [OF more.hyps(2)] show ?case by (simp add: history_allows_append history_after_append)
qed

lemma history_allows_nth:
  assumes "history_allows n m h" and "j < length h" and "h ! j = (c, a)"
  shows "call_allows n (history_after m (take j h)) c a"
proof -
  have "h = take j h @ (c, a) # drop (Suc j) h" using assms(2,3) by (metis id_take_nth_drop)
  then have "history_allows n m (take j h @ (c, a) # drop (Suc j) h)" using assms(1) by simp
  then show ?thesis by (simp add: history_allows_append)
qed

section \<open>Properties\<close>

text \<open>A run in which thread 0 is inside a call and thread 1 waits to make another, and its continuation.\<close>

abbreviation two_calls :: "sharded_hash_map \<Rightarrow> call \<Rightarrow> call \<Rightarrow> cstate" where
  "two_calls db c d \<equiv> (cs_init db)
     \<lparr>cs_mutex := (cs_mutex (cs_init db))(call_shard (sh_num_shards db) c := mx_lock (call_mode c) 0 \<lparr>mx_readers = {}, mx_writer = None\<rparr>),
      cs_threads := (\<lambda>_. Idle)(0 := Inside c (sh_shards db ! call_shard (sh_num_shards db) c), 1 := Pending d)\<rparr>"

lemma crun_two_calls:
  assumes "call_shard (sh_num_shards db) c < sh_num_shards db" and "call_shard (sh_num_shards db) d < sh_num_shards db"
  shows "crun os (cs_init db) [] (two_calls db c d)"
proof -
  let ?s1 = "(cs_init db)\<lparr>cs_threads := (\<lambda>_. Idle)(0 := Pending c)\<rparr>"
  let ?s2 = "(cs_init db)\<lparr>cs_threads := (\<lambda>_. Idle)(0 := Pending c, 1 := Pending d)\<rparr>"
  have "cstep os (cs_init db) [] ?s1"
    using cstep.invoke [of "cs_init db" 0 c os] assms(1) by (simp add: cs_init_def)
  moreover have "cstep os ?s1 [] ?s2"
    using cstep.invoke [of ?s1 1 d os] assms(2) by (simp add: cs_init_def)
  moreover have "cstep os ?s2 [] (two_calls db c d)"
    using cstep.enter [of ?s2 0 c os] assms(1) by (simp add: cs_init_def mx_free_def fun_upd_twist)
  ultimately show ?thesis using crun.more [OF crun.more [OF crun.more [OF crun.none]]] by force
qed

lemma crun_first_returns:
  assumes "sh_holds db m" and "call_shard (sh_num_shards db) c < sh_num_shards db" and "call_shard (sh_num_shards db) d < sh_num_shards db"
    and "call_served os c (sh_shards db ! call_shard (sh_num_shards db) c)"
  shows "\<exists>a s. crun os (cs_init db) [(c, a)] s"
proof -
  obtain hm' a where "call_body os c (sh_shards db ! call_shard (sh_num_shards db) c) = Some (Inr (hm', a))"
    using call_body_spec [OF assms(1) refl assms(2,4)] by blast
  then have "\<exists>s. cstep os (two_calls db c d) [(c, a)] s"
    using cstep.leave [of "two_calls db c d" 0 c "sh_shards db ! call_shard (sh_num_shards db) c" os hm' a] assms(4) by auto
  then show ?thesis using crun.more [OF crun_two_calls [OF assms(2,3), of os]] by fastforce
qed

text \<open>C4. Concurrent calls are linearizable: in every run of any number of threads, the calls that have returned
  gave the answers they would have given one after the other in the order in which they returned, and
  the shards hold what that sequence leaves.\<close>

theorem sharded_linearizable:
  assumes "sh_holds db m" and "crun os (cs_init db) h s"
  shows "history_allows (sh_num_shards db) m h \<and> sh_holds (cs_map s) (history_after m h)"
proof -
  have "cs_map (cs_init db) = db" by (simp add: cs_init_def)
  then show ?thesis using crun_spec [OF assms(2) cs_ok_init] assms(1) by simp
qed

theorem sharded_linearizable_witness:
  "\<exists>db a s. sh_holds db (\<lambda>_. None) \<and> crun demo_os (cs_init db) [(C_set [3] [4], a)] s
    \<and> history_allows (sh_num_shards db) (\<lambda>_. None) [(C_set [3] [4], a)]
    \<and> sh_holds (cs_map s) (history_after (\<lambda>_. None) [(C_set [3] [4], a)])"
proof -
  obtain db where db: "sh_holds db (\<lambda>_. None)" "sh_room demo_os db [3] [4]" by (rule demo_shards)
  have "call_shard (sh_num_shards db) (C_set [3] [4]) < sh_num_shards db" "call_shard (sh_num_shards db) (C_get [3]) < sh_num_shards db"
    using db(1) by (simp_all add: sh_holds_def)
  then obtain a s where "crun demo_os (cs_init db) [(C_set [3] [4], a)] s"
    using crun_first_returns [OF db(1), of "C_set [3] [4]" "C_get [3]" demo_os] db(2) by (auto simp: sh_room_def sh_idx_def)
  with sharded_linearizable [OF db(1) this] db(1) show ?thesis by blast
qed

text \<open>A writer has its shard for itself: in every reachable state, when a thread is inside a call of
  \<open>set\<close> or \<open>remove\<close>, no other thread is inside a call on the same shard.\<close>

theorem sharded_exclusive:
  assumes "sh_holds db m" and "crun os (cs_init db) h s" and "inside s t Exclusive i" and "t' \<noteq> t"
  shows "\<not> inside s t' mode i"
proof -
  have "cs_map (cs_init db) = db" by (simp add: cs_init_def)
  then have "cs_ok s" using crun_spec [OF assms(2) cs_ok_init] assms(1) by simp
  then show ?thesis using alone assms(3,4) by blast
qed

theorem sharded_exclusive_witness:
  "\<exists>db s. sh_holds db (\<lambda>_. None) \<and> crun demo_os (cs_init db) [] s \<and> inside s 0 Exclusive (cs_shard s (C_set [3] [4]))
    \<and> \<not> inside s 1 Shared (cs_shard s (C_set [3] [4]))"
proof -
  obtain db where db: "sh_holds db (\<lambda>_. None)" by (rule demo_shards)
  let ?c = "C_set [3] [4]" and ?d = "C_get [3]"
  have run: "crun demo_os (cs_init db) [] (two_calls db ?c ?d)"
    using db by (intro crun_two_calls) (simp_all add: sh_holds_def)
  have writer: "inside (two_calls db ?c ?d) 0 Exclusive (cs_shard (two_calls db ?c ?d) ?c)" by (simp add: inside_def cs_init_def)
  have "\<not> inside (two_calls db ?c ?d) 1 Shared (cs_shard (two_calls db ?c ?d) ?c)"
    by (rule sharded_exclusive [OF db run writer]) simp
  with db run writer show ?thesis by blast
qed

text \<open>C22. No deadlock: in every reachable state in which some thread has called and the system serves the calls
  that are being carried out, some thread can take its mutex or return.\<close>

theorem sharded_no_deadlock:
  assumes "sh_holds db m" and "crun os (cs_init db) h s" and "cs_threads s t \<noteq> Idle"
    and served: "\<forall>t c hm. cs_threads s t = Inside c hm \<longrightarrow> call_served os c hm"
  shows "\<exists>t c hm. cs_threads s t = Inside c hm \<and> (\<exists>hm' a. call_body os c hm = Some (Inr (hm', a)))
    \<or> cs_threads s t = Pending c \<and> mx_free (call_mode c) (cs_mutex s (cs_shard s c))"
proof -
  have "cs_map (cs_init db) = db" by (simp add: cs_init_def)
  then have ok: "cs_ok s" and S: "sh_holds (cs_map s) (history_after m h)"
    using crun_spec [OF assms(2) cs_ok_init] assms(1) by simp_all
  have returns: "\<exists>hm' a. call_body os c hm = Some (Inr (hm', a))" if "cs_threads s t = Inside c hm" for t c hm
  proof -
    note d = cs_okD(2,3) [OF ok that]
    have "call_served os c (sh_shards (cs_map s) ! cs_shard s c)" using served that d(2) by blast
    from call_body_spec [OF S refl d(1) this] show ?thesis using d(2) by blast
  qed
  show ?thesis
  proof (cases "\<exists>t c hm. cs_threads s t = Inside c hm")
    case True
    then show ?thesis using returns by blast
  next
    case False
    then obtain c where c: "cs_threads s t = Pending c" using assms(3) by (cases "cs_threads s t") auto
    have "\<not> inside s t' mode i" for t' mode i using False by (auto simp: inside_def)
    then have "mx_writer (cs_mutex s i) = None" "mx_readers (cs_mutex s i) = {}" for i
      using mx_okD(1,2) [OF cs_okD(1) [OF ok, of i]] by (auto intro: option.exhaust)
    then show ?thesis using c by (auto simp: mx_free_def)
  qed
qed

theorem sharded_no_deadlock_witness:
  "\<exists>db s. sh_holds db (\<lambda>_. None) \<and> crun demo_os (cs_init db) [] s \<and> cs_threads s 1 = Pending (C_get [3])
    \<and> (\<exists>t c hm. cs_threads s t = Inside c hm \<and> (\<exists>hm' a. call_body demo_os c hm = Some (Inr (hm', a)))
      \<or> cs_threads s t = Pending c \<and> mx_free (call_mode c) (cs_mutex s (cs_shard s c)))"
proof -
  obtain db where db: "sh_holds db (\<lambda>_. None)" "sh_room demo_os db [3] [4]" by (rule demo_shards)
  let ?s = "two_calls db (C_set [3] [4]) (C_get [3])"
  have run: "crun demo_os (cs_init db) [] ?s" using db(1) by (intro crun_two_calls) (simp_all add: sh_holds_def)
  have waits: "cs_threads ?s 1 = Pending (C_get [3])" by simp
  have "\<forall>t c hm. cs_threads ?s t = Inside c hm \<longrightarrow> call_served demo_os c hm"
    using db(2) by (auto simp: sh_room_def sh_idx_def)
  with sharded_no_deadlock [OF db(1) run, of 1] have "\<exists>t c hm. cs_threads ?s t = Inside c hm \<and> (\<exists>hm' a. call_body demo_os c hm = Some (Inr (hm', a)))
      \<or> cs_threads ?s t = Pending c \<and> mx_free (call_mode c) (cs_mutex ?s (cs_shard ?s c))" using waits by simp
  with db(1) run waits show ?thesis by blast
qed

lemma crun_trans: "crun os s' h' s'' \<Longrightarrow> crun os s h s' \<Longrightarrow> crun os s (h @ h') s''"
proof (induction rule: crun.induct)
  case (more s' h' s1 l s2)
  then show ?case using crun.more [of os s "h @ h'" s1 l s2] by simp
qed simp

text \<open>A listing by a thread that is alone.\<close>

lemma crun_solo_list:
  assumes "sh_holds db m" and "i < sh_num_shards db"
  shows "\<exists>ks. crun os (cs_init db) [(C_list i, SList ks)] (cs_init db)"
proof -
  let ?c = "C_list i" and ?hm = "sh_shards db ! i" and ?s0 = "cs_init db"
  let ?s1 = "?s0\<lparr>cs_threads := (cs_threads ?s0)(0 := Pending ?c)\<rparr>"
  let ?s2 = "?s1\<lparr>cs_mutex := (cs_mutex ?s1)(i := mx_lock Shared 0 (cs_mutex ?s1 i)), cs_threads := (cs_threads ?s1)(0 := Inside ?c ?hm)\<rparr>"
  let ?s3 = "?s2\<lparr>cs_mutex := (cs_mutex ?s2)(i := mx_unlock Shared 0 (cs_mutex ?s2 i)), cs_threads := (cs_threads ?s2)(0 := Idle)\<rparr>"
  obtain hm' a where b: "call_body os ?c ?hm = Some (Inr (hm', a))" "call_allows (sh_num_shards db) m ?c a"
    using call_body_spec [OF assms(1), of i ?c os] assms(2) by auto
  have "cstep os ?s0 [] ?s1" using cstep.invoke [of ?s0 0 ?c os] assms(2) by (simp add: cs_init_def)
  moreover have "cstep os ?s1 [] ?s2" using cstep.enter [of ?s1 0 ?c os] assms(2) by (simp add: cs_init_def mx_free_def)
  moreover have "cstep os ?s2 [(?c, a)] ?s3" using cstep.leave [of ?s2 0 ?c ?hm os hm' a] b(1) by (simp add: cs_init_def)
  ultimately have "crun os ?s0 ([] @ [] @ [] @ [(?c, a)]) ?s3"
    using crun.more [OF crun.more [OF crun.more [OF crun.none]]] by fastforce
  moreover have "?s3 = ?s0" by (simp add: cs_init_def mx_lock_def mx_unlock_def fun_eq_iff)
  moreover obtain ks where "a = SList ks" using b(2) by auto
  ultimately show ?thesis by auto
qed

lemma crun_lists:
  assumes "sh_holds db m" and "l \<le> sh_num_shards db"
  shows "\<exists>kss. crun os (cs_init db) (map (\<lambda>i. (C_list i, SList (kss i))) [0..<l]) (cs_init db)"
  using assms(2)
proof (induction l)
  case 0
  then show ?case using crun.none by simp
next
  case (Suc l)
  then obtain kss where r: "crun os (cs_init db) (map (\<lambda>i. (C_list i, SList (kss i))) [0..<l]) (cs_init db)" by auto
  obtain ks where "crun os (cs_init db) [(C_list l, SList ks)] (cs_init db)" using crun_solo_list [OF assms(1), of l os] Suc.prems by auto
  from crun_trans [OF this r] have "crun os (cs_init db) (map (\<lambda>i. (C_list i, SList (kss i))) [0..<l] @ [(C_list l, SList ks)]) (cs_init db)" .
  also have "map (\<lambda>i. (C_list i, SList (kss i))) [0..<l] @ [(C_list l, SList ks)] = map (\<lambda>i. (C_list i, SList ((kss(l := ks)) i))) [0..<Suc l]"
    by simp
  finally have "crun os (cs_init db) (map (\<lambda>i. (C_list i, SList ((kss(l := ks)) i))) [0..<Suc l]) (cs_init db)" .
  then show ?case by blast
qed

text \<open>C8. What \<open>keys\<close> returns while other threads work: it lists the shards one after the other, each under its mutex, and a
  key is in the result, once, exactly if it was in the map at the moment its own shard was listed.\<close>

theorem sharded_keys_snapshots:
  assumes "sh_holds db m" and "crun os (cs_init db) h s"
    and "\<forall>i < sh_num_shards db. js i < length h \<and> h ! js i = (C_list i, SList (kss i))"
  shows "distinct (concat (map kss [0..<sh_num_shards db]))
    \<and> (\<forall>k. k \<in> set (concat (map kss [0..<sh_num_shards db])) \<longleftrightarrow>
          k \<in> dom (history_after m (take (js (unat (fnv1a k) mod sh_num_shards db)) h)))"
proof -
  let ?n = "sh_num_shards db"
  have n: "0 < ?n" using assms(1) by (simp add: sh_holds_def)
  have "cs_map (cs_init db) = db" by (simp add: cs_init_def)
  then have h: "history_allows ?n m h" using crun_spec [OF assms(2) cs_ok_init] assms(1) by simp
  have part: "distinct (kss i) \<and> set (kss i) = {k \<in> dom (history_after m (take (js i) h)). unat (fnv1a k) mod ?n = i}" if "i < ?n" for i
    using history_allows_nth [OF h, of "js i" "C_list i" "SList (kss i)"] assms(3) that by simp
  have "distinct (concat (map kss [0..<l]))" if "l \<le> ?n" for l
    using that
  proof (induction l)
    case (Suc l)
    have "set (concat (map kss [0..<l])) \<inter> set (kss l) = {}" using part Suc.prems by (auto simp: Suc_le_eq)
    then show ?case using Suc part [of l] by simp
  qed simp
  moreover have "k \<in> set (concat (map kss [0..<?n])) \<longleftrightarrow> k \<in> dom (history_after m (take (js (unat (fnv1a k) mod ?n)) h))" for k
    using part n by (auto simp: set_concat)
  ultimately show ?thesis by blast
qed

theorem sharded_keys_snapshots_witness:
  "\<exists>db kss h s. sh_holds db (\<lambda>_. None) \<and> crun demo_os (cs_init db) h s
    \<and> (\<forall>i < sh_num_shards db. i < length h \<and> h ! i = (C_list i, SList (kss i))) \<and> distinct (concat (map kss [0..<sh_num_shards db]))"
proof -
  obtain db where db: "sh_holds db (\<lambda>_. None)" by (rule demo_shards)
  obtain kss where run: "crun demo_os (cs_init db) (map (\<lambda>i. (C_list i, SList (kss i))) [0..<sh_num_shards db]) (cs_init db)"
    using crun_lists [OF db order_refl] by blast
  let ?h = "map (\<lambda>i. (C_list i, SList (kss i))) [0..<sh_num_shards db]"
  have "\<forall>i < sh_num_shards db. i < length ?h \<and> ?h ! i = (C_list i, SList (kss i))" by simp
  with sharded_keys_snapshots [OF db run, of "\<lambda>i. i" kss] db run show ?thesis by blast
qed

end
