(* ===== verification/Http_Concurrent.thy ===== *)
theory Http_Concurrent
  imports Http_Server Sharded_Concurrency
begin

text \<open>
  The requests of the server under concurrency. The handlers of \<^verbatim>\<open>src/src/server/http_server.cpp\<close> run on worker
  threads, and the only state they share is the sharded map. A request for a key makes one call on that map,
  so that the interleaved requests of all connections are the calls of \<^verbatim>\<open>Sharded_Concurrency\<close>; this theory shows that
  each takes effect at one moment, as the handler does when it runs alone.
\<close>

text \<open>The call that a request for a key makes. A listing is not one call but one for every shard.\<close>

fun op_call :: "sh_op \<Rightarrow> call option" where
  "op_call (SGet k) = Some (C_get k)"
| "op_call (SSet k v) = Some (C_set k v)"
| "op_call (SRemove k) = Some (C_remove k)"
| "op_call SKeys = None"

lemma op_call_does:
  assumes S: "sh_holds db m" and c: "op_call x = Some c"
    and body: "call_body os c (sh_shards db ! call_shard (sh_num_shards db) c) = Some (Inr (hm, a))"
  shows "sh_do os db x =
    Some (Inr (if call_mode c = Exclusive then sh_put_shard db (call_shard (sh_num_shards db) c) hm else db, a))"
proof (cases x)
  case (SGet k)
  then have ck: "c = C_get k" using c by simp
  obtain v where "a = SValue v" using body ck by (auto simp: bind_o_eq_Inr split: option.splits)
  with SGet ck body sh_holdsD(1) [OF S, of k] show ?thesis
    by (simp add: sh_get_is_call [of db k os] sh_idx_def del: call_body.simps)
next
  case (SSet k v)
  then have ck: "c = C_set k v" using c by simp
  obtain b where "a = SDone b" using body ck by (auto simp: bind_o_eq_Inr split: if_splits)
  with SSet ck body sh_holdsD(1) [OF S, of k] show ?thesis
    by (simp add: sh_set_is_call [of os db k] sh_idx_def del: call_body.simps)
next
  case (SRemove k)
  then have ck: "c = C_remove k" using c by simp
  obtain b where "a = SDone b" using body ck by (auto simp: bind_o_eq_Inr)
  with SRemove ck body sh_holdsD(1) [OF S, of k] show ?thesis
    by (simp add: sh_remove_is_call [of db k os] sh_idx_def del: call_body.simps)
qed (use c in simp)

text \<open>C7. A request for a key takes effect at one moment, whatever the other connections do: in any run of any number of
  threads, the step in which its call returns leaves the shards exactly as the handler leaves them when it runs alone
  at that moment, and its response is the handler's.\<close>

theorem http_request_atomic:
  assumes "sh_holds db m" and "crun os (cs_init db) h s" and "cstep os s [(c, a)] s'"
    and "op_call x = Some c" and "is_request x req"
  shows "handle_request os (cs_map s) req = Some (Inr (cs_map s', answer_response x a))"
proof -
  have "cs_map (cs_init db) = db" by (simp add: cs_init_def)
  with crun_spec [OF assms(2) cs_ok_init] assms(1)
  have ok: "cs_ok s" and S: "sh_holds (cs_map s) (history_after m h)" by simp_all
  from assms(3) show ?thesis
  proof cases
    case (leave t hm hm')
    then have "call_body os c (sh_shards (cs_map s) ! cs_shard s c) = Some (Inr (hm', a))" using cs_okD(3) [OF ok leave(2)] by simp
    from op_call_does [OF S assms(4) this] handle_request_op [OF assms(5)] leave(1) show ?thesis by simp
  qed
qed

theorem http_request_atomic_witness:
  "\<exists>db s s' a. sh_holds db (\<lambda>_. None) \<and> crun demo_os (cs_init db) [] s \<and> cstep demo_os s [(C_set [3] [4], a)] s'
    \<and> cs_threads s 1 = Pending (C_get [3])
    \<and> handle_request demo_os (cs_map s) (demo_request Verb_put ''/set'' [4]) =
        Some (Inr (cs_map s', answer_response (SSet [3] [4]) a))"
proof -
  let ?c = "C_set [3] [4]"
  obtain db where db: "sh_holds db (\<lambda>_. None)" "sh_room demo_os db [3] [4]" by (rule demo_shards)
  let ?i = "call_shard (sh_num_shards db) ?c"
  have lt: "?i < sh_num_shards db" "call_shard (sh_num_shards db) (C_get [3]) < sh_num_shards db"
    using db(1) by (simp_all add: sh_holds_def)
  have served: "call_served demo_os ?c (sh_shards db ! ?i)" using db(2) by (simp add: sh_room_def sh_idx_def)
  note run = crun_two_calls [OF lt, of demo_os]
  obtain hm a where "call_body demo_os ?c (sh_shards db ! ?i) = Some (Inr (hm, a))"
    using call_body_spec [OF db(1) refl lt(1) served] by blast
  then obtain s' where s': "cstep demo_os (two_calls db ?c (C_get [3])) [(?c, a)] s'"
    using cstep.leave [of "two_calls db ?c (C_get [3])" 0 ?c "sh_shards db ! ?i" demo_os hm a] served by auto
  have "is_request (SSet [3] (rq_body (demo_request Verb_put ''/set'' [4]))) (demo_request Verb_put ''/set'' [4])"
    by (rule is_request.set) (simp_all add: demo_request_def demo_key_target)
  then have "is_request (SSet [3] [4]) (demo_request Verb_put ''/set'' [4])" by (simp add: demo_request_def)
  then have "handle_request demo_os (cs_map (two_calls db ?c (C_get [3]))) (demo_request Verb_put ''/set'' [4]) =
      Some (Inr (cs_map s', answer_response (SSet [3] [4]) a))" by (intro http_request_atomic [OF db(1) run s']) simp_all
  moreover have "cs_threads (two_calls db ?c (C_get [3])) 1 = Pending (C_get [3])" by simp
  ultimately show ?thesis using db(1) run s' by blast
qed

end
