(* ===== verification/System_Error.thy ===== *)
theory System_Error
  imports File_Map "HOL-Library.State_Monad"
begin

text \<open>
  System calls with their effects, and the exception that reports them: \<^verbatim>\<open>src/src/linux/system_error.h\<close>, its
  copy for macOS, and \<^verbatim>\<open>src/src/windows/system_error.h\<close>. The kernel keeps what a process can leak
  (descriptors and handles, mappings, message buffers) and the number of the last error
  (\<^verbatim>\<open>errno\<close>, \<^verbatim>\<open>GetLastError()\<close>). A call has the outcome that \<open>os_env\<close> gives it; when it fails it sets
  the error number, to a value that is a parameter.
\<close>

section \<open>The kernel\<close>

record kernel =
  k_errno :: int
  k_fds :: "int set"
  k_maps :: "nat \<rightharpoonup> nat"
  k_buffers :: "nat \<rightharpoonup> string"

type_synonym 'a sys = "(kernel, 'a) state"

datatype sys_call =
    Sys_open string bool
  | Sys_fstat int
  | Sys_lseek int nat
  | Sys_write int nat
  | Sys_mmap int nat bool
  | Sys_mremap nat nat nat
  | Sys_munmap nat nat
  | Sys_close int
  | Create_file string bool bool
  | Create_file_mapping int bool nat
  | Map_view_of_file int bool nat
  | Unmap_view_of_file nat
  | Close_handle int

text \<open>When a call fails, by its own convention: \<^verbatim>\<open>CreateFileMapping\<close> returns null, which is not the value
  \<open>resize\<close> compares it with.\<close>

fun call_fails :: "os_env \<Rightarrow> sys_call \<Rightarrow> bool" where
  "call_fails os (Sys_open f ro) \<longleftrightarrow> os_open os f ro < 0"
| "call_fails os (Sys_fstat fd) \<longleftrightarrow> os_fstat os fd = None"
| "call_fails os (Sys_lseek fd n) \<longleftrightarrow> os_lseek os fd n < 0"
| "call_fails os (Sys_write fd n) \<longleftrightarrow> os_write os fd n \<noteq> 1"
| "call_fails os (Sys_mmap fd n w) \<longleftrightarrow> os_mmap os fd n w = None"
| "call_fails os (Sys_mremap p l n) \<longleftrightarrow> os_mremap os p l n = None"
| "call_fails os (Sys_munmap p l) \<longleftrightarrow> os_munmap os p l < 0"
| "call_fails os (Sys_close fd) \<longleftrightarrow> os_close os fd < 0"
| "call_fails os (Create_file f w new) \<longleftrightarrow> os_CreateFile os f w new = INVALID_HANDLE_VALUE"
| "call_fails os (Create_file_mapping h w n) \<longleftrightarrow> os_CreateFileMapping os h w n \<in> {0, INVALID_HANDLE_VALUE}"
| "call_fails os (Map_view_of_file h w n) \<longleftrightarrow> os_MapViewOfFile os h w n = 0"
| "call_fails os (Unmap_view_of_file p) \<longleftrightarrow> \<not> os_UnmapViewOfFile os p"
| "call_fails os (Close_handle h) \<longleftrightarrow> \<not> os_CloseHandle os h"

text \<open>A call: its outcome, and the error number or its effect on the resources of the process.\<close>

definition sys_after :: "os_env \<Rightarrow> (sys_call \<Rightarrow> int) \<Rightarrow> sys_call \<Rightarrow> (kernel \<Rightarrow> kernel) \<Rightarrow> kernel \<Rightarrow> kernel" where
  "sys_after os en call effect k = (if call_fails os call then k\<lparr>k_errno := en call\<rparr> else effect k)"

definition sys_do :: "os_env \<Rightarrow> (sys_call \<Rightarrow> int) \<Rightarrow> sys_call \<Rightarrow> 'a \<Rightarrow> (kernel \<Rightarrow> kernel) \<Rightarrow> 'a sys" where
  "sys_do os en call outcome effect =
     State (\<lambda>k. (outcome, sys_after os en call effect k))"

definition sys_open :: "os_env \<Rightarrow> (sys_call \<Rightarrow> int) \<Rightarrow> string \<Rightarrow> bool \<Rightarrow> int sys" where
  "sys_open os en f ro = sys_do os en (Sys_open f ro) (os_open os f ro) (\<lambda>k. k\<lparr>k_fds := insert (os_open os f ro) (k_fds k)\<rparr>)"

definition sys_fstat :: "os_env \<Rightarrow> (sys_call \<Rightarrow> int) \<Rightarrow> int \<Rightarrow> nat option sys" where
  "sys_fstat os en fd = sys_do os en (Sys_fstat fd) (os_fstat os fd) id"

definition sys_lseek :: "os_env \<Rightarrow> (sys_call \<Rightarrow> int) \<Rightarrow> int \<Rightarrow> nat \<Rightarrow> int sys" where
  "sys_lseek os en fd n = sys_do os en (Sys_lseek fd n) (os_lseek os fd n) id"

definition sys_write :: "os_env \<Rightarrow> (sys_call \<Rightarrow> int) \<Rightarrow> int \<Rightarrow> nat \<Rightarrow> int sys" where
  "sys_write os en fd n = sys_do os en (Sys_write fd n) (os_write os fd n) id"

definition sys_mmap :: "os_env \<Rightarrow> (sys_call \<Rightarrow> int) \<Rightarrow> int \<Rightarrow> nat \<Rightarrow> bool \<Rightarrow> nat option sys" where
  "sys_mmap os en fd n w =
     sys_do os en (Sys_mmap fd n w) (os_mmap os fd n w) (\<lambda>k. k\<lparr>k_maps := (k_maps k)(the (os_mmap os fd n w) \<mapsto> n)\<rparr>)"

definition sys_mremap :: "os_env \<Rightarrow> (sys_call \<Rightarrow> int) \<Rightarrow> nat \<Rightarrow> nat \<Rightarrow> nat \<Rightarrow> nat option sys" where
  "sys_mremap os en p l n =
     sys_do os en (Sys_mremap p l n) (os_mremap os p l n)
       (\<lambda>k. k\<lparr>k_maps := (k_maps k)(p := None, the (os_mremap os p l n) \<mapsto> n)\<rparr>)"

definition sys_munmap :: "os_env \<Rightarrow> (sys_call \<Rightarrow> int) \<Rightarrow> nat \<Rightarrow> nat \<Rightarrow> int sys" where
  "sys_munmap os en p l = sys_do os en (Sys_munmap p l) (os_munmap os p l) (\<lambda>k. k\<lparr>k_maps := (k_maps k)(p := None)\<rparr>)"

definition sys_close :: "os_env \<Rightarrow> (sys_call \<Rightarrow> int) \<Rightarrow> int \<Rightarrow> int sys" where
  "sys_close os en fd = sys_do os en (Sys_close fd) (os_close os fd) (\<lambda>k. k\<lparr>k_fds := k_fds k - {fd}\<rparr>)"

definition sys_CreateFile :: "os_env \<Rightarrow> (sys_call \<Rightarrow> int) \<Rightarrow> string \<Rightarrow> bool \<Rightarrow> bool \<Rightarrow> int sys" where
  "sys_CreateFile os en f w new =
     sys_do os en (Create_file f w new) (os_CreateFile os f w new) (\<lambda>k. k\<lparr>k_fds := insert (os_CreateFile os f w new) (k_fds k)\<rparr>)"

definition sys_CreateFileMapping :: "os_env \<Rightarrow> (sys_call \<Rightarrow> int) \<Rightarrow> int \<Rightarrow> bool \<Rightarrow> nat \<Rightarrow> int sys" where
  "sys_CreateFileMapping os en h w n =
     sys_do os en (Create_file_mapping h w n) (os_CreateFileMapping os h w n)
       (\<lambda>k. k\<lparr>k_fds := insert (os_CreateFileMapping os h w n) (k_fds k)\<rparr>)"

definition sys_MapViewOfFile :: "os_env \<Rightarrow> (sys_call \<Rightarrow> int) \<Rightarrow> int \<Rightarrow> bool \<Rightarrow> nat \<Rightarrow> nat sys" where
  "sys_MapViewOfFile os en h w n =
     sys_do os en (Map_view_of_file h w n) (os_MapViewOfFile os h w n) (\<lambda>k. k\<lparr>k_maps := (k_maps k)(os_MapViewOfFile os h w n \<mapsto> n)\<rparr>)"

definition sys_UnmapViewOfFile :: "os_env \<Rightarrow> (sys_call \<Rightarrow> int) \<Rightarrow> nat \<Rightarrow> bool sys" where
  "sys_UnmapViewOfFile os en p = sys_do os en (Unmap_view_of_file p) (os_UnmapViewOfFile os p) (\<lambda>k. k\<lparr>k_maps := (k_maps k)(p := None)\<rparr>)"

definition sys_CloseHandle :: "os_env \<Rightarrow> (sys_call \<Rightarrow> int) \<Rightarrow> int \<Rightarrow> bool sys" where
  "sys_CloseHandle os en h = sys_do os en (Close_handle h) (os_CloseHandle os h) (\<lambda>k. k\<lparr>k_fds := k_fds k - {h}\<rparr>)"

lemma run_sys_do [simp]: "run_state (sys_do os en call outcome effect) k = (outcome, sys_after os en call effect k)"
  by (simp add: sys_do_def)

lemma sys_after_simps:
  "call_fails os call \<Longrightarrow> sys_after os en call effect k = k\<lparr>k_errno := en call\<rparr>"
  "\<not> call_fails os call \<Longrightarrow> sys_after os en call effect k = effect k"
  by (simp_all add: sys_after_def)

lemmas sys_call_defs = sys_open_def sys_fstat_def sys_lseek_def sys_write_def sys_mmap_def sys_mremap_def sys_munmap_def sys_close_def
  sys_CreateFile_def sys_CreateFileMapping_def sys_MapViewOfFile_def sys_UnmapViewOfFile_def sys_CloseHandle_def

section \<open>The exception\<close>

text \<open>Linux and macOS: the error number at the time of construction, described by \<^verbatim>\<open>strerror\<close>.\<close>

record system_error =
  se_number :: int

definition system_error_new :: "system_error sys" where
  "system_error_new = State (\<lambda>k. (\<lparr>se_number = k_errno k\<rparr>, k))"

definition se_what :: "(int \<Rightarrow> string) \<Rightarrow> system_error \<Rightarrow> string" where
  "se_what strerror e = strerror (se_number e)"

text \<open>Windows: the message is formatted on demand into a buffer the exception owns; \<open>0\<close> is the null
  pointer. \<open>format\<close> is what \<^verbatim>\<open>FormatMessage\<close> allocates and writes for an error code.\<close>

record win_system_error =
  we_code :: int
  we_buffer :: nat

definition win_system_error_new :: "win_system_error sys" where
  "win_system_error_new = State (\<lambda>k. (\<lparr>we_code = k_errno k, we_buffer = 0\<rparr>, k))"

definition we_what :: "(kernel \<Rightarrow> int \<Rightarrow> (nat \<times> string) option) \<Rightarrow> win_system_error \<Rightarrow> (win_system_error \<times> string) sys" where
  "we_what format e = State (\<lambda>k.
     if we_buffer e = 0 then
       (case format k (we_code e) of
          None \<Rightarrow> ((e, ''system error: can'' @ [CHR 0x27] @ ''t format error message''), k)
        | Some (p, msg) \<Rightarrow> ((e\<lparr>we_buffer := p\<rparr>, msg), k\<lparr>k_buffers := (k_buffers k)(p \<mapsto> msg)\<rparr>))
     else ((e, the (k_buffers k (we_buffer e))), k))"

definition we_destroy :: "win_system_error \<Rightarrow> unit sys" where
  "we_destroy e = State (\<lambda>k. ((), if we_buffer e \<noteq> 0 then k\<lparr>k_buffers := (k_buffers k)(we_buffer e := None)\<rparr> else k))"

text \<open>Asking \<open>n\<close> more times.\<close>

primrec we_whats :: "(kernel \<Rightarrow> int \<Rightarrow> (nat \<times> string) option) \<Rightarrow> nat \<Rightarrow> win_system_error \<Rightarrow> (win_system_error \<times> string list) sys" where
  "we_whats format 0 e = State_Monad.return (e, [])"
| "we_whats format (Suc n) e =
     do { (e, msg) \<leftarrow> we_what format e; (e, texts) \<leftarrow> we_whats format n e; State_Monad.return (e, msg # texts) }"

lemma run_system_error_new [simp]:
  "run_state system_error_new k = (\<lparr>se_number = k_errno k\<rparr>, k)"
  "run_state win_system_error_new k = (\<lparr>we_code = k_errno k, we_buffer = 0\<rparr>, k)"
  by (simp_all add: system_error_new_def win_system_error_new_def)

text \<open>Once there is a buffer, nothing changes any more.\<close>

lemma we_whats_cached:
  assumes "we_buffer e \<noteq> 0" and "k_buffers k (we_buffer e) = Some msg"
  shows "run_state (we_whats format n e) k = ((e, replicate n msg), k)"
  using assms by (induction n) (simp_all add: we_what_def)

section \<open>Properties\<close>

text \<open>On Windows the exception describes the error that was current when it was made, in the same words however
  often it is asked, allocates one buffer at most, and its destructor releases it: the buffers of the
  process are those of before.\<close>

theorem win_error_message:
  assumes "run_state win_system_error_new k = (e, k1)"
    and "\<forall>k p msg. format k (we_code e) = Some (p, msg) \<longrightarrow> p \<noteq> 0 \<and> k_buffers k p = None"
    and "run_state (we_whats format n e) k2 = ((e', texts), k3)"
  shows "we_code e' = k_errno k \<and> (\<exists>msg. texts = replicate n msg) \<and> card (dom (k_buffers k3) - dom (k_buffers k2)) \<le> 1
    \<and> k_buffers (snd (run_state (we_destroy e') k3)) = k_buffers k2"
proof -
  have e: "e = \<lparr>we_code = k_errno k, we_buffer = 0\<rparr>" using assms(1) by auto
  show ?thesis
  proof (cases n)
    case 0
    then show ?thesis using assms(3) e by (auto simp: we_destroy_def)
  next
    case (Suc m)
    show ?thesis
    proof (cases "format k2 (we_code e)")
      case None
      have "run_state (we_whats format l e) k2 =
          ((e, replicate l (''system error: can'' @ [CHR 0x27] @ ''t format error message'')), k2)" for l
        using None e by (induction l) (simp_all add: we_what_def)
      then show ?thesis using assms(3) e by (auto simp: we_destroy_def)
    next
      case (Some pt)
      obtain p msg where pt: "pt = (p, msg)" by (cases pt)
      have p: "p \<noteq> 0" "k_buffers k2 p = None" using assms(2) Some pt by auto
      let ?k = "k2\<lparr>k_buffers := (k_buffers k2)(p \<mapsto> msg)\<rparr>" and ?e = "e\<lparr>we_buffer := p\<rparr>"
      have "run_state (we_whats format m ?e) ?k = ((?e, replicate m msg), ?k)" using p by (intro we_whats_cached) auto
      then have "e' = ?e" "texts = replicate n msg" "k3 = ?k" using assms(3) Suc Some pt e by (auto simp: we_what_def)
      moreover have "dom (k_buffers ?k) - dom (k_buffers k2) \<subseteq> {p}" by auto
      then have "card (dom (k_buffers ?k) - dom (k_buffers k2)) \<le> 1" using card_mono [of "{p}"] by fastforce
      ultimately show ?thesis using p e by (auto simp: we_destroy_def fun_upd_idem)
    qed
  qed
qed

definition demo_kernel :: kernel where
  "demo_kernel = \<lparr>k_errno = 0, k_fds = {}, k_maps = (\<lambda>_. None), k_buffers = (\<lambda>_. None)\<rparr>"

theorem win_error_message_witness:
  "\<exists>e' texts k3. run_state (we_whats (\<lambda>k code. if k_buffers k 1 = None then Some (1, ''Access is denied.'') else None) 2
      \<lparr>we_code = 5, we_buffer = 0\<rparr>) demo_kernel = ((e', texts), k3)
    \<and> we_code e' = 5 \<and> (\<exists>msg. texts = replicate 2 msg) \<and> k_buffers (snd (run_state (we_destroy e') k3)) = k_buffers demo_kernel"
proof -
  let ?format = "\<lambda>k (code :: int). if k_buffers k 1 = None then Some (1 :: nat, ''Access is denied.'') else None"
  let ?k = "demo_kernel\<lparr>k_errno := 5\<rparr>" and ?e = "\<lparr>we_code = 5, we_buffer = 0\<rparr>"
  have new: "run_state win_system_error_new ?k = (?e, ?k)" by simp
  obtain e' texts k3 where r: "run_state (we_whats ?format 2 ?e) demo_kernel = ((e', texts), k3)"
    by (metis prod.exhaust)
  have "\<forall>k p msg. ?format k (we_code ?e) = Some (p, msg) \<longrightarrow> p \<noteq> 0 \<and> k_buffers k p = None" by auto
  from win_error_message [OF new this r]
  have "we_code e' = 5 \<and> (\<exists>msg. texts = replicate 2 msg) \<and> k_buffers (snd (run_state (we_destroy e') k3)) = k_buffers demo_kernel" by simp
  with r show ?thesis by blast
qed

end
