(* ===== verification/File_Resources.thy ===== *)
theory File_Resources
  imports System_Error
begin

text \<open>
  The file maps of the three platforms once more, now call by call with their effects on the kernel: which
  descriptors, handles and mappings are taken and given back on every path, those that end in an exception
  included, and which error the exception carries. \<open>file_calls_refine\<close> shows that the model of
  \<^verbatim>\<open>File_Map\<close> is this one with the kernel left out, so that what is proved there and in the theories above it
  holds of the calls. The state of the object after an exception is kept.
\<close>

section \<open>Model\<close>

datatype thrown = Unix_error system_error | Win_error win_system_error

fun thrown_code :: "thrown \<Rightarrow> int" where
  "thrown_code (Unix_error e) = se_number e"
| "thrown_code (Win_error e) = we_code e"

text \<open>\<^verbatim>\<open>throw system_error()\<close>, and \<^verbatim>\<open>system_error last_error; ::close(fd_); throw last_error\<close>.\<close>

definition throw_new :: "'a \<Rightarrow> ('a \<times> (thrown + 'b)) sys" where
  "throw_new obj = do { e \<leftarrow> system_error_new; State_Monad.return (obj, Inl (Unix_error e)) }"

definition close_and_throw :: "os_env \<Rightarrow> (sys_call \<Rightarrow> int) \<Rightarrow> int \<Rightarrow> (thrown + 'a) sys" where
  "close_and_throw os en fd =
     do { last_error \<leftarrow> system_error_new; _ \<leftarrow> sys_close os en fd; State_Monad.return (Inl (Unix_error last_error)) }"

definition throw_new_win :: "'a \<Rightarrow> ('a \<times> (thrown + 'b)) sys" where
  "throw_new_win obj = do { e \<leftarrow> win_system_error_new; State_Monad.return (obj, Inl (Win_error e)) }"

subsection \<open>Linux and macOS\<close>

definition k_unix_open :: "os_env \<Rightarrow> (sys_call \<Rightarrow> int) \<Rightarrow> string \<Rightarrow> bool \<Rightarrow> nat \<Rightarrow> (thrown + file_map) sys" where
  "k_unix_open os en filename read_only len =
     do { fd \<leftarrow> sys_open os en filename read_only;
          if fd < 0 then do { e \<leftarrow> system_error_new; State_Monad.return (Inl (Unix_error e)) }
          else do {
            st \<leftarrow> sys_fstat os en fd;
            case st of
              None \<Rightarrow> close_and_throw os en fd
            | Some st_size \<Rightarrow> do {
                sought \<leftarrow> (if len \<noteq> 0 \<and> len > st_size then sys_lseek os en fd len else State_Monad.return 0);
                if sought < 0 then close_and_throw os en fd
                else do {
                  written \<leftarrow> (if len \<noteq> 0 \<and> len > st_size then sys_write os en fd len else State_Monad.return 1);
                  if written \<noteq> 1 then close_and_throw os en fd
                  else do {
                    start \<leftarrow> sys_mmap os en fd (if len = 0 then st_size else len) (\<not> read_only);
                    case start of
                      None \<Rightarrow> close_and_throw os en fd
                    | Some p \<Rightarrow> State_Monad.return (Inr
                        \<lparr>fm_read_only = read_only, fm_fd = fd, fm_mapping_handle = INVALID_HANDLE_VALUE, fm_start = p,
                         fm_length = (if len = 0 then st_size else len),
                         fm_extent = page_ceil os (if len = 0 then st_size else len)\<rparr>) } } } } }"

definition k_grow_file :: "os_env \<Rightarrow> (sys_call \<Rightarrow> int) \<Rightarrow> file_map \<Rightarrow> nat \<Rightarrow> bool sys" where
  "k_grow_file os en fm len =
     (if len > fm_length fm then
        do { sought \<leftarrow> sys_lseek os en (fm_fd fm) len;
             if sought < 0 then State_Monad.return False
             else do { written \<leftarrow> sys_write os en (fm_fd fm) len; State_Monad.return (written = 1) } }
      else State_Monad.return True)"

definition k_linux_resize :: "os_env \<Rightarrow> (sys_call \<Rightarrow> int) \<Rightarrow> file_map \<Rightarrow> nat \<Rightarrow> (file_map \<times> (thrown + unit)) sys" where
  "k_linux_resize os en fm len =
     (if len = fm_length fm then State_Monad.return (fm, Inr ())
      else do {
        grown \<leftarrow> k_grow_file os en fm len;
        if \<not> grown then throw_new fm
        else do {
          start \<leftarrow> sys_mremap os en (fm_start fm) (fm_length fm) len;
          case start of
            None \<Rightarrow> throw_new fm
          | Some p \<Rightarrow> State_Monad.return (fm\<lparr>fm_start := p, fm_length := len, fm_extent := page_ceil os len\<rparr>, Inr ()) } })"

definition k_macos_resize :: "os_env \<Rightarrow> (sys_call \<Rightarrow> int) \<Rightarrow> file_map \<Rightarrow> nat \<Rightarrow> (file_map \<times> (thrown + unit)) sys" where
  "k_macos_resize os en fm len =
     (if len = fm_length fm then State_Monad.return (fm, Inr ())
      else do {
        grown \<leftarrow> k_grow_file os en fm len;
        if \<not> grown then throw_new fm
        else do {
          unmapped \<leftarrow> sys_munmap os en (fm_start fm) (fm_length fm);
          if unmapped < 0 then throw_new fm
          else do {
            start \<leftarrow> sys_mmap os en (fm_fd fm) len (\<not> fm_read_only fm);
            case start of
              None \<Rightarrow> throw_new (fm\<lparr>fm_extent := 0\<rparr>)
            | Some p \<Rightarrow> State_Monad.return (fm\<lparr>fm_start := p, fm_length := len, fm_extent := page_ceil os len\<rparr>, Inr ()) } } })"

definition k_unix_close :: "os_env \<Rightarrow> (sys_call \<Rightarrow> int) \<Rightarrow> file_map \<Rightarrow> (file_map \<times> (thrown + unit)) sys" where
  "k_unix_close os en fm =
     do { unmapped \<leftarrow> (if fm_start fm \<noteq> 0 then sys_munmap os en (fm_start fm) (fm_length fm) else State_Monad.return 0);
          if unmapped < 0 then throw_new fm
          else do {
            fm \<leftarrow> State_Monad.return (fm\<lparr>fm_start := 0\<rparr>);
            closed \<leftarrow> (if fm_fd fm \<noteq> -1 then sys_close os en (fm_fd fm) else State_Monad.return 0);
            if closed < 0 then throw_new fm else State_Monad.return (fm\<lparr>fm_fd := -1\<rparr>, Inr ()) } }"

text \<open>On macOS the constructor and \<open>close\<close> make the same calls.\<close>

definition k_macos_open :: "os_env \<Rightarrow> (sys_call \<Rightarrow> int) \<Rightarrow> string \<Rightarrow> bool \<Rightarrow> nat \<Rightarrow> (thrown + file_map) sys" where
  "k_macos_open = k_unix_open"

definition k_macos_close :: "os_env \<Rightarrow> (sys_call \<Rightarrow> int) \<Rightarrow> file_map \<Rightarrow> (file_map \<times> (thrown + unit)) sys" where
  "k_macos_close = k_unix_close"

declare k_macos_open_def [simp] k_macos_close_def [simp]

subsection \<open>Windows\<close>

definition k_windows_resize :: "os_env \<Rightarrow> (sys_call \<Rightarrow> int) \<Rightarrow> file_map \<Rightarrow> nat \<Rightarrow> (file_map \<times> (thrown + unit)) sys" where
  "k_windows_resize os en fm new_length =
     do { mapping_handle \<leftarrow> sys_CreateFileMapping os en (fm_fd fm) (\<not> fm_read_only fm) (new_length mod 2 ^ 32);
          if mapping_handle = INVALID_HANDLE_VALUE then throw_new_win fm
          else do {
            start \<leftarrow> sys_MapViewOfFile os en mapping_handle (\<not> fm_read_only fm) new_length;
            if start = 0 then do {
              last_error \<leftarrow> win_system_error_new;
              _ \<leftarrow> sys_CloseHandle os en mapping_handle;
              State_Monad.return (fm, Inl (Win_error last_error)) }
            else do {
              _ \<leftarrow> (if fm_start fm \<noteq> 0 then sys_UnmapViewOfFile os en (fm_start fm) else State_Monad.return True);
              _ \<leftarrow> (if fm_mapping_handle fm \<noteq> 0 then sys_CloseHandle os en (fm_mapping_handle fm) else State_Monad.return True);
              State_Monad.return (fm\<lparr>fm_mapping_handle := mapping_handle, fm_start := start, fm_length := new_length,
                                     fm_extent := page_ceil os new_length\<rparr>, Inr ()) } } }"

text \<open>The block of the constructor that calls \<open>resize\<close> and closes the file again when it throws.\<close>

definition k_windows_try :: "os_env \<Rightarrow> (sys_call \<Rightarrow> int) \<Rightarrow> file_map \<Rightarrow> nat \<Rightarrow> (thrown + file_map) sys" where
  "k_windows_try os en fm len =
     do { (fm, r) \<leftarrow> k_windows_resize os en fm len;
          case r of
            Inl e \<Rightarrow> do { _ \<leftarrow> sys_CloseHandle os en (fm_fd fm); State_Monad.return (Inl e) }
          | Inr _ \<Rightarrow> State_Monad.return (Inr fm) }"

definition k_windows_open :: "os_env \<Rightarrow> (sys_call \<Rightarrow> int) \<Rightarrow> string \<Rightarrow> bool \<Rightarrow> nat \<Rightarrow> (thrown + file_map) sys" where
  "k_windows_open os en file_name read_only len =
     do { h0 \<leftarrow> sys_CreateFile os en file_name (\<not> read_only) False;
          if h0 = INVALID_HANDLE_VALUE \<and> read_only
          then do { e \<leftarrow> win_system_error_new; State_Monad.return (Inl (Win_error e)) }
          else do {
            h \<leftarrow> (if h0 = INVALID_HANDLE_VALUE then sys_CreateFile os en file_name True True else State_Monad.return h0);
            if h = INVALID_HANDLE_VALUE then do { e \<leftarrow> win_system_error_new; State_Monad.return (Inl (Win_error e)) }
            else do {
              k_windows_try os en
                 \<lparr>fm_read_only = read_only, fm_fd = h, fm_mapping_handle = INVALID_HANDLE_VALUE,
                  fm_start = 0, fm_length = 0, fm_extent = 0\<rparr> len } } }"

definition k_windows_close :: "os_env \<Rightarrow> (sys_call \<Rightarrow> int) \<Rightarrow> file_map \<Rightarrow> (file_map \<times> (thrown + unit)) sys" where
  "k_windows_close os en fm =
     do { unmapped \<leftarrow> (if fm_start fm \<noteq> 0 then sys_UnmapViewOfFile os en (fm_start fm) else State_Monad.return True);
          if \<not> unmapped then throw_new_win fm
          else do {
            fm \<leftarrow> State_Monad.return (fm\<lparr>fm_start := 0\<rparr>);
            closed \<leftarrow> (if fm_mapping_handle fm \<noteq> INVALID_HANDLE_VALUE then sys_CloseHandle os en (fm_mapping_handle fm)
                       else State_Monad.return True);
            if \<not> closed then throw_new_win fm
            else do {
              fm \<leftarrow> State_Monad.return (fm\<lparr>fm_mapping_handle := INVALID_HANDLE_VALUE\<rparr>);
              closed \<leftarrow> (if fm_fd fm \<noteq> INVALID_HANDLE_VALUE then sys_CloseHandle os en (fm_fd fm) else State_Monad.return True);
              if \<not> closed then throw_new_win fm
              else State_Monad.return (fm\<lparr>fm_fd := INVALID_HANDLE_VALUE\<rparr>, Inr ()) } } }"

subsection \<open>The platform selected\<close>

definition k_open :: "os_env \<Rightarrow> (sys_call \<Rightarrow> int) \<Rightarrow> string \<Rightarrow> bool \<Rightarrow> nat \<Rightarrow> (thrown + file_map) sys" where
  "k_open os en f ro len =
     (case os_platform os of
        Linux \<Rightarrow> k_unix_open os en f ro len
      | MacOS \<Rightarrow> k_macos_open os en f ro len
      | Windows \<Rightarrow> k_windows_open os en f ro len)"

definition k_resize :: "os_env \<Rightarrow> (sys_call \<Rightarrow> int) \<Rightarrow> file_map \<Rightarrow> nat \<Rightarrow> (file_map \<times> (thrown + unit)) sys" where
  "k_resize os en fm len =
     (case os_platform os of
        Linux \<Rightarrow> k_linux_resize os en fm len
      | MacOS \<Rightarrow> k_macos_resize os en fm len
      | Windows \<Rightarrow> k_windows_resize os en fm len)"

definition k_close :: "os_env \<Rightarrow> (sys_call \<Rightarrow> int) \<Rightarrow> file_map \<Rightarrow> (file_map \<times> (thrown + unit)) sys" where
  "k_close os en fm =
     (case os_platform os of
        Linux \<Rightarrow> k_unix_close os en fm
      | MacOS \<Rightarrow> k_macos_close os en fm
      | Windows \<Rightarrow> k_windows_close os en fm)"

text \<open>The destructor: \<open>close\<close> if it was not called, every exception caught; the lines it writes to the error output.\<close>

definition k_destroy :: "os_env \<Rightarrow> (sys_call \<Rightarrow> int) \<Rightarrow> (thrown \<Rightarrow> string) \<Rightarrow> file_map \<Rightarrow> (file_map \<times> string list) sys" where
  "k_destroy os en what fm =
     (if fm_start fm \<noteq> 0 \<or> fm_fd fm \<noteq> -1 then
        do { (fm, r) \<leftarrow> k_close os en fm;
             State_Monad.return (fm, ''diskhash: file_map destroyed without explicit close()'' #
               (case r of Inl e \<Rightarrow> [''diskhash: error closing file_map in destructor: '' @ what e] | Inr _ \<Rightarrow> [])) }
      else State_Monad.return (fm, []))"

section \<open>The model without a kernel\<close>

lemmas k_unix_defs = k_unix_open_def k_grow_file_def k_linux_resize_def k_macos_resize_def k_unix_close_def close_and_throw_def throw_new_def
lemmas k_windows_defs = k_windows_open_def k_windows_resize_def k_windows_close_def throw_new_win_def

definition forget :: "thrown + 'a \<Rightarrow> 'a result" where
  "forget r = (case r of Inl _ \<Rightarrow> Inl System_error | Inr x \<Rightarrow> Inr x)"

lemma forget_simps [simp]: "forget (Inl e) = Inl System_error" "forget (Inr x) = Inr x"
  by (simp_all add: forget_def)

lemma k_unix_open_forget: "forget (fst (run_state (k_unix_open os en f ro len) k)) = linux_open os f ro len"
  by (simp add: k_unix_defs linux_open_def sys_call_defs Let_def split: option.splits)

lemma k_linux_resize_forget: "run_state (k_linux_resize os en fm len) k = ((fm', r), k') \<Longrightarrow> forget (map_sum id (\<lambda>_. fm') r) = linux_resize os fm len"
  by (auto simp: k_unix_defs linux_resize_def sys_call_defs Let_def split: option.splits if_splits)

lemma k_macos_resize_forget: "run_state (k_macos_resize os en fm len) k = ((fm', r), k') \<Longrightarrow> x_macos_resize os fm len = (fm', forget r)"
  by (auto simp: k_unix_defs x_macos_resize_def sys_call_defs Let_def split: option.splits if_splits)

lemma k_windows_resize_forget: "run_state (k_windows_resize os en fm len) k = ((fm', r), k') \<Longrightarrow> forget (map_sum id (\<lambda>_. fm') r) = windows_resize os fm len"
  by (auto simp: k_windows_defs windows_resize_def sys_call_defs Let_def split: if_splits)

lemma k_resize_throws:
  "run_state (k_linux_resize os en fm len) k = ((fm', Inl e), k') \<Longrightarrow> fm' = fm"
  "run_state (k_windows_resize os en fm len) k = ((fm', Inl e), k') \<Longrightarrow> fm' = fm"
  by (auto simp: k_unix_defs k_windows_defs sys_call_defs Let_def split: option.splits if_splits)

lemma k_unix_close_forget: "run_state (k_unix_close os en fm) k = ((fm', r), k') \<Longrightarrow> unix_close os fm = (fm', forget r)"
  by (auto simp: k_unix_defs unix_close_def sys_call_defs Let_def split: if_splits)

lemma k_windows_close_forget: "run_state (k_windows_close os en fm) k = ((fm', r), k') \<Longrightarrow> windows_close os fm = (fm', forget r)"
  by (auto simp: k_windows_defs windows_close_def sys_call_defs Let_def split: if_splits)

lemma k_windows_try_forget: "forget (fst (run_state (k_windows_try os en fm len) k)) = windows_resize os fm len"
proof -
  obtain fm' r k' where run: "run_state (k_windows_resize os en fm len) k = ((fm', r), k')" by (metis prod.exhaust)
  from k_windows_resize_forget [OF run] run show ?thesis by (cases r) (simp_all add: k_windows_try_def sys_call_defs)
qed

lemma k_windows_open_forget: "forget (fst (run_state (k_windows_open os en f ro len) k)) = windows_open os f ro len"
  by (cases ro) (simp_all add: k_windows_open_def windows_open_def Let_def k_windows_try_forget sys_call_defs)

section \<open>Who holds what\<close>

text \<open>What a file map owns, and that the process holds this beside what it held before (\<open>k0\<close>).\<close>

definition own_handles :: "os_env \<Rightarrow> file_map \<Rightarrow> int set" where
  "own_handles os fm =
     (if os_platform os = Windows then {fm_fd fm, fm_mapping_handle fm} else {fm_fd fm}) - {INVALID_HANDLE_VALUE}"

definition own_maps :: "file_map \<Rightarrow> nat \<rightharpoonup> nat" where
  "own_maps fm = (if fm_start fm = 0 then (\<lambda>_. None) else [fm_start fm \<mapsto> fm_length fm])"

definition holds :: "os_env \<Rightarrow> kernel \<Rightarrow> kernel \<Rightarrow> file_map \<Rightarrow> bool" where
  "holds os k0 k fm \<longleftrightarrow> own_handles os fm \<inter> k_fds k0 = {} \<and> INVALID_HANDLE_VALUE \<notin> k_fds k0
     \<and> k_maps k0 (fm_start fm) = None \<and> k_maps k0 0 = None
     \<and> (os_platform os = Windows \<longrightarrow> fm_mapping_handle fm \<noteq> 0 \<and> (fm_fd fm \<noteq> INVALID_HANDLE_VALUE \<longrightarrow> fm_fd fm \<noteq> fm_mapping_handle fm))
     \<and> k_fds k = k_fds k0 \<union> own_handles os fm \<and> k_maps k = k_maps k0 ++ own_maps fm"

text \<open>New descriptors, handles and addresses are not in use, \<open>p\<close> apart, which is being given up.\<close>

definition fresh_files :: "os_env \<Rightarrow> kernel \<Rightarrow> bool" where
  "fresh_files os k \<longleftrightarrow> INVALID_HANDLE_VALUE \<notin> k_fds k \<and> (\<forall>f ro. os_open os f ro \<notin> k_fds k) \<and> (\<forall>f w new. os_CreateFile os f w new \<notin> insert 0 (k_fds k))"

definition fresh_maps :: "os_env \<Rightarrow> kernel \<Rightarrow> nat \<Rightarrow> bool" where
  "fresh_maps os k p \<longleftrightarrow> k_maps k 0 = None \<and> (os_platform os = Windows \<longrightarrow> 0 \<notin> k_fds k)
     \<and> (\<forall>fd n w a. os_mmap os fd n w = Some a \<longrightarrow> a \<noteq> 0 \<and> (a = p \<or> k_maps k a = None))
     \<and> (\<forall>q l n a. os_mremap os q l n = Some a \<longrightarrow> a \<noteq> 0 \<and> (a = p \<or> k_maps k a = None))
     \<and> (\<forall>h w n. os_CreateFileMapping os h w n \<notin> insert h (k_fds k))
     \<and> (\<forall>h w n. k_maps k (os_MapViewOfFile os h w n) = None) \<and> (\<forall>w n. os_MapViewOfFile os 0 w n = 0)"

lemma fresh_mapsD:
  assumes "fresh_maps os k p"
  shows "k_maps k 0 = None" "os_mmap os fd n w = Some a \<Longrightarrow> a \<noteq> 0 \<and> (a = p \<or> k_maps k a = None)"
    "os_mremap os q l n = Some a \<Longrightarrow> a \<noteq> 0 \<and> (a = p \<or> k_maps k a = None)"
    "os_CreateFileMapping os h w n \<noteq> h" "os_CreateFileMapping os h w n \<notin> k_fds k"
    "k_maps k (os_MapViewOfFile os h w n) = None" "os_MapViewOfFile os 0 w n = 0" "os_platform os = Windows \<Longrightarrow> 0 \<notin> k_fds k"
  by (insert assms [unfolded fresh_maps_def]) (metis insertI1 insertI2)+

definition os_releases :: "os_env \<Rightarrow> bool" where
  "os_releases os \<longleftrightarrow> (\<forall>fd. 0 \<le> os_close os fd) \<and> (\<forall>h. os_CloseHandle os h) \<and> (\<forall>p. os_UnmapViewOfFile os p)"

abbreviation same_resources :: "kernel \<Rightarrow> kernel \<Rightarrow> bool" where
  "same_resources k k' \<equiv> k_fds k' = k_fds k \<and> k_maps k' = k_maps k"

text \<open>An exception reports a call that failed.\<close>

definition reports :: "os_env \<Rightarrow> (sys_call \<Rightarrow> int) \<Rightarrow> thrown \<Rightarrow> bool" where
  "reports os en e \<longleftrightarrow> (\<exists>call. call_fails os call \<and> thrown_code e = en call)"

lemma reportsI [simp]:
  "call_fails os call \<Longrightarrow> reports os en (Unix_error \<lparr>se_number = en call\<rparr>)"
  "call_fails os call \<Longrightarrow> reports os en (Win_error \<lparr>we_code = en call, we_buffer = b\<rparr>)"
  by (auto simp: reports_def)

lemma unix_open_holds:
  assumes "os_platform os \<noteq> Windows" and fresh: "fresh_files os k" "fresh_maps os k 0"
    and run: "run_state (k_unix_open os en f ro len) k = (Inr fm, k')"
  shows "holds os k k' fm"
proof -
  let ?fd = "os_open os f ro"
  obtain st where st: "\<not> ?fd < 0" "os_fstat os ?fd = Some st"
    using run by (auto simp: k_unix_defs sys_call_defs split: if_splits option.splits)
  let ?n = "if len = 0 then st else len"
  obtain p where p: "os_mmap os ?fd ?n (\<not> ro) = Some p" and fm: "fm = \<lparr>fm_read_only = ro, fm_fd = ?fd,
      fm_mapping_handle = INVALID_HANDLE_VALUE, fm_start = p, fm_length = ?n, fm_extent = page_ceil os ?n\<rparr>"
    and k': "k_fds k' = insert ?fd (k_fds k)" "k_maps k' = (k_maps k)(p \<mapsto> ?n)"
    using run st by (auto simp: k_unix_defs sys_call_defs sys_after_def split: if_splits option.splits)
  have "p \<noteq> 0" "k_maps k p = None" "k_maps k 0 = None" "?fd \<notin> k_fds k" "INVALID_HANDLE_VALUE \<notin> k_fds k"
    using fresh_mapsD(1,2) [OF fresh(2)] p fresh(1) by (auto simp: fresh_files_def)
  then show ?thesis using assms(1) st(1) k'
    by (auto simp: fm holds_def own_handles_def own_maps_def INVALID_HANDLE_VALUE_def)
qed

lemma unix_open_fails:
  assumes "os_releases os" and fresh: "fresh_files os k"
    and run: "run_state (k_unix_open os en f ro len) k = (Inl e, k')"
  shows "same_resources k k' \<and> reports os en e"
proof -
  let ?fd = "os_open os f ro"
  have "?fd \<notin> k_fds k" using fresh by (auto simp: fresh_files_def)
  moreover have "\<not> call_fails os (Sys_close fd)" for fd using assms(1) by (auto simp: os_releases_def not_less)
  ultimately show ?thesis using run
    by (auto simp: k_unix_defs sys_call_defs sys_after_def split: if_splits option.splits)
qed

text \<open>How single effects change what is held.\<close>

lemma own_simps [simp]:
  "own_handles os (fm\<lparr>fm_start := p\<rparr>) = own_handles os fm" "own_handles os (fm\<lparr>fm_length := n\<rparr>) = own_handles os fm"
  "own_handles os (fm\<lparr>fm_extent := n\<rparr>) = own_handles os fm" "own_maps (fm\<lparr>fm_start := 0\<rparr>) = (\<lambda>_. None)"
  "own_maps (fm\<lparr>fm_fd := h\<rparr>) = own_maps fm" "own_maps (fm\<lparr>fm_mapping_handle := h\<rparr>) = own_maps fm"
  by (simp_all add: own_handles_def own_maps_def)

lemma holds_errno [simp]: "holds os k0 (k\<lparr>k_errno := n\<rparr>) fm = holds os k0 k fm"
  by (simp add: holds_def)

lemma holds_remap:
  assumes "holds os k0 k fm" and "fm_start fm \<noteq> 0" and "p \<noteq> 0" and "k_maps k0 p = None"
  shows "holds os k0 (k\<lparr>k_maps := (k_maps k)(fm_start fm := None, p \<mapsto> n)\<rparr>) (fm\<lparr>fm_start := p, fm_length := n, fm_extent := x\<rparr>)"
proof -
  have "(k_maps k)(fm_start fm := None) = k_maps k0" using assms(1,2) by (auto simp: holds_def own_maps_def fun_eq_iff)
  then show ?thesis using assms by (simp add: holds_def) (simp add: own_maps_def)
qed

lemma holds_unmap:
  assumes "holds os k0 k fm" and "fm_start fm \<noteq> 0"
  shows "holds os k0 (k\<lparr>k_maps := (k_maps k)(fm_start fm := None)\<rparr>) (fm\<lparr>fm_start := 0\<rparr>)"
proof -
  have "(k_maps k)(fm_start fm := None) = k_maps k0" using assms by (auto simp: holds_def own_maps_def fun_eq_iff)
  moreover have "k_maps k0 ++ (\<lambda>_. None) = k_maps k0" by (simp add: map_add_def)
  ultimately show ?thesis using assms(1) by (simp add: holds_def)
qed

lemma holds_unix_closed:
  assumes "os_platform os \<noteq> Windows" and "holds os k0 k fm" and "fm_fd fm \<noteq> -1"
  shows "holds os k0 (k\<lparr>k_fds := k_fds k - {fm_fd fm}\<rparr>) (fm\<lparr>fm_fd := -1\<rparr>)"
  using assms by (auto simp: holds_def own_handles_def INVALID_HANDLE_VALUE_def)

lemma k_grow_file_cases:
  obtains "run_state (k_grow_file os en fm n) k = (True, k)"
  | call where "call_fails os call" "run_state (k_grow_file os en fm n) k = (False, k\<lparr>k_errno := en call\<rparr>)"
proof -
  consider "n \<le> fm_length fm" | "n > fm_length fm" "call_fails os (Sys_lseek (fm_fd fm) n)"
    | "n > fm_length fm" "\<not> call_fails os (Sys_lseek (fm_fd fm) n)" "call_fails os (Sys_write (fm_fd fm) n)"
    | "n > fm_length fm" "\<not> call_fails os (Sys_lseek (fm_fd fm) n)" "\<not> call_fails os (Sys_write (fm_fd fm) n)"
    by (metis not_le)
  then show ?thesis
  proof cases
    case 1
    then show ?thesis using that(1) by (simp add: k_grow_file_def)
  next
    case 2
    then show ?thesis using that(2) [of "Sys_lseek (fm_fd fm) n"] by (simp add: k_grow_file_def sys_call_defs sys_after_simps)
  next
    case 3
    then show ?thesis using that(2) [of "Sys_write (fm_fd fm) n"] by (simp add: k_grow_file_def sys_call_defs sys_after_simps)
  next
    case 4
    then show ?thesis using that(1) by (simp add: k_grow_file_def sys_call_defs sys_after_simps)
  qed
qed

lemma k_linux_resize_cases:
  assumes "run_state (k_linux_resize os en fm n) k = ((fm', r), k')"
  obtains "fm' = fm" "k' = k" "r = Inr ()"
  | call where "call_fails os call" "fm' = fm" "k' = k\<lparr>k_errno := en call\<rparr>" "r = Inl (Unix_error \<lparr>se_number = en call\<rparr>)"
  | p where "os_mremap os (fm_start fm) (fm_length fm) n = Some p" "r = Inr ()"
      "fm' = fm\<lparr>fm_start := p, fm_length := n, fm_extent := page_ceil os n\<rparr>"
      "k' = k\<lparr>k_maps := (k_maps k)(fm_start fm := None, p \<mapsto> n)\<rparr>"
proof (cases rule: k_grow_file_cases [of os en fm n k])
  case 1
  let ?call = "Sys_mremap (fm_start fm) (fm_length fm) n"
  show ?thesis
  proof (cases "os_mremap os (fm_start fm) (fm_length fm) n")
    case None
    then show ?thesis using that(1) that(2) [of ?call] assms 1
      by (auto simp: k_linux_resize_def throw_new_def sys_mremap_def sys_after_simps split: if_split_asm)
  next
    case (Some p)
    then show ?thesis using that(1) that(3) [of p] assms 1
      by (auto simp: k_linux_resize_def sys_mremap_def sys_after_simps split: if_split_asm)
  qed
next
  case (2 call)
  then show ?thesis using that(1) that(2) [OF 2(1)] assms by (auto simp: k_linux_resize_def throw_new_def split: if_split_asm)
qed

lemma linux_resize_holds:
  assumes h: "holds os k0 k fm" and "fm_start fm \<noteq> 0" and fresh: "fresh_maps os k (fm_start fm)"
    and run: "run_state (k_linux_resize os en fm n) k = ((fm', r), k')"
  shows "holds os k0 k' fm' \<and> (\<forall>e. r = Inl e \<longrightarrow> fm' = fm \<and> reports os en e)"
  using run
proof (cases rule: k_linux_resize_cases)
  case (3 p)
  have "k_maps k0 p = None \<and> p \<noteq> 0"
    using fresh_mapsD(3) [OF fresh 3(1)] h by (auto simp: holds_def map_add_None)
  then show ?thesis using holds_remap [OF h assms(2)] 3 by simp
qed (use h in \<open>simp_all add: reports_def exI\<close>)

text \<open>On macOS there is one more state: the object still has the address of a mapping that is gone.\<close>

definition unmapped :: "os_env \<Rightarrow> kernel \<Rightarrow> kernel \<Rightarrow> file_map \<Rightarrow> bool" where
  "unmapped os k0 k fm \<longleftrightarrow> os_platform os = MacOS \<and> fm_start fm \<noteq> 0 \<and> k_maps k0 (fm_start fm) = None \<and> holds os k0 k (fm\<lparr>fm_start := 0\<rparr>)"

lemma unmapped_errno [simp]: "unmapped os k0 (k\<lparr>k_errno := n\<rparr>) fm = unmapped os k0 k fm"
  by (simp add: unmapped_def)

lemma unmapped_maps: "unmapped os k0 k fm \<Longrightarrow> k_maps k = k_maps k0"
  by (simp add: unmapped_def holds_def map_add_def)

lemma holds_not_unmapped: "holds os k0 k fm \<Longrightarrow> \<not> unmapped os k0 k fm"
proof
  assume h: "holds os k0 k fm" and u: "unmapped os k0 k fm"
  then have "k_maps k (fm_start fm) = Some (fm_length fm)" by (simp add: unmapped_def holds_def own_maps_def)
  then show False using unmapped_maps [OF u] u by (simp add: unmapped_def)
qed

lemma unmap_any:
  assumes "holds os k0 k fm \<or> unmapped os k0 k fm" and "fm_start fm \<noteq> 0"
  shows "holds os k0 (k\<lparr>k_maps := (k_maps k)(fm_start fm := None)\<rparr>) (fm\<lparr>fm_start := 0\<rparr>)" and "k_maps k0 (fm_start fm) = None"
proof -
  show "holds os k0 (k\<lparr>k_maps := (k_maps k)(fm_start fm := None)\<rparr>) (fm\<lparr>fm_start := 0\<rparr>)"
  proof (cases "unmapped os k0 k fm")
    case True
    then have "(k_maps k)(fm_start fm := None) = k_maps k" using unmapped_maps [OF True] by (simp add: unmapped_def fun_upd_idem)
    then show ?thesis using True by (simp add: unmapped_def)
  qed (use assms holds_unmap in blast)
  show "k_maps k0 (fm_start fm) = None" using assms by (auto simp: holds_def unmapped_def)
qed

lemma holds_extent [simp]: "holds os k0 k (fm\<lparr>fm_extent := x, fm_start := p\<rparr>) = holds os k0 k (fm\<lparr>fm_start := p\<rparr>)"
  by (simp add: holds_def own_handles_def own_maps_def)

lemma holds_map:
  assumes "holds os k0 k (fm\<lparr>fm_start := 0\<rparr>)" and "p \<noteq> 0" and "k_maps k0 p = None"
  shows "holds os k0 (k\<lparr>k_maps := (k_maps k)(p \<mapsto> n)\<rparr>) (fm\<lparr>fm_start := p, fm_length := n, fm_extent := x\<rparr>)"
  using assms by (simp add: holds_def) (simp add: own_maps_def own_handles_def map_add_def fun_eq_iff)

lemma macos_resize_any:
  assumes mac: "os_platform os = MacOS" and h: "holds os k0 k fm \<or> unmapped os k0 k fm" and start: "fm_start fm \<noteq> 0"
    and fresh: "fresh_maps os k (fm_start fm)" and run: "run_state (k_macos_resize os en fm n) k = ((fm', r), k')"
  shows "(holds os k0 k' fm' \<or> unmapped os k0 k' fm' \<and> (unmapped os k0 k fm \<or> r \<noteq> Inr ())) \<and> (\<forall>e. r = Inl e \<longrightarrow> reports os en e)"
proof (cases "n = fm_length fm")
  case True
  then show ?thesis using run h by (auto simp: k_macos_resize_def)
next
  case False
  let ?munmap = "Sys_munmap (fm_start fm) (fm_length fm)" and ?mmap = "Sys_mmap (fm_fd fm) n (\<not> fm_read_only fm)"
  from run show ?thesis
  proof (cases rule: k_grow_file_cases [of os en fm n k])
    case grown: 1
    let ?k1 = "k\<lparr>k_maps := (k_maps k)(fm_start fm := None)\<rparr>"
    note k1 = unmap_any [OF h start]
    consider (stays) "call_fails os ?munmap" | (lost) "\<not> call_fails os ?munmap" "os_mmap os (fm_fd fm) n (\<not> fm_read_only fm) = None"
      | (mapped) p where "\<not> call_fails os ?munmap" "os_mmap os (fm_fd fm) n (\<not> fm_read_only fm) = Some p" by fastforce
    then show ?thesis
    proof cases
      case stays
      then show ?thesis using run False grown h by (auto simp: k_macos_resize_def throw_new_def sys_call_defs sys_after_simps)
    next
      case lost
      then have "fm' = fm\<lparr>fm_extent := 0\<rparr>" "r = Inl (Unix_error \<lparr>se_number = en ?mmap\<rparr>)" "k' = ?k1\<lparr>k_errno := en ?mmap\<rparr>"
        using run False grown by (auto simp: k_macos_resize_def throw_new_def sys_call_defs sys_after_simps)
      then show ?thesis using k1 mac start lost(2) by (simp add: unmapped_def)
    next
      case (mapped p)
      then have r: "fm' = fm\<lparr>fm_start := p, fm_length := n, fm_extent := page_ceil os n\<rparr>" "r = Inr ()" "k' = ?k1\<lparr>k_maps := (k_maps ?k1)(p \<mapsto> n)\<rparr>"
        using run False grown by (auto simp: k_macos_resize_def sys_call_defs sys_after_simps)
      have "k_maps k0 p = None \<and> p \<noteq> 0" using fresh_mapsD(2) [OF fresh mapped(2)] h k1(2) unmapped_maps [of os k0 k fm]
        by (auto simp: holds_def map_add_None)
      then show ?thesis using holds_map [OF k1(1)] r by simp
    qed
  qed (use run False h in \<open>auto simp: k_macos_resize_def throw_new_def\<close>)
qed

lemma unix_close_holds:
  assumes "os_platform os \<noteq> Windows" and h: "holds os k0 k fm"
    and run: "run_state (k_unix_close os en fm) k = ((fm', r), k')"
  shows "holds os k0 k' fm' \<and> (\<forall>e. r = Inl e \<longrightarrow> reports os en e)"
proof (cases "fm_start fm \<noteq> 0 \<and> call_fails os (Sys_munmap (fm_start fm) (fm_length fm))")
  case True
  then show ?thesis using run h by (auto simp: k_unix_close_def throw_new_def sys_call_defs sys_after_simps)
next
  case False
  define fm1 where "fm1 = fm\<lparr>fm_start := 0\<rparr>"
  define k1 where "k1 = (if fm_start fm = 0 then k else k\<lparr>k_maps := (k_maps k)(fm_start fm := None)\<rparr>)"
  have h1: "holds os k0 k1 fm1"
  proof (cases "fm_start fm = 0")
    case True
    then have "fm1 = fm" by (simp add: fm1_def)
    then show ?thesis using True h by (simp add: k1_def)
  qed (use holds_unmap [OF h] in \<open>simp add: k1_def fm1_def\<close>)
  have idem: "fm1\<lparr>fm_fd := -1\<rparr> = fm1" if "fm_fd fm1 = -1" using that by (cases fm1) simp
  have "run_state (k_unix_close os en fm) k =
    (if fm_fd fm1 = -1 then ((fm1, Inr ()), k1)
     else if call_fails os (Sys_close (fm_fd fm1)) then ((fm1, Inl (Unix_error \<lparr>se_number = en (Sys_close (fm_fd fm1))\<rparr>)), k1\<lparr>k_errno := en (Sys_close (fm_fd fm1))\<rparr>)
     else ((fm1\<lparr>fm_fd := -1\<rparr>, Inr ()), k1\<lparr>k_fds := k_fds k1 - {fm_fd fm1}\<rparr>))"
    using False idem by (auto simp: k_unix_close_def throw_new_def sys_call_defs sys_after_def fm1_def k1_def)
  then show ?thesis
    using run h1 holds_unix_closed [OF assms(1) h1] by (auto split: if_split_asm)
qed

lemma unix_close_any:
  assumes "os_platform os \<noteq> Windows" and h: "holds os k0 k fm \<or> unmapped os k0 k fm"
    and run: "run_state (k_unix_close os en fm) k = ((fm', r), k')"
  shows "(holds os k0 k' fm' \<or> unmapped os k0 k' fm' \<and> unmapped os k0 k fm) \<and> (\<forall>e. r = Inl e \<longrightarrow> reports os en e)"
proof (cases "holds os k0 k fm \<or> fm_start fm = 0")
  case True
  then have "holds os k0 k fm" using h by (auto simp: unmapped_def)
  then show ?thesis using unix_close_holds [OF assms(1) _ run] by blast
next
  case False
  then have u: "unmapped os k0 k fm" "fm_start fm \<noteq> 0" using h by auto
  show ?thesis
  proof (cases "call_fails os (Sys_munmap (fm_start fm) (fm_length fm))")
    case True
    then show ?thesis using run u by (auto simp: k_unix_close_def throw_new_def sys_call_defs sys_after_simps)
  next
    case gone: False
    let ?k1 = "k\<lparr>k_maps := (k_maps k)(fm_start fm := None)\<rparr>" and ?fm1 = "fm\<lparr>fm_start := 0\<rparr>"
    have "run_state (k_unix_close os en fm) k = run_state (k_unix_close os en ?fm1) ?k1"
      using gone u(2) by (simp add: k_unix_close_def sys_call_defs sys_after_simps)
    then show ?thesis using unix_close_holds [OF assms(1) unmap_any(1) [OF h u(2)]] run by metis
  qed
qed

lemma holds_win_remap:
  assumes "os_platform os = Windows" and h: "holds os k0 k fm" and "mh \<notin> k_fds k" "mh \<noteq> fm_fd fm" "mh \<noteq> 0" "mh \<noteq> INVALID_HANDLE_VALUE"
    and "p \<noteq> 0" and "k_maps k p = None"
  shows "holds os k0 (k\<lparr>k_fds := insert mh (k_fds k) - {fm_mapping_handle fm},
      k_maps := (if fm_start fm = 0 then k_maps k else (k_maps k)(fm_start fm := None))(p \<mapsto> n)\<rparr>)
    (fm\<lparr>fm_mapping_handle := mh, fm_start := p, fm_length := n, fm_extent := x\<rparr>)"
proof -
  have "(if fm_start fm = 0 then k_maps k else (k_maps k)(fm_start fm := None)) = k_maps k0"
    using h by (auto simp: holds_def own_maps_def fun_eq_iff map_add_def)
  moreover have "k_maps k0 p = None" using assms(8) h by (auto simp: holds_def map_add_None)
  moreover have "own_maps (fm\<lparr>fm_mapping_handle := mh, fm_start := p, fm_length := n, fm_extent := x\<rparr>) = [p \<mapsto> n]"
    using assms(7) by (simp add: own_maps_def)
  moreover have "insert mh (k_fds k) - {fm_mapping_handle fm} = k_fds k0 \<union> ({fm_fd fm, mh} - {INVALID_HANDLE_VALUE})"
    "({fm_fd fm, mh} - {INVALID_HANDLE_VALUE}) \<inter> k_fds k0 = {}"
  proof -
    let ?m = "fm_mapping_handle fm"
    have K: "k_fds k = k_fds k0 \<union> ({fm_fd fm, ?m} - {INVALID_HANDLE_VALUE})"
      "({fm_fd fm, ?m} - {INVALID_HANDLE_VALUE}) \<inter> k_fds k0 = {}" "INVALID_HANDLE_VALUE \<notin> k_fds k0"
      "fm_fd fm = INVALID_HANDLE_VALUE \<or> fm_fd fm \<noteq> ?m"
      using h assms(1) by (auto simp: holds_def own_handles_def)
    have "?m \<notin> k_fds k0" using K(2,3) by (cases "?m = INVALID_HANDLE_VALUE") auto
    moreover have "mh \<noteq> ?m" using K(1) assms(3,6) by (cases "?m = INVALID_HANDLE_VALUE") auto
    ultimately show "insert mh (k_fds k) - {?m} = k_fds k0 \<union> ({fm_fd fm, mh} - {INVALID_HANDLE_VALUE})"
      unfolding K(1) using K(4) assms(6) by auto
    show "({fm_fd fm, mh} - {INVALID_HANDLE_VALUE}) \<inter> k_fds k0 = {}" using K(1,2) assms(3) by blast
  qed
  moreover have "own_handles os (fm\<lparr>fm_mapping_handle := mh, fm_start := p, fm_length := n, fm_extent := x\<rparr>) = {fm_fd fm, mh} - {INVALID_HANDLE_VALUE}"
    using assms(1) by (simp add: own_handles_def)
  ultimately show ?thesis using h assms(1,4,5) by (simp add: holds_def)
qed

lemma win_resize_holds:
  assumes win: "os_platform os = Windows" "os_releases os" and h: "holds os k0 k fm"
    and mh: "os_CreateFileMapping os (fm_fd fm) w n32 \<notin> insert (fm_fd fm) (k_fds k)" and w: "w = (\<not> fm_read_only fm)" "n32 = n mod 2 ^ 32"
    and view: "\<And>h w n. k_maps k (os_MapViewOfFile os h w n) = None" "\<And>w n. os_MapViewOfFile os 0 w n = 0" and k: "0 \<notin> k_fds k"
    and run: "run_state (k_windows_resize os en fm n) k = ((fm', r), k')"
  shows "holds os k0 k' fm' \<and> (\<forall>e. r = Inl e \<longrightarrow> fm' = fm \<and> same_resources k k' \<and> reports os en e)"
proof -
  let ?h = "os_CreateFileMapping os (fm_fd fm) w n32"
  let ?create = "Create_file_mapping (fm_fd fm) w n32" and ?map = "Map_view_of_file ?h w n"
  have closes: "\<not> call_fails os (Close_handle x)" "\<not> call_fails os (Unmap_view_of_file q)" for x q
    using win(2) by (simp_all add: os_releases_def)
  consider (invalid) "?h = INVALID_HANDLE_VALUE" | (unmapped) "?h \<noteq> INVALID_HANDLE_VALUE" "call_fails os ?map"
    | (mapped) "?h \<noteq> INVALID_HANDLE_VALUE" "\<not> call_fails os ?map" by blast
  then show ?thesis
  proof cases
    case invalid
    then show ?thesis using run h w by (auto simp: k_windows_resize_def throw_new_win_def sys_call_defs sys_after_simps)
  next
    case unmapped
    let ?k1 = "if ?h = 0 then k\<lparr>k_errno := en ?map\<rparr> else k\<lparr>k_errno := en ?map, k_fds := insert ?h (k_fds k)\<rparr>"
    have "run_state (k_windows_resize os en fm n) k =
        ((fm, Inl (Win_error \<lparr>we_code = en ?map, we_buffer = 0\<rparr>)), ?k1\<lparr>k_fds := k_fds ?k1 - {?h}\<rparr>)"
      using unmapped closes by (simp add: k_windows_resize_def sys_call_defs sys_after_def w)
    moreover have "k_fds ?k1 - {?h} = k_fds k" using mh k by auto
    ultimately show ?thesis using run h unmapped(2) by (auto simp: holds_def)
  next
    case mapped
    let ?p = "os_MapViewOfFile os ?h w n"
    have p: "?p \<noteq> 0" "?h \<noteq> 0" "k_maps k ?p = None" using mapped(2) view by auto
    have ne: "fm_start fm \<noteq> 0 \<Longrightarrow> ?p \<noteq> fm_start fm" using p(3) h by (auto simp: holds_def own_maps_def)
    have old: "fm_mapping_handle fm \<noteq> 0" using h win(1) by (simp add: holds_def)
    have ok: "\<not> call_fails os ?create" using p(2) mapped(1) by simp
    have "fm' = fm\<lparr>fm_mapping_handle := ?h, fm_start := ?p, fm_length := n, fm_extent := page_ceil os n\<rparr>"
      "r = Inr ()" "k' = k\<lparr>k_fds := insert ?h (k_fds k) - {fm_mapping_handle fm},
        k_maps := (if fm_start fm = 0 then k_maps k else (k_maps k)(fm_start fm := None))(?p \<mapsto> n)\<rparr>"
      using run mapped ok closes old p(1) ne
      by (auto simp: k_windows_resize_def sys_call_defs sys_after_simps w fun_upd_twist split: if_split_asm)
    moreover have "?h \<notin> k_fds k" "?h \<noteq> fm_fd fm" using mh by auto
    ultimately show ?thesis using holds_win_remap [OF win(1) h _ _ p(2) mapped(1) p(1,3)] by simp
  qed
qed

lemma win_try:
  assumes win: "os_platform os = Windows" "os_releases os" and fresh: "fresh_maps os k 0"
    and h: "h \<notin> insert 0 (k_fds k)" "h \<noteq> INVALID_HANDLE_VALUE" "INVALID_HANDLE_VALUE \<notin> k_fds k"
    and k2: "k_fds k2 = insert h (k_fds k)" "k_maps k2 = k_maps k"
    and fm: "fm = \<lparr>fm_read_only = ro, fm_fd = h, fm_mapping_handle = INVALID_HANDLE_VALUE, fm_start = 0, fm_length = 0, fm_extent = 0\<rparr>"
    and run: "run_state (k_windows_try os en fm n) k2 = (x, k')"
  shows "case x of Inl e \<Rightarrow> same_resources k k' \<and> reports os en e | Inr fm' \<Rightarrow> holds os k k' fm'"
proof -
  have hold: "holds os k k2 fm"
    using h k2 fresh_mapsD(1) [OF fresh] win(1)
    by (auto simp: fm holds_def own_handles_def own_maps_def INVALID_HANDLE_VALUE_def map_add_def)
  obtain fm' r k3 where r: "run_state (k_windows_resize os en fm n) k2 = ((fm', r), k3)" by (metis prod.exhaust)
  have "os_CreateFileMapping os (fm_fd fm) w l \<notin> insert (fm_fd fm) (k_fds k2)" for w l
    using fresh_mapsD(4,5) [OF fresh, of h w l] k2(1) by (simp add: fm)
  moreover have "k_maps k2 (os_MapViewOfFile os h w n) = None" "os_MapViewOfFile os 0 w n = 0" "0 \<notin> k_fds k2" for h w n
    using fresh_mapsD(6,7,8) [OF fresh] win(1) k2 h(1) by auto
  ultimately have res: "holds os k k3 fm' \<and> (\<forall>e. r = Inl e \<longrightarrow> fm' = fm \<and> same_resources k2 k3 \<and> reports os en e)"
    by (intro win_resize_holds [OF win hold _ refl refl _ _ _ r])
  have "\<not> call_fails os (Close_handle h)" using win(2) by (simp add: os_releases_def)
  then show ?thesis using run res r k2 h(1)
    by (cases r) (auto simp: k_windows_try_def sys_call_defs sys_after_simps fm)
qed

lemma win_open:
  assumes win: "os_platform os = Windows" "os_releases os" and fresh: "fresh_files os k" "fresh_maps os k 0"
    and run: "run_state (k_windows_open os en f ro n) k = (x, k')"
  shows "case x of Inl e \<Rightarrow> same_resources k k' \<and> reports os en e | Inr fm' \<Rightarrow> holds os k k' fm'"
proof -
  let ?h0 = "os_CreateFile os f (\<not> ro) False" and ?h1 = "os_CreateFile os f True True"
  let ?fm = "\<lambda>h. \<lparr>fm_read_only = ro, fm_fd = h, fm_mapping_handle = INVALID_HANDLE_VALUE, fm_start = 0, fm_length = 0, fm_extent = 0\<rparr>"
  have new: "os_CreateFile os f w c \<notin> insert 0 (k_fds k)" "INVALID_HANDLE_VALUE \<notin> k_fds k" for f w c
    using fresh(1) by (auto simp: fresh_files_def)
  note tried = win_try [OF win fresh(2) new(1) _ new(2) _ _ refl]
  consider "?h0 \<noteq> INVALID_HANDLE_VALUE" | "?h0 = INVALID_HANDLE_VALUE" "ro \<or> ?h1 = INVALID_HANDLE_VALUE"
    | "?h0 = INVALID_HANDLE_VALUE" "\<not> ro" "?h1 \<noteq> INVALID_HANDLE_VALUE" by blast
  then show ?thesis
  proof cases
    case 1
    then have "run_state (k_windows_try os en (?fm ?h0) n) (k\<lparr>k_fds := insert ?h0 (k_fds k)\<rparr>) = (x, k')"
      using run by (simp add: k_windows_open_def sys_call_defs sys_after_simps)
    then show ?thesis using 1 by (intro tried) simp_all
  next
    case 2
    have "call_fails os (Create_file f (\<not> ro) False)" "\<not> ro \<Longrightarrow> call_fails os (Create_file f True True)" using 2 by auto
    then show ?thesis using run 2 by (cases ro) (auto simp: k_windows_open_def sys_call_defs sys_after_simps)
  next
    case 3
    then have "run_state (k_windows_try os en (?fm ?h1) n) (k\<lparr>k_errno := en (Create_file f (\<not> ro) False), k_fds := insert ?h1 (k_fds k)\<rparr>) = (x, k')"
      using run by (simp add: k_windows_open_def sys_call_defs sys_after_simps)
    then show ?thesis using 3 by (intro tried) simp_all
  qed
qed

lemma holds_win_closed:
  assumes "os_platform os = Windows" and "holds os k0 k fm"
  shows "fm_mapping_handle fm \<noteq> INVALID_HANDLE_VALUE \<Longrightarrow>
      holds os k0 (k\<lparr>k_fds := k_fds k - {fm_mapping_handle fm}\<rparr>) (fm\<lparr>fm_mapping_handle := INVALID_HANDLE_VALUE\<rparr>)"
    and "fm_mapping_handle fm = INVALID_HANDLE_VALUE \<Longrightarrow> fm_fd fm \<noteq> INVALID_HANDLE_VALUE \<Longrightarrow>
      holds os k0 (k\<lparr>k_fds := k_fds k - {fm_fd fm}\<rparr>) (fm\<lparr>fm_fd := INVALID_HANDLE_VALUE\<rparr>)"
proof -
  let ?I = INVALID_HANDLE_VALUE and ?m = "fm_mapping_handle fm" and ?fd = "fm_fd fm"
  have own: "own_handles os fm = {?fd, ?m} - {?I}" "own_handles os (fm\<lparr>fm_mapping_handle := ?I\<rparr>) = {?fd} - {?I}"
    "own_handles os (fm\<lparr>fm_fd := ?I\<rparr>) = {?m} - {?I}" using assms(1) by (auto simp: own_handles_def)
  have K: "k_fds k = k_fds k0 \<union> ({?fd, ?m} - {?I})" "({?fd, ?m} - {?I}) \<inter> k_fds k0 = {}" "?fd = ?I \<or> ?fd \<noteq> ?m"
    using assms by (auto simp: holds_def own)
  show "holds os k0 (k\<lparr>k_fds := k_fds k - {?m}\<rparr>) (fm\<lparr>fm_mapping_handle := ?I\<rparr>)" if "?m \<noteq> ?I"
  proof -
    have "?m \<notin> k_fds k0" using K(2) that by auto
    then have "k_fds k - {?m} = k_fds k0 \<union> ({?fd} - {?I})" unfolding K(1) using K(3) that by auto
    moreover have "({?fd} - {?I}) \<inter> k_fds k0 = {}" using K(2) by auto
    moreover have "?I \<noteq> 0" by (simp add: INVALID_HANDLE_VALUE_def)
    ultimately show ?thesis using assms(2) unfolding holds_def own by simp
  qed
  show "holds os k0 (k\<lparr>k_fds := k_fds k - {?fd}\<rparr>) (fm\<lparr>fm_fd := ?I\<rparr>)" if "?m = ?I" "?fd \<noteq> ?I"
  proof -
    have "?fd \<notin> k_fds k0" using K(2) that by auto
    then have "k_fds k - {?fd} = k_fds k0 \<union> ({?m} - {?I})" unfolding K(1) using that by auto
    moreover have "({?m} - {?I}) \<inter> k_fds k0 = {}" using that by auto
    ultimately show ?thesis using assms(2) unfolding holds_def own by simp
  qed
qed

lemma win_close_holds:
  assumes win: "os_platform os = Windows" and h: "holds os k0 k fm"
    and run: "run_state (k_windows_close os en fm) k = ((fm', r), k')"
  shows "holds os k0 k' fm' \<and> (\<forall>e. r = Inl e \<longrightarrow> reports os en e)"
proof (cases "fm_start fm \<noteq> 0 \<and> call_fails os (Unmap_view_of_file (fm_start fm))")
  case True
  then show ?thesis using run h by (auto simp: k_windows_close_def throw_new_win_def sys_call_defs sys_after_simps)
next
  case False
  let ?I = INVALID_HANDLE_VALUE
  define fm1 where "fm1 = fm\<lparr>fm_start := 0\<rparr>"
  define k1 where "k1 = (if fm_start fm = 0 then k else k\<lparr>k_maps := (k_maps k)(fm_start fm := None)\<rparr>)"
  have h1: "holds os k0 k1 fm1"
  proof (cases "fm_start fm = 0")
    case True
    then have "fm1 = fm" by (simp add: fm1_def)
    then show ?thesis using True h by (simp add: k1_def)
  qed (use holds_unmap [OF h] in \<open>simp add: k1_def fm1_def\<close>)
  let ?m = "fm_mapping_handle fm1"
  have run1: "run_state (k_windows_close os en fm) k = run_state (k_windows_close os en fm1) k1"
    using False by (cases "fm_start fm = 0") (simp_all add: k_windows_close_def sys_call_defs sys_after_simps fm1_def k1_def)
  show ?thesis
  proof (cases "?m \<noteq> ?I \<and> call_fails os (Close_handle ?m)")
    case True
    then show ?thesis using run1 run h1 by (auto simp: k_windows_close_def throw_new_win_def sys_call_defs sys_after_simps fm1_def)
  next
    case closed: False
    define fm2 where "fm2 = fm1\<lparr>fm_mapping_handle := ?I\<rparr>"
    define k2 where "k2 = (if ?m = ?I then k1 else k1\<lparr>k_fds := k_fds k1 - {?m}\<rparr>)"
    have h2: "holds os k0 k2 fm2"
    proof (cases "?m = ?I")
      case True
      then have "fm2 = fm1" by (cases fm1) (simp add: fm2_def)
      then show ?thesis using True h1 by (simp add: k2_def)
    qed (use holds_win_closed(1) [OF win h1] in \<open>simp add: k2_def fm2_def\<close>)
    have run2: "run_state (k_windows_close os en fm1) k1 = run_state (k_windows_close os en fm2) k2"
      using closed by (cases "?m = ?I") (simp_all add: k_windows_close_def sys_call_defs sys_after_simps fm1_def fm2_def k2_def)
    have m2: "fm_start fm2 = 0" "fm_mapping_handle fm2 = ?I" by (simp_all add: fm1_def fm2_def)
    have idem': "fm2\<lparr>fm_fd := ?I\<rparr> = fm2" if "fm_fd fm2 = ?I" using that by (cases fm2) simp
    have idem: "fm2\<lparr>fm_start := 0, fm_mapping_handle := ?I\<rparr> = fm2" by (simp add: fm1_def fm2_def)
    have "run_state (k_windows_close os en fm2) k2 =
      (if fm_fd fm2 = ?I then ((fm2, Inr ()), k2)
       else if call_fails os (Close_handle (fm_fd fm2))
         then ((fm2, Inl (Win_error \<lparr>we_code = en (Close_handle (fm_fd fm2)), we_buffer = 0\<rparr>)), k2\<lparr>k_errno := en (Close_handle (fm_fd fm2))\<rparr>)
       else ((fm2\<lparr>fm_fd := ?I\<rparr>, Inr ()), k2\<lparr>k_fds := k_fds k2 - {fm_fd fm2}\<rparr>))"
      using m2 idem idem' by (auto simp: k_windows_close_def throw_new_win_def sys_call_defs sys_after_def)
    then show ?thesis
      using run run1 run2 h2 holds_win_closed(2) [OF win h2 m2(2)] by (auto split: if_split_asm)
  qed
qed

section \<open>The life of a file map\<close>

text \<open>A file map is opened, resized any number of times while its address is not null, and closed, whether these calls
  succeed or throw. The last argument tells whether one of them threw.\<close>

inductive fm_life :: "os_env \<Rightarrow> (sys_call \<Rightarrow> int) \<Rightarrow> kernel \<Rightarrow> kernel \<Rightarrow> file_map \<Rightarrow> bool \<Rightarrow> bool" for os en k0 where
  opened: "run_state (k_open os en f ro n) k0 = (Inr fm, k) \<Longrightarrow> fm_life os en k0 k fm False"
| resized: "fm_life os en k0 k fm threw \<Longrightarrow> fm_start fm \<noteq> 0 \<Longrightarrow> fresh_maps os k (fm_start fm) \<Longrightarrow>
    run_state (k_resize os en fm n) k = ((fm', r), k') \<Longrightarrow> fm_life os en k0 k' fm' (threw \<or> r \<noteq> Inr ())"
| closed: "fm_life os en k0 k fm threw \<Longrightarrow> run_state (k_close os en fm) k = ((fm', r), k') \<Longrightarrow>
    fm_life os en k0 k' fm' (threw \<or> r \<noteq> Inr ())"

lemma k_open_spec:
  assumes "os_releases os" and "fresh_files os k" and "fresh_maps os k 0" and "run_state (k_open os en f ro n) k = (x, k')"
  shows "case x of Inl e \<Rightarrow> same_resources k k' \<and> reports os en e | Inr fm \<Rightarrow> holds os k k' fm"
proof (cases "os_platform os = Windows")
  case True
  then show ?thesis using win_open [OF True assms(1-3)] assms(4) by (simp add: k_open_def)
next
  case False
  then have "run_state (k_unix_open os en f ro n) k = (x, k')" using assms(4) by (cases "os_platform os") (simp_all add: k_open_def)
  then show ?thesis using unix_open_holds [OF False assms(2,3)] unix_open_fails [OF assms(1,2)] by (auto split: sum.split)
qed

lemma k_resize_spec:
  assumes "os_releases os" and h: "holds os k0 k fm \<or> unmapped os k0 k fm" and "fm_start fm \<noteq> 0" and fresh: "fresh_maps os k (fm_start fm)"
    and run: "run_state (k_resize os en fm n) k = ((fm', r), k')"
  shows "(holds os k0 k' fm' \<or> unmapped os k0 k' fm' \<and> (unmapped os k0 k fm \<or> r \<noteq> Inr ())) \<and> (\<forall>e. r = Inl e \<longrightarrow> reports os en e)"
proof (cases "os_platform os")
  case Linux
  then have "holds os k0 k fm" using h by (simp add: unmapped_def)
  then show ?thesis using linux_resize_holds [OF _ assms(3) fresh] run Linux by (simp add: k_resize_def)
next
  case MacOS
  then show ?thesis using macos_resize_any [OF MacOS h assms(3) fresh] run by (simp add: k_resize_def)
next
  case Windows
  then have "holds os k0 k fm" using h by (simp add: unmapped_def)
  moreover have "0 \<notin> k_fds k" by (rule fresh_mapsD(8) [OF fresh Windows])
  moreover have "run_state (k_windows_resize os en fm n) k = ((fm', r), k')" using run Windows by (simp add: k_resize_def)
  moreover have "os_CreateFileMapping os (fm_fd fm) (\<not> fm_read_only fm) (n mod 2 ^ 32) \<notin> insert (fm_fd fm) (k_fds k)"
    using fresh_mapsD(4,5) [OF fresh] by simp
  ultimately show ?thesis
    using win_resize_holds [OF Windows assms(1) _ _ refl refl fresh_mapsD(6) [OF fresh] fresh_mapsD(7) [OF fresh]] by blast
qed

lemma k_close_spec:
  assumes "holds os k0 k fm \<or> unmapped os k0 k fm" and "run_state (k_close os en fm) k = ((fm', r), k')"
  shows "(holds os k0 k' fm' \<or> unmapped os k0 k' fm' \<and> unmapped os k0 k fm) \<and> (\<forall>e. r = Inl e \<longrightarrow> reports os en e)"
proof (cases "os_platform os = Windows")
  case True
  then have "holds os k0 k fm" using assms(1) by (simp add: unmapped_def)
  then show ?thesis using win_close_holds [OF True] assms(2) True by (simp add: k_close_def)
next
  case False
  then have "run_state (k_unix_close os en fm) k = ((fm', r), k')" using assms(2) by (cases "os_platform os") (simp_all add: k_close_def)
  then show ?thesis by (rule unix_close_any [OF False assms(1)])
qed

lemma fm_life_holds:
  assumes "fm_life os en k0 k fm threw" and "os_releases os" and "fresh_files os k0" and "fresh_maps os k0 0"
  shows "holds os k0 k fm \<or> threw \<and> unmapped os k0 k fm"
  using assms(1)
proof induction
  case (opened f ro n fm k)
  then show ?case using k_open_spec [OF assms(2-4)] by fastforce
next
  case (resized k fm threw n fm' r k')
  from resized.IH have "holds os k0 k fm \<or> unmapped os k0 k fm" by blast
  from k_resize_spec [OF assms(2) this resized.hyps(2-4)] resized.IH holds_not_unmapped show ?case by blast
next
  case (closed k fm threw fm' r k')
  from closed.IH have "holds os k0 k fm \<or> unmapped os k0 k fm" by blast
  from k_close_spec [OF this closed.hyps(2)] closed.IH holds_not_unmapped show ?case by blast
qed

section \<open>Properties\<close>

text \<open>Leaving out the kernel, the calls are those of \<^verbatim>\<open>File_Map\<close>: opening, resizing and closing have the same outcome and leave
  the same object, and so does the destructor.\<close>

lemma file_calls_refine:
  "forget (fst (run_state (k_open os en f ro n) k)) = fm_open os f ro n"
  "run_state (k_resize os en fm n) k = ((fm', r), k') \<Longrightarrow> x_fm_resize os fm n = (fm', forget r)"
  "run_state (k_close os en fm) k = ((fm', r), k') \<Longrightarrow> fm_close os fm = (fm', forget r)"
  "fst (fst (run_state (k_destroy os en what fm) k)) = fm_destroy os fm"
proof -
  have close: "fm_close os fm = (fm', forget r)" if "run_state (k_close os en fm) k = ((fm', r), k')" for fm' r k'
    using that by (cases "os_platform os") (simp_all add: k_close_def fm_close_def k_unix_close_forget k_windows_close_forget)
  obtain fm' r k' where run: "run_state (k_close os en fm) k = ((fm', r), k')" by (metis prod.exhaust)
  show "fst (fst (run_state (k_destroy os en what fm) k)) = fm_destroy os fm"
    using close [OF run] run by (simp add: k_destroy_def fm_destroy_def)
  show "run_state (k_close os en fm) k = ((fm', r), k') \<Longrightarrow> fm_close os fm = (fm', forget r)" for fm' r k' by (rule close)
  show "forget (fst (run_state (k_open os en f ro n) k)) = fm_open os f ro n"
    by (cases "os_platform os") (simp_all add: k_open_def fm_open_def k_unix_open_forget k_windows_open_forget)
  show "run_state (k_resize os en fm n) k = ((fm', r), k') \<Longrightarrow> x_fm_resize os fm n = (fm', forget r)" for fm' r k'
  proof (cases "os_platform os")
    case Linux
    moreover assume run: "run_state (k_resize os en fm n) k = ((fm', r), k')"
    ultimately have r: "run_state (k_linux_resize os en fm n) k = ((fm', r), k')" by (simp add: k_resize_def)
    show ?thesis using k_linux_resize_forget [OF r, symmetric] k_resize_throws(1) [of os en fm n k fm'] r Linux by (cases r) (auto simp: x_fm_resize_def)
  next
    case MacOS
    moreover assume run: "run_state (k_resize os en fm n) k = ((fm', r), k')"
    ultimately show ?thesis using k_macos_resize_forget by (simp add: k_resize_def x_fm_resize_def)
  next
    case Windows
    moreover assume run: "run_state (k_resize os en fm n) k = ((fm', r), k')"
    ultimately have r: "run_state (k_windows_resize os en fm n) k = ((fm', r), k')" by (simp add: k_resize_def)
    show ?thesis using k_windows_resize_forget [OF r, symmetric] k_resize_throws(2) [of os en fm n k fm'] r Windows by (cases r) (auto simp: x_fm_resize_def)
  qed
qed

text \<open>A system to evaluate examples on: the one of \<^verbatim>\<open>File_Map\<close> with fresh handles and addresses.\<close>

definition demo_calls :: os_env where
  "demo_calls = demo_os\<lparr>os_CreateFileMapping := (\<lambda>h _ _. max h 0 + 100), os_MapViewOfFile := (\<lambda>h _ _. if h = 0 then 0 else 16384)\<rparr>"

lemma demo_fresh: "os_releases demo_calls" "fresh_files demo_calls demo_kernel" "fresh_maps demo_calls demo_kernel 0"
  by (auto simp: demo_calls_def demo_os_def demo_kernel_def os_releases_def fresh_files_def fresh_maps_def INVALID_HANDLE_VALUE_def max_def)

text \<open>C14. A constructor that throws leaks nothing and reports the call that failed: the process holds the
  descriptors, handles and mappings it held before, and the exception carries the error number of a failed
  call, whatever the calls that clean up did to the number.\<close>

theorem failed_open_leaks_nothing:
  assumes "os_releases os" and "fresh_files os k" and "fresh_maps os k 0" and "run_state (k_open os en f ro n) k = (Inl e, k')"
  shows "k_fds k' = k_fds k \<and> k_maps k' = k_maps k \<and> (\<exists>call. call_fails os call \<and> thrown_code e = en call)"
  using k_open_spec [OF assms] by (simp add: reports_def)

theorem failed_open_leaks_nothing_witness:
  "\<exists>e k'. run_state (k_open (demo_calls\<lparr>os_mmap := (\<lambda>_ _ _. None)\<rparr>) (\<lambda>_. 12) ''db'' False 100) demo_kernel = (Inl e, k')
    \<and> k_fds k' = k_fds demo_kernel \<and> k_maps k' = k_maps demo_kernel"
proof -
  let ?os = "demo_calls\<lparr>os_mmap := (\<lambda>_ _ _. None)\<rparr>"
  have "\<exists>e k'. run_state (k_open ?os (\<lambda>_. 12) ''db'' False 100) demo_kernel = (Inl e, k')"
    by (simp add: k_open_def k_unix_open_def close_and_throw_def sys_call_defs demo_calls_def demo_os_def)
  moreover have "os_releases ?os" "fresh_files ?os demo_kernel" "fresh_maps ?os demo_kernel 0"
    using demo_fresh by (simp_all add: os_releases_def fresh_files_def fresh_maps_def)
  ultimately show ?thesis using failed_open_leaks_nothing [of ?os demo_kernel "\<lambda>_. 12" "''db''" False 100] by blast
qed

text \<open>C6. At every moment of its life, a file map holds exactly its own descriptor or handles and its one mapping
  beside what the process held before, also after calls that threw, with one exception: on macOS, after some call threw, it may
  have lost the mapping, and then it holds its descriptor only, and nothing else is lost or leaked. Once it is closed the
  process holds what it held before, whatever happened.\<close>

theorem file_map_owns:
  assumes "fm_life os en k0 k fm threw" and "os_releases os" and "fresh_files os k0" and "fresh_maps os k0 0"
  shows "k_fds k = k_fds k0 \<union> own_handles os fm
    \<and> (k_maps k = k_maps k0 ++ own_maps fm \<or> os_platform os = MacOS \<and> threw \<and> fm_start fm \<noteq> 0 \<and> k_maps k = k_maps k0)
    \<and> (fm_closed os fm \<longrightarrow> k_fds k = k_fds k0 \<and> k_maps k = k_maps k0)"
proof -
  have h: "holds os k0 k fm \<or> threw \<and> unmapped os k0 k fm" by (rule fm_life_holds [OF assms])
  have "own_handles os fm = {}" "own_maps fm = (\<lambda>_. None)" if "fm_closed os fm"
    using that by (auto simp: fm_closed_def own_handles_def own_maps_def INVALID_HANDLE_VALUE_def)
  moreover have "unmapped os k0 k fm \<Longrightarrow> k_maps k = k_maps k0 \<and> k_fds k = k_fds k0 \<union> own_handles os fm \<and> os_platform os = MacOS \<and> fm_start fm \<noteq> 0"
    using unmapped_maps [of os k0 k fm] by (simp add: unmapped_def holds_def)
  moreover have "holds os k0 k fm \<Longrightarrow> k_maps k = k_maps k0 ++ own_maps fm \<and> k_fds k = k_fds k0 \<union> own_handles os fm" by (simp add: holds_def)
  moreover have "k_maps k0 ++ (\<lambda>_. None) = k_maps k0" by (simp add: map_add_def)
  ultimately show ?thesis using h by (elim disjE) auto
qed

theorem file_map_owns_witness:
  "\<exists>k fm. fm_life demo_calls (\<lambda>_. 5) demo_kernel k fm False \<and> fm_closed demo_calls fm \<and> k_fds k = k_fds demo_kernel \<and> k_maps k = k_maps demo_kernel"
proof -
  let ?fm = "\<lparr>fm_read_only = False, fm_fd = 3, fm_mapping_handle = INVALID_HANDLE_VALUE, fm_start = 4096, fm_length = 100, fm_extent = 4096\<rparr>"
  let ?k = "demo_kernel\<lparr>k_fds := {3}, k_maps := [4096 \<mapsto> 100]\<rparr>"
  let ?fm' = "?fm\<lparr>fm_start := 8192, fm_length := 5000, fm_extent := 8192\<rparr>"
  let ?k' = "demo_kernel\<lparr>k_fds := {3}, k_maps := [8192 \<mapsto> 5000]\<rparr>"
  let ?fm'' = "?fm'\<lparr>fm_start := 0, fm_fd := -1\<rparr>" and ?k'' = "?k'\<lparr>k_fds := {}, k_maps := (\<lambda>_. None)\<rparr>"
  have "run_state (k_open demo_calls (\<lambda>_. 5) ''db'' False 100) demo_kernel = (Inr ?fm, ?k)"
    by (simp add: k_open_def k_unix_open_def sys_call_defs sys_after_def demo_calls_def demo_os_def demo_kernel_def page_ceil_def)
  then have "fm_life demo_calls (\<lambda>_. 5) demo_kernel ?k ?fm False" by (rule fm_life.opened)
  moreover have "fresh_maps demo_calls ?k (fm_start ?fm)"
    by (auto simp: demo_calls_def demo_os_def demo_kernel_def fresh_maps_def max_def)
  moreover have "run_state (k_resize demo_calls (\<lambda>_. 5) ?fm 5000) ?k = ((?fm', Inr ()), ?k')"
    by (simp add: k_resize_def k_linux_resize_def k_grow_file_def sys_call_defs sys_after_def demo_calls_def demo_os_def demo_kernel_def page_ceil_def)
  ultimately have "fm_life demo_calls (\<lambda>_. 5) demo_kernel ?k' ?fm' False"
    using fm_life.resized [of demo_calls "\<lambda>_. 5" demo_kernel ?k ?fm False 5000 ?fm' "Inr ()" ?k'] by simp
  moreover have "run_state (k_close demo_calls (\<lambda>_. 5) ?fm') ?k' = ((?fm'', Inr ()), ?k'')"
    by (simp add: k_close_def k_unix_close_def sys_call_defs sys_after_def demo_calls_def demo_os_def demo_kernel_def)
  ultimately have life: "fm_life demo_calls (\<lambda>_. 5) demo_kernel ?k'' ?fm'' False"
    using fm_life.closed [of demo_calls "\<lambda>_. 5" demo_kernel ?k' ?fm' False ?fm'' "Inr ()" ?k''] by simp
  moreover have "fm_closed demo_calls ?fm''" by (simp add: fm_closed_def demo_calls_def demo_os_def)
  ultimately show ?thesis using file_map_owns [OF life demo_fresh] by blast
qed

text \<open>On macOS, where \<open>resize\<close> unmaps before it maps again, a failure of the second call leaves the object with
  the address of a mapping that is gone, while the calls before it and every failure on the other platforms
  leave it as it was.\<close>

theorem macos_resize_dangles:
  assumes "os_platform os = MacOS" and "n \<noteq> fm_length fm" and "\<not> call_fails os (Sys_lseek (fm_fd fm) n)" and "\<not> call_fails os (Sys_write (fm_fd fm) n)"
    and "\<not> call_fails os (Sys_munmap (fm_start fm) (fm_length fm))" and "call_fails os (Sys_mmap (fm_fd fm) n (\<not> fm_read_only fm))"
  shows "\<exists>e k'. run_state (k_resize os en fm n) k = ((fm\<lparr>fm_extent := 0\<rparr>, Inl e), k') \<and> k_maps k' (fm_start fm) = None \<and> reports os en e"
  using assms by (auto simp: k_resize_def k_macos_resize_def k_grow_file_def throw_new_def sys_call_defs sys_after_def)

theorem macos_resize_dangles_witness:
  "\<exists>e k'. run_state (k_resize (demo_calls\<lparr>os_platform := MacOS, os_mmap := (\<lambda>_ _ _. None)\<rparr>) (\<lambda>_. 12) demo_fm 5000)
      (demo_kernel\<lparr>k_maps := [4096 \<mapsto> 100]\<rparr>) = ((demo_fm\<lparr>fm_extent := 0\<rparr>, Inl e), k') \<and> k_maps k' 4096 = None"
  using macos_resize_dangles [of "demo_calls\<lparr>os_platform := MacOS, os_mmap := (\<lambda>_ _ _. None)\<rparr>" 5000 demo_fm "\<lambda>_. 12"]
  by (fastforce simp: demo_calls_def demo_os_def demo_fm_def)

end
