(* ===== verification/Python_Base64.thy ===== *)
theory Python_Base64
  imports Base64url
begin

text \<open>
  The encoding of keys in the Python client, \<^verbatim>\<open>src/python/diskhash/client.py\<close>, over the functions of the Python module
  \<^verbatim>\<open>base64\<close> that it uses: the encoder in groups of three bytes, with padding, and the decoder of \<^verbatim>\<open>binascii\<close>, which skips
  characters outside the alphabet, stops at a complete padding and rejects an incomplete group. Both are independent of the
  codec of the server; the properties say that the two understand each other.
\<close>

section \<open>Model\<close>

definition std_chars :: bytes where
  "std_chars = ascii ''ABCDEFGHIJKLMNOPQRSTUVWXYZabcdefghijklmnopqrstuvwxyz0123456789+/''"

definition std_char :: "byte \<Rightarrow> byte" where
  "std_char x = std_chars ! unat x"

definition std_index :: "byte \<Rightarrow> byte option" where
  "std_index c =
     (if 0x41 \<le> c \<and> c \<le> 0x5A then Some (c - 0x41)
      else if 0x61 \<le> c \<and> c \<le> 0x7A then Some (c - 0x47)
      else if 0x30 \<le> c \<and> c \<le> 0x39 then Some (c + 4)
      else if c = 0x2B then Some 62
      else if c = 0x2F then Some 63
      else None)"

fun b2a_base64 :: "bytes \<Rightarrow> bytes" where
  "b2a_base64 [] = []"
| "b2a_base64 [a] = [std_char (drop_bit 2 a), std_char (push_bit 4 (a AND 3)), 0x3D, 0x3D]"
| "b2a_base64 [a, b] = [std_char (drop_bit 2 a), std_char (push_bit 4 (a AND 3) OR drop_bit 4 b), std_char (push_bit 2 (b AND 15)), 0x3D]"
| "b2a_base64 (a # b # c # s) =
     std_char (drop_bit 2 a) # std_char (push_bit 4 (a AND 3) OR drop_bit 4 b) # std_char (push_bit 2 (b AND 15) OR drop_bit 6 c)
     # std_char (c AND 63) # b2a_base64 s"

text \<open>The position in the group of four, the padding seen, the bits left over, the output; \<open>None\<close> is \<^verbatim>\<open>binascii.Error\<close>.\<close>

fun a2b_base64 :: "bytes \<Rightarrow> nat \<Rightarrow> nat \<Rightarrow> byte \<Rightarrow> bytes \<Rightarrow> bytes option" where
  "a2b_base64 [] quad pads left out = (if quad = 0 then Some out else None)"
| "a2b_base64 (c # s) quad pads left out =
     (if c = 0x3D then
        (if quad \<ge> 2 \<and> quad + pads + 1 \<ge> 4 then Some out
         else a2b_base64 s quad (if quad \<ge> 2 then pads + 1 else pads) left out)
      else
        (case std_index c of
           None \<Rightarrow> a2b_base64 s quad pads left out
         | Some d \<Rightarrow>
             (if quad = 0 then a2b_base64 s 1 0 d out
              else if quad = 1 then a2b_base64 s 2 0 (d AND 15) (out @ [push_bit 2 left OR drop_bit 4 d])
              else if quad = 2 then a2b_base64 s 3 0 (d AND 3) (out @ [push_bit 4 left OR drop_bit 2 d])
              else a2b_base64 s 0 0 0 (out @ [push_bit 6 left OR d]))))"

definition to_urlsafe :: "byte \<Rightarrow> byte" where
  "to_urlsafe c = (if c = 0x2B then 0x2D else if c = 0x2F then 0x5F else c)"

definition from_urlsafe :: "byte \<Rightarrow> byte" where
  "from_urlsafe c = (if c = 0x2D then 0x2B else if c = 0x5F then 0x2F else c)"

definition urlsafe_b64encode :: "bytes \<Rightarrow> bytes" where
  "urlsafe_b64encode s = map to_urlsafe (b2a_base64 s)"

definition urlsafe_b64decode :: "bytes \<Rightarrow> bytes option" where
  "urlsafe_b64decode s = a2b_base64 (map from_urlsafe s) 0 0 0 []"

text \<open>\<^verbatim>\<open>str.rstrip\<close> with one character.\<close>

definition rstrip :: "byte \<Rightarrow> bytes \<Rightarrow> bytes" where
  "rstrip c s = rev (dropWhile (\<lambda>x. x = c) (rev s))"

definition encode_key :: "bytes \<Rightarrow> bytes" where
  "encode_key key = rstrip 0x3D (urlsafe_b64encode key)"

definition decode_key :: "bytes \<Rightarrow> bytes option" where
  "decode_key encoded =
     (let padding = 4 - length encoded mod 4 in
      urlsafe_b64decode (if padding \<noteq> 4 then encoded @ replicate padding 0x3D else encoded))"

section \<open>The alphabet\<close>

lemma std_table: "list_all (\<lambda>i. std_index (std_chars ! i) = Some (of_nat i)) [0..<64]"
  by code_simp

lemma std_urlsafe: "list_all (\<lambda>i. to_urlsafe (std_chars ! i) = base64url_chars ! i) [0..<64]"
  by code_simp

lemma std_plain: "list_all (\<lambda>c. c \<noteq> 0x3D \<and> from_urlsafe (to_urlsafe c) = c) std_chars"
  by code_simp

lemma std_char_facts:
  assumes "unat x < 64"
  shows "std_index (std_char x) = Some x" "std_char x \<noteq> 0x3D" "to_urlsafe (std_char x) = base64url_chars ! unat x"
    "from_urlsafe (to_urlsafe (std_char x)) = std_char x"
proof -
  have "std_chars ! unat x \<in> set std_chars" using assms by (intro nth_mem) (simp add: std_chars_def ascii_def)
  then show "std_index (std_char x) = Some x" "std_char x \<noteq> 0x3D" "to_urlsafe (std_char x) = base64url_chars ! unat x"
    "from_urlsafe (to_urlsafe (std_char x)) = std_char x"
    using assms std_table std_urlsafe std_plain by (auto simp: list_all_iff std_char_def)
qed

lemma six_bits:
  fixes a b c :: byte
  shows "unat (drop_bit 2 a) < 64" "unat (push_bit 4 (a AND 3)) < 64" "unat (push_bit 4 (a AND 3) OR drop_bit 4 b) < 64"
    "unat (push_bit 2 (b AND 15)) < 64" "unat (push_bit 2 (b AND 15) OR drop_bit 6 c) < 64" "unat (c AND 63) < 64"
proof -
  have six: "unat x < 64" if "\<not> bit x 6" "\<not> bit x 7" for x :: byte
  proof -
    have "x = take_bit 6 x" by (rule byte_eqI) (use that in \<open>simp_all add: bit_simps\<close>)
    then have "unat x = take_bit 6 (unat x)" by (metis unsigned_take_bit_eq)
    then show ?thesis using take_bit_nat_less_exp [of 6 "unat x"] by simp
  qed
  show "unat (drop_bit 2 a) < 64" "unat (push_bit 4 (a AND 3)) < 64" "unat (push_bit 4 (a AND 3) OR drop_bit 4 b) < 64"
    "unat (push_bit 2 (b AND 15)) < 64" "unat (push_bit 2 (b AND 15) OR drop_bit 6 c) < 64" "unat (c AND 63) < 64"
    by (rule six; simp add: bit_simps)+
qed

section \<open>The two encoders\<close>

lemma six_eqI:
  fixes x :: int32 and y :: byte
  assumes "bit x 0 = bit y 0" "bit x 1 = bit y 1" "bit x 2 = bit y 2" "bit x 3 = bit y 3" "bit x 4 = bit y 4" "bit x 5 = bit y 5"
    "\<not> bit y 6" "\<not> bit y 7"
  shows "sextet x = base64url_chars ! unat y"
proof -
  have "x AND 0x3F = ucast y"
  proof (rule bit_word_eqI)
    fix n assume "n < LENGTH(32)"
    have mask: "(0x3F :: int32) = mask 6" by (simp add: mask_eq_exp_minus_1)
    consider "n = 0" | "n = 1" | "n = 2" | "n = 3" | "n = 4" | "n = 5" | "n = 6" | "n = 7" | "8 \<le> n" by linarith
    then show "bit (x AND 0x3F) n = bit (ucast y :: int32) n" using assms unfolding mask by cases (simp_all add: bit_simps)
  qed
  then have "unat (x AND 0x3F) = unat (ucast y :: int32)" by simp
  also have "\<dots> = unat y" using unsigned_less [of y, where 'a = nat] by (simp add: unsigned_ucast_eq take_bit_nat_eq_self)
  finally show ?thesis by (simp add: sextet_def)
qed

lemma sextets:
  fixes a b c :: byte and v :: int32
  assumes v1: "v1 = push_bit 8 v OR ucast a" and v2: "v2 = push_bit 8 v1 OR ucast b" and v3: "v3 = push_bit 8 v2 OR ucast c"
  shows "sextet (signed_drop_bit 2 v1) = to_urlsafe (std_char (drop_bit 2 a))"
    and "sextet (signed_drop_bit 4 v2) = to_urlsafe (std_char (push_bit 4 (a AND 3) OR drop_bit 4 b))"
    and "sextet (signed_drop_bit 6 v3) = to_urlsafe (std_char (push_bit 2 (b AND 15) OR drop_bit 6 c))"
    and "sextet v3 = to_urlsafe (std_char (c AND 63))"
    and "sextet (push_bit 4 v1) = to_urlsafe (std_char (push_bit 4 (a AND 3)))"
    and "sextet (push_bit 2 v2) = to_urlsafe (std_char (push_bit 2 (b AND 15)))"
  unfolding std_char_facts(3) [OF six_bits(1)] std_char_facts(3) [OF six_bits(2)] std_char_facts(3) [OF six_bits(3)]
    std_char_facts(3) [OF six_bits(4)] std_char_facts(3) [OF six_bits(5)] std_char_facts(3) [OF six_bits(6)]
  by (rule six_eqI; simp add: v3 v2 v1 bit_simps)+

definition padding :: "bytes \<Rightarrow> bytes" where
  "padding s = replicate ((3 - length s mod 3) mod 3) 0x3D"

lemma padding_simps: "padding [] = []" "padding [a] = [0x3D, 0x3D]" "padding [a, b] = [0x3D]" "padding (a # b # c # s) = padding s"
  by (simp_all add: padding_def numeral_2_eq_2)

lemma encoders_agree: "encode_rest (encode_loop s v 0 r) @ padding s = r @ urlsafe_b64encode s"
proof (induction s arbitrary: v r rule: group_induct)
  case none
  then show ?case by (simp add: encode_rest_simps padding_def urlsafe_b64encode_def)
next
  case (one a)
  show ?case
    by (simp only: encode_groups(1) [OF refl refl refl] sextets [OF refl refl refl] padding_simps urlsafe_b64encode_def)
      (simp add: to_urlsafe_def)
next
  case (two a b)
  show ?case
    by (simp only: encode_groups(2) [OF refl refl refl] sextets [OF refl refl refl] padding_simps urlsafe_b64encode_def)
      (simp add: to_urlsafe_def)
next
  case (three a b c s)
  show ?case
    by (simp only: encode_groups(3) [OF refl refl refl] three sextets [OF refl refl refl] padding_simps urlsafe_b64encode_def b2a_base64.simps)
      simp
qed

lemma urlsafe_is_padded: "urlsafe_b64encode s = base64url_encode s @ padding s"
  using encoders_agree [of s 0 "[]"] by (simp add: base64url_encode_def)

lemma rstrip_padding: "c \<notin> set s \<Longrightarrow> rstrip c (s @ replicate n c) = s"
proof (induction n)
  case 0
  have "dropWhile (\<lambda>x. x = c) (rev s) = rev s" using 0 by (intro dropWhile_eq_self_iff [THEN iffD2]) (cases s rule: rev_cases, auto)
  then show ?case by (simp add: rstrip_def)
next
  case (Suc n)
  have "rstrip c (s @ replicate (Suc n) c) = rstrip c (s @ replicate n c)"
    unfolding rstrip_def replicate_Suc replicate_append_same [symmetric] by simp
  then show ?case using Suc by simp
qed

section \<open>The decoder\<close>

lemma regrouped:
  fixes a b c :: byte
  shows "push_bit 2 (drop_bit 2 a) OR drop_bit 4 (push_bit 4 (a AND 3) OR drop_bit 4 b) = a"
    and "push_bit 2 (drop_bit 2 a) OR drop_bit 4 (push_bit 4 (a AND 3)) = a"
    and "push_bit 4 ((push_bit 4 (a AND 3) OR drop_bit 4 b) AND 15) OR drop_bit 2 (push_bit 2 (b AND 15) OR drop_bit 6 c) = b"
    and "push_bit 4 ((push_bit 4 (a AND 3) OR drop_bit 4 b) AND 15) OR drop_bit 2 (push_bit 2 (b AND 15)) = b"
    and "push_bit 6 ((push_bit 2 (b AND 15) OR drop_bit 6 c) AND 3) OR (c AND 63) = c"
  by (rule byte_eqI; simp add: bit_simps)+

lemma a2b_steps:
  assumes "unat x < 64"
  shows "a2b_base64 (std_char x # s) 0 p l out = a2b_base64 s 1 0 x out"
    and "a2b_base64 (std_char x # s) 1 p l out = a2b_base64 s 2 0 (x AND 15) (out @ [push_bit 2 l OR drop_bit 4 x])"
    and "a2b_base64 (std_char x # s) 2 p l out = a2b_base64 s 3 0 (x AND 3) (out @ [push_bit 4 l OR drop_bit 2 x])"
    and "a2b_base64 (std_char x # s) 3 p l out = a2b_base64 s 0 0 0 (out @ [push_bit 6 l OR x])"
  using std_char_facts(1,2) [OF assms] by simp_all

lemma a2b_padding: "a2b_base64 [0x3D, 0x3D] 2 0 l out = Some out" "a2b_base64 [0x3D] 3 0 l out = Some out" "a2b_base64 [] 0 0 0 out = Some out"
  by simp_all

lemmas a2b_rules = b2a_base64.simps a2b_steps [OF six_bits(1)] a2b_steps [OF six_bits(2)] a2b_steps [OF six_bits(3)] a2b_steps [OF six_bits(4)]
  a2b_steps [OF six_bits(5)] a2b_steps [OF six_bits(6)] a2b_padding regrouped append_assoc append.simps

lemma a2b_b2a: "a2b_base64 (b2a_base64 s) 0 0 0 out = Some (out @ s)"
proof (induction s arbitrary: out rule: group_induct)
  case (three a b c s)
  show ?case by (simp only: a2b_rules three)
qed (simp_all only: a2b_rules append_Nil2)

lemma pad_urlsafe: "from_urlsafe (to_urlsafe 0x3D) = 0x3D"
  by (simp add: from_urlsafe_def to_urlsafe_def)

lemmas urlsafe_rules = b2a_base64.simps list.map std_char_facts(4) [OF six_bits(1)] std_char_facts(4) [OF six_bits(2)]
  std_char_facts(4) [OF six_bits(3)] std_char_facts(4) [OF six_bits(4)] std_char_facts(4) [OF six_bits(5)] std_char_facts(4) [OF six_bits(6)]
  pad_urlsafe

lemma from_to_urlsafe: "map from_urlsafe (map to_urlsafe (b2a_base64 s)) = b2a_base64 s"
proof (induction s rule: group_induct)
  case (three a b c s)
  show ?case by (simp only: urlsafe_rules three)
qed (simp_all only: urlsafe_rules)

lemma decode_key_pads: "decode_key (base64url_encode s) = urlsafe_b64decode (base64url_encode s @ padding s)"
proof -
  have l: "length (base64url_encode s) = (4 * length s + 2) div 3" by (rule length_base64url_encode)
  define q where "q = length s div 3"
  consider "length s = 3 * q" | "length s = 3 * q + 1" | "length s = 3 * q + 2" unfolding q_def by linarith
  then show ?thesis
  proof cases
    case 1
    then have "length (base64url_encode s) = 4 * q" using l by simp
    then show ?thesis using 1 by (simp add: decode_key_def padding_def)
  next
    case 2
    then have "length (base64url_encode s) = 4 * q + 2" using l by simp
    moreover have "(4 * q + 2) mod 4 = 2" by presburger
    ultimately have "length (base64url_encode s) mod 4 = 2" by (simp only:)
    then show ?thesis using 2 by (simp add: decode_key_def padding_def Let_def)
  next
    case 3
    then have "length (base64url_encode s) = 4 * q + 3" using l by simp
    moreover have "(4 * q + 3) mod 4 = 3" by presburger
    ultimately have "length (base64url_encode s) mod 4 = 3" by (simp only:)
    moreover have "(3 * q + 2) mod 3 = 2" by presburger
    then have "length s mod 3 = 2" by (simp only: 3)
    ultimately show ?thesis by (simp add: decode_key_def padding_def Let_def)
  qed
qed

lemma encode_key_eq: "encode_key s = base64url_encode s"
  unfolding encode_key_def urlsafe_is_padded padding_def using base64url_encode_plain(1) by (intro rstrip_padding) auto

lemma decode_key_eq: "decode_key (base64url_encode s) = Some s"
  unfolding decode_key_pads urlsafe_is_padded [symmetric] by (simp only: urlsafe_b64decode_def urlsafe_b64encode_def from_to_urlsafe a2b_b2a) simp

section \<open>Properties\<close>

text \<open>C31. The codec of the client and that of the server agree: the key that the client puts into a query is, byte for byte, what the
  server's encoder makes of it, the server decodes it to the key, with or without padding, and the client decodes every key of
  the server's listing.\<close>

theorem client_server_keys:
  "encode_key key = base64url_encode key \<and> base64url_decode (encode_key key) = key
   \<and> base64url_decode (urlsafe_b64encode key) = key \<and> decode_key (base64url_encode key) = Some key"
proof -
  have "decode_loop (s @ replicate n 0x3D) v b r = decode_loop s v b r" for s n v b r
    by (induction s v b r rule: decode_loop.induct) (cases n, simp_all add: Let_def)
  then have "base64url_decode (urlsafe_b64encode key) = key"
    using base64url_decode_encode [of key] by (simp add: urlsafe_is_padded padding_def base64url_decode_def)
  then show ?thesis using encode_key_eq decode_key_eq base64url_decode_encode by simp
qed

end
