(* ===== verification/Http_Client.thy ===== *)
theory Http_Client
  imports Http_Server Python_Base64
begin

text \<open>
  The Python client of the server, \<^verbatim>\<open>src/python/diskhash/client.py\<close>. The package \<^verbatim>\<open>requests\<close>, which sends its calls, is a parameter:
  a record of what the client uses of it, with a state of its own for the session. \<open>requests_laws\<close> says what is relied on when the
  session leads to a server: a call arrives as the request with its method, path, query and body, and the
  response comes back with its status and body. Texts are lists of code points below 256.
\<close>

section \<open>The package requests\<close>

record http_reply =
  hr_status_code :: nat
  hr_content :: bytes

record 't http_call =
  hc_method :: verb
  hc_url :: string
  hc_params :: "(string \<times> bytes) list"
  hc_data :: bytes
  hc_headers :: "(string \<times> string) list"
  hc_timeout :: 't

text \<open>A session; sending a call, where \<open>None\<close> is \<^verbatim>\<open>requests.RequestException\<close>; the statuses for which
  \<^verbatim>\<open>raise_for_status\<close> raises; the text of a reply; closing.\<close>

record ('s, 't) requests_lib =
  lib_session :: 's
  lib_send :: "'s \<Rightarrow> 't http_call \<Rightarrow> 's \<times> http_reply option"
  lib_raises :: "nat \<Rightarrow> bool"
  lib_text :: "http_reply \<Rightarrow> bytes"
  lib_close :: "'s \<Rightarrow> 's"

section \<open>The client\<close>

datatype client_error = Request_exception | HTTP_error nat | Client_key_error bytes | Client_value_error bytes | Binascii_error

record ('s, 't) client =
  cl_base_url :: string
  cl_timeout :: 't
  cl_session :: 's

definition client_new :: "('s, 't) requests_lib \<Rightarrow> string \<Rightarrow> nat \<Rightarrow> 't \<Rightarrow> ('s, 't) client" where
  "client_new lib host port timeout =
     \<lparr>cl_base_url = ''http://'' @ host @ '':'' @ to_string port, cl_timeout = timeout, cl_session = lib_session lib\<rparr>"

definition client_call ::
  "('s, 't) requests_lib \<Rightarrow> ('s, 't) client \<Rightarrow> verb \<Rightarrow> string \<Rightarrow> (string \<times> bytes) list \<Rightarrow> bytes \<Rightarrow> (string \<times> string) list
    \<Rightarrow> ('s, 't) client \<times> http_reply option" where
  "client_call lib cl meth path params data headers =
     (let (s, resp) = lib_send lib (cl_session cl)
        \<lparr>hc_method = meth, hc_url = cl_base_url cl @ path, hc_params = params, hc_data = data, hc_headers = headers, hc_timeout = cl_timeout cl\<rparr>
      in (cl\<lparr>cl_session := s\<rparr>, resp))"

text \<open>The end of \<open>get\<close>, \<open>set\<close> and \<open>delete\<close>: the results for two statuses, and for all others an exception or, if
  \<^verbatim>\<open>raise_for_status\<close> does not raise, the second one.\<close>

definition client_result ::
  "('s, 't) requests_lib \<Rightarrow> (http_reply \<Rightarrow> 'a) \<Rightarrow> nat \<Rightarrow> 'a \<Rightarrow> http_reply option \<Rightarrow> client_error + 'a" where
  "client_result lib ok other fallback resp =
     (case resp of
        None \<Rightarrow> Inl Request_exception
      | Some r \<Rightarrow>
          if hr_status_code r = 200 then Inr (ok r)
          else if hr_status_code r = other then Inr fallback
          else if lib_raises lib (hr_status_code r) then Inl (HTTP_error (hr_status_code r))
          else Inr fallback)"

definition client_get :: "('s, 't) requests_lib \<Rightarrow> ('s, 't) client \<Rightarrow> bytes \<Rightarrow> ('s, 't) client \<times> (client_error + bytes option)" where
  "client_get lib cl key =
     (let (cl, resp) = client_call lib cl Verb_get ''/get'' [(''key'', encode_key key)] [] []
      in (cl, client_result lib (\<lambda>r. Some (hr_content r)) 404 None resp))"

definition client_set :: "('s, 't) requests_lib \<Rightarrow> ('s, 't) client \<Rightarrow> bytes \<Rightarrow> bytes \<Rightarrow> ('s, 't) client \<times> (client_error + bool)" where
  "client_set lib cl key v =
     (let (cl, resp) = client_call lib cl Verb_put ''/set'' [(''key'', encode_key key)] v [(''Content-Type'', ''application/octet-stream'')]
      in (cl, client_result lib (\<lambda>_. True) 409 False resp))"

definition client_delete :: "('s, 't) requests_lib \<Rightarrow> ('s, 't) client \<Rightarrow> bytes \<Rightarrow> ('s, 't) client \<times> (client_error + bool)" where
  "client_delete lib cl key =
     (let (cl, resp) = client_call lib cl Verb_delete ''/delete'' [(''key'', encode_key key)] [] []
      in (cl, client_result lib (\<lambda>_. True) 404 False resp))"

text \<open>\<^verbatim>\<open>str.strip\<close> and \<^verbatim>\<open>str.split\<close> at line ends.\<close>

definition py_space :: "byte \<Rightarrow> bool" where
  "py_space c \<longleftrightarrow> 9 \<le> c \<and> c \<le> 13 \<or> 0x1C \<le> c \<and> c \<le> 0x20 \<or> c = 0x85 \<or> c = 0xA0"

definition py_strip :: "bytes \<Rightarrow> bytes" where
  "py_strip s = rev (dropWhile py_space (rev (dropWhile py_space s)))"

fun py_split :: "bytes \<Rightarrow> bytes \<Rightarrow> bytes list" where
  "py_split [] line = [line]"
| "py_split (c # s) line = (if c = 10 then line # py_split s [] else py_split s (line @ [c]))"

fun keys_of_lines :: "bytes list \<Rightarrow> client_error + bytes list" where
  "keys_of_lines [] = Inr []"
| "keys_of_lines (line # ls) =
     (if line = [] then keys_of_lines ls
      else
        (case decode_key line of
           None \<Rightarrow> Inl Binascii_error
         | Some k \<Rightarrow> map_sum id ((#) k) (keys_of_lines ls)))"

definition client_keys :: "('s, 't) requests_lib \<Rightarrow> ('s, 't) client \<Rightarrow> ('s, 't) client \<times> (client_error + bytes list)" where
  "client_keys lib cl =
     (let (cl, resp) = client_call lib cl Verb_get ''/keys'' [] [] []
      in (cl, case resp of
          None \<Rightarrow> Inl Request_exception
        | Some r \<Rightarrow>
            if lib_raises lib (hr_status_code r) then Inl (HTTP_error (hr_status_code r))
            else keys_of_lines (py_split (py_strip (lib_text lib r)) [])))"

definition client_health :: "('s, 't) requests_lib \<Rightarrow> ('s, 't) client \<Rightarrow> ('s, 't) client \<times> bool" where
  "client_health lib cl =
     (let (cl, resp) = client_call lib cl Verb_get ''/health'' [] [] []
      in (cl, case resp of None \<Rightarrow> False | Some r \<Rightarrow> hr_status_code r = 200))"

text \<open>The methods of a dictionary, over the four above.\<close>

definition client_then :: "'c \<times> (client_error + 'a) \<Rightarrow> ('a \<Rightarrow> client_error + 'b) \<Rightarrow> 'c \<times> (client_error + 'b)" where
  "client_then x f = (fst x, case snd x of Inl e \<Rightarrow> Inl e | Inr y \<Rightarrow> f y)"

definition client_getitem :: "('s, 't) requests_lib \<Rightarrow> ('s, 't) client \<Rightarrow> bytes \<Rightarrow> ('s, 't) client \<times> (client_error + bytes)" where
  "client_getitem lib cl key =
     client_then (client_get lib cl key) (\<lambda>r. case r of None \<Rightarrow> Inl (Client_key_error key) | Some v \<Rightarrow> Inr v)"

definition client_setitem :: "('s, 't) requests_lib \<Rightarrow> ('s, 't) client \<Rightarrow> bytes \<Rightarrow> bytes \<Rightarrow> ('s, 't) client \<times> (client_error + unit)" where
  "client_setitem lib cl key v =
     client_then (client_set lib cl key v) (\<lambda>done. if \<not> done then Inl (Client_value_error key) else Inr ())"

definition client_delitem :: "('s, 't) requests_lib \<Rightarrow> ('s, 't) client \<Rightarrow> bytes \<Rightarrow> ('s, 't) client \<times> (client_error + unit)" where
  "client_delitem lib cl key =
     client_then (client_delete lib cl key) (\<lambda>done. if \<not> done then Inl (Client_key_error key) else Inr ())"

definition client_contains :: "('s, 't) requests_lib \<Rightarrow> ('s, 't) client \<Rightarrow> bytes \<Rightarrow> ('s, 't) client \<times> (client_error + bool)" where
  "client_contains lib cl key = client_then (client_get lib cl key) (\<lambda>r. Inr (r \<noteq> None))"

definition client_iter :: "('s, 't) requests_lib \<Rightarrow> ('s, 't) client \<Rightarrow> ('s, 't) client \<times> (client_error + bytes list)" where
  "client_iter lib cl = client_keys lib cl"

definition client_len :: "('s, 't) requests_lib \<Rightarrow> ('s, 't) client \<Rightarrow> ('s, 't) client \<times> (client_error + nat)" where
  "client_len lib cl = client_then (client_keys lib cl) (\<lambda>ks. Inr (length ks))"

definition client_close :: "('s, 't) requests_lib \<Rightarrow> ('s, 't) client \<Rightarrow> ('s, 't) client" where
  "client_close lib cl = cl\<lparr>cl_session := lib_close lib (cl_session cl)\<rparr>"

definition client_enter :: "('s, 't) client \<Rightarrow> ('s, 't) client" where
  "client_enter cl = cl"

definition client_exit :: "('s, 't) requests_lib \<Rightarrow> ('s, 't) client \<Rightarrow> ('s, 't) client" where
  "client_exit lib cl = client_close lib cl"

section \<open>A client of a server\<close>

fun status_code :: "status \<Rightarrow> nat" where
  "status_code Ok_200 = 200"
| "status_code Bad_request_400 = 400"
| "status_code Not_found_404 = 404"
| "status_code Conflict_409 = 409"

definition reply_of :: "response \<Rightarrow> http_reply" where
  "reply_of res = \<lparr>hr_status_code = status_code (rs_status res), hr_content = rs_body res\<rparr>"

text \<open>The request as which a call arrives. Values of the base64url alphabet are unreserved characters of URLs and stand for
  themselves.\<close>

definition request_of :: "string \<Rightarrow> 't http_call \<Rightarrow> request" where
  "request_of path call =
     \<lparr>rq_method = hc_method call,
      rq_target = ascii path @ (if hc_params call = [] then []
                                else 0x3F # join_amp (map (\<lambda>(name, v). ascii name @ 0x3D # v) (hc_params call))),
      rq_version = 11, rq_body = hc_data call\<rparr>"

text \<open>What the server's parser accepts: a header of 8 KiB, of which 6000 bytes are left for a parameter, and a body of 1 MiB.\<close>

definition call_fits :: "(string \<times> bytes) list \<Rightarrow> bytes \<Rightarrow> bool" where
  "call_fits params data \<longleftrightarrow>
     (params = [] \<or> (\<exists>name v. params = [(name, v)] \<and> length name \<le> 100 \<and> set v \<subseteq> set base64url_chars \<and> length v \<le> 6000)) \<and> length data \<le> 2 ^ 20"

definition requests_laws :: "(sharded_hash_map, 't) requests_lib \<Rightarrow> os_env \<Rightarrow> string \<Rightarrow> bool" where
  "requests_laws lib os base \<longleftrightarrow>
     (\<forall>db call path db' res. hc_url call = base @ path \<longrightarrow> length path \<le> 100 \<longrightarrow> call_fits (hc_params call) (hc_data call) \<longrightarrow>
        handle_request os db (request_of path call) = Some (Inr (db', res)) \<longrightarrow> lib_send lib db call = (db', Some (reply_of res)))
     \<and> (\<forall>s. lib_raises lib s \<longleftrightarrow> 400 \<le> s \<and> s < 600)
     \<and> (\<forall>r. (\<forall>c \<in> set (hr_content r). c < 128) \<longrightarrow> lib_text lib r = hr_content r)"

lemma requests_lawsD:
  assumes "requests_laws lib os base"
  shows "hc_url call = base @ path \<Longrightarrow> length path \<le> 100 \<Longrightarrow> call_fits (hc_params call) (hc_data call) \<Longrightarrow>
      handle_request os db (request_of path call) = Some (Inr (db', res)) \<Longrightarrow> lib_send lib db call = (db', Some (reply_of res))"
    and "lib_raises lib s \<longleftrightarrow> 400 \<le> s \<and> s < 600"
    and "\<forall>c \<in> set (hr_content r). c < 128 \<Longrightarrow> lib_text lib r = hr_content r"
  using assms unfolding requests_laws_def by blast+

lemma client_call_served:
  assumes "requests_laws lib os (cl_base_url cl)" and "length path \<le> 100" and "call_fits params data"
    and "handle_request os (cl_session cl)
      \<lparr>rq_method = meth, rq_target = ascii path @ (if params = [] then [] else 0x3F # join_amp (map (\<lambda>(name, v). ascii name @ 0x3D # v) params)),
       rq_version = 11, rq_body = data\<rparr> = Some (Inr (db', res))"
  shows "client_call lib cl meth path params data headers = (cl\<lparr>cl_session := db'\<rparr>, Some (reply_of res))"
proof -
  let ?call = "\<lparr>hc_method = meth, hc_url = cl_base_url cl @ path, hc_params = params, hc_data = data, hc_headers = headers, hc_timeout = cl_timeout cl\<rparr>"
  have "lib_send lib (cl_session cl) ?call = (db', Some (reply_of res))"
    by (rule requests_lawsD(1) [OF assms(1), of _ path]) (use assms(2-4) in \<open>auto simp: request_of_def split: if_splits\<close>)
  then show ?thesis by (simp add: client_call_def)
qed

text \<open>The requests of the client carry its key.\<close>

lemma encode_key_nonempty: "k \<noteq> [] \<Longrightarrow> base64url_encode k \<noteq> []"
proof -
  assume "k \<noteq> []"
  then have "0 < (4 * length k + 2) div 3" by (cases k) auto
  then show ?thesis using length_base64url_encode [of k] by auto
qed

lemma client_target: "k \<noteq> [] \<Longrightarrow> key_target path k (path @ 0x3F # ascii ''key'' @ 0x3D # base64url_encode k)"
proof -
  assume k: "k \<noteq> []"
  let ?e = "base64url_encode k"
  have plain: "c \<noteq> 0x25 \<and> c \<noteq> 0x2B \<and> c \<noteq> 0x26" if "c \<in> set ?e" for c using base64url_encode_plain [OF that] by simp
  then have "url_encodes t t" if "set t \<subseteq> set ?e" for t using that by (induction t) (auto intro: url_encodes.intros)
  then have "url_encodes ?e ?e" by blast
  moreover have "query_value [ascii ''key='' @ ?e] (ascii ''key='') = ?e" by (simp add: query_value_def ascii_def)
  moreover have "path @ 0x3F # ascii ''key'' @ 0x3D # ?e = path @ 0x3F # join_amp [ascii ''key='' @ ?e]" by (simp add: ascii_def)
  moreover have "\<forall>p \<in> set [ascii ''key='' @ ?e]. 0x26 \<notin> set p" using plain by (auto simp: ascii_def)
  ultimately show ?thesis unfolding key_target_def using encode_key_nonempty [OF k] base64url_decode_encode by metis
qed

lemma client_no_key:
  assumes "rq_target req = path @ 0x3F # ascii ''key'' @ 0x3D # base64url_encode []" and "0x3F \<notin> set path"
  shows "request_path req = path" and "request_key req = None"
proof -
  have t: "rq_target req = path @ 0x3F # join_amp [ascii ''key='']"
    using assms(1) by (simp add: ascii_def base64url_encode_def encode_rest_def)
  have "find_byte 0x3F (rq_target req) 0 = Some (length path)"
    using find_byte_here [of 0 "rq_target req" path] assms(2) t by simp
  then show "request_path req = path" by (simp add: request_path_def t)
  have "\<forall>p \<in> set [ascii ''key='']. 0x26 \<notin> set p" by (simp add: ascii_def)
  from extract_query_param_spec [OF assms(2) this, of "ascii ''key''"] show "request_key req = None"
    by (simp add: request_key_def t query_value_def ascii_def)
qed

section \<open>What the calls do\<close>

lemma client_call_op:
  assumes laws: "requests_laws lib os (cl_base_url cl)" and S: "sh_holds (cl_session cl) m" and x: "sh_served os (cl_session cl) x"
    and params: "length path \<le> 100" "call_fits params data"
    and req: "is_request x \<lparr>rq_method = meth,
      rq_target = ascii path @ (if params = [] then [] else 0x3F # join_amp (map (\<lambda>(name, v). ascii name @ 0x3D # v) params)),
      rq_version = 11, rq_body = data\<rparr>"
  obtains db' a where "client_call lib cl meth path params data headers = (cl\<lparr>cl_session := db'\<rparr>, Some (reply_of (answer_response x a)))"
    and "sh_allows m x a" and "sh_holds db' (sh_after m x)"
proof -
  from sh_do_spec [OF S x] obtain db' a where d: "sh_do os (cl_session cl) x = Some (Inr (db', a))" "sh_allows m x a" "sh_holds db' (sh_after m x)"
    by blast
  then show ?thesis using that client_call_served [OF laws params] handle_request_op [OF req] by simp
qed

definition key_limit :: nat where
  "key_limit = 4096"

lemma key_params: "length k \<le> key_limit \<Longrightarrow> length data \<le> 2 ^ 20 \<Longrightarrow> call_fits [(''key'', encode_key k)] data"
  using base64url_encode_chars [of k] length_base64url_encode [of k] by (simp add: encode_key_eq call_fits_def key_limit_def)

lemma client_get_spec:
  assumes laws: "requests_laws lib os (cl_base_url cl)" and S: "sh_holds (cl_session cl) m" and k: "k \<noteq> []" "length k \<le> key_limit"
  shows "\<exists>db'. client_get lib cl k = (cl\<lparr>cl_session := db'\<rparr>, Inr (m k)) \<and> sh_holds db' m"
proof -
  have "is_request (SGet k) \<lparr>rq_method = Verb_get, rq_target = ascii ''/get'' @ (if [(''key'', encode_key k)] = [] then [] else 0x3F #
      join_amp (map (\<lambda>(name, v). ascii name @ 0x3D # v) [(''key'', encode_key k)])), rq_version = 11, rq_body = []\<rparr>"
    using client_target [OF k(1)] by (intro is_request.get) (simp_all add: encode_key_eq)
  from client_call_op [OF laws S _ _ key_params [OF k(2)] this, of "[]"] obtain db' a where
    c: "client_call lib cl Verb_get ''/get'' [(''key'', encode_key k)] [] [] = (cl\<lparr>cl_session := db'\<rparr>, Some (reply_of (answer_response (SGet k) a)))"
    "a = SValue (m k)" "sh_holds db' m" by auto
  then show ?thesis by (cases "m k") (auto simp: client_get_def client_result_def reply_of_def respond_def)
qed

lemma client_set_spec:
  assumes laws: "requests_laws lib os (cl_base_url cl)" and S: "sh_holds (cl_session cl) m" and k: "k \<noteq> []" "length k \<le> key_limit"
    and room: "sh_served os (cl_session cl) (SSet k v)" "length v \<le> 2 ^ 20"
  shows "\<exists>db'. client_set lib cl k v = (cl\<lparr>cl_session := db'\<rparr>, Inr (m k = None)) \<and> sh_holds db' (sh_after m (SSet k v))"
proof -
  let ?req = "\<lparr>rq_method = Verb_put, rq_target = ascii ''/set'' @ (if [(''key'', encode_key k)] = [] then [] else 0x3F #
      join_amp (map (\<lambda>(name, v). ascii name @ 0x3D # v) [(''key'', encode_key k)])), rq_version = 11, rq_body = v\<rparr>"
  have "is_request (SSet k (rq_body ?req)) ?req" using client_target [OF k(1)] by (intro is_request.set) (simp_all add: encode_key_eq)
  then have "is_request (SSet k v) ?req" by simp
  from client_call_op [OF laws S room(1) _ key_params [OF k(2) room(2)] this, of "[(''Content-Type'', ''application/octet-stream'')]"] obtain db' a where
    c: "client_call lib cl Verb_put ''/set'' [(''key'', encode_key k)] v [(''Content-Type'', ''application/octet-stream'')] =
      (cl\<lparr>cl_session := db'\<rparr>, Some (reply_of (answer_response (SSet k v) a)))"
    "a = SDone (m k = None)" "sh_holds db' (sh_after m (SSet k v))" by auto
  then show ?thesis by (cases "m k = None") (auto simp: client_set_def client_result_def reply_of_def respond_def)
qed

lemma client_delete_spec:
  assumes laws: "requests_laws lib os (cl_base_url cl)" and S: "sh_holds (cl_session cl) m" and k: "k \<noteq> []" "length k \<le> key_limit"
  shows "\<exists>db'. client_delete lib cl k = (cl\<lparr>cl_session := db'\<rparr>, Inr (m k \<noteq> None)) \<and> sh_holds db' (m(k := None))"
proof -
  have "is_request (SRemove k) \<lparr>rq_method = Verb_delete, rq_target = ascii ''/delete'' @ (if [(''key'', encode_key k)] = [] then [] else 0x3F #
      join_amp (map (\<lambda>(name, v). ascii name @ 0x3D # v) [(''key'', encode_key k)])), rq_version = 11, rq_body = []\<rparr>"
    using client_target [OF k(1)] by (intro is_request.delete) (simp_all add: encode_key_eq)
  from client_call_op [OF laws S _ _ key_params [OF k(2)] this, of "[]"] obtain db' a where
    c: "client_call lib cl Verb_delete ''/delete'' [(''key'', encode_key k)] [] [] =
      (cl\<lparr>cl_session := db'\<rparr>, Some (reply_of (answer_response (SRemove k) a)))"
    "a = SDone (m k \<noteq> None)" "sh_holds db' (m(k := None))" by auto
  then show ?thesis by (cases "m k = None") (auto simp: client_delete_def client_result_def reply_of_def respond_def)
qed

text \<open>The empty key is refused with status 400, which the client raises.\<close>

lemma client_empty_key:
  assumes laws: "requests_laws lib os (cl_base_url cl)"
  shows "client_get lib cl [] = (cl, Inl (HTTP_error 400))" "length v \<le> 2 ^ 20 \<Longrightarrow> client_set lib cl [] v = (cl, Inl (HTTP_error 400))"
    "client_delete lib cl [] = (cl, Inl (HTTP_error 400))"
proof -
  have call: "client_call lib cl meth path [(''key'', encode_key [])] data headers = (cl, Some \<lparr>hr_status_code = 400, hr_content = b\<rparr>)"
    if "meth = Verb_get \<and> path = ''/get'' \<or> meth = Verb_put \<and> path = ''/set'' \<or> meth = Verb_delete \<and> path = ''/delete''"
      and "b = rs_body (missing_key req)" and "length data \<le> 2 ^ 20" for meth path data headers b req
  proof -
    let ?req = "\<lparr>rq_method = meth, rq_target = ascii path @ (if [(''key'', encode_key [])] = [] then [] else 0x3F #
      join_amp (map (\<lambda>(name, v). ascii name @ 0x3D # v) [(''key'', encode_key [])])), rq_version = 11, rq_body = data\<rparr>"
    have "0x3F \<notin> set (ascii path)" using that(1) paths_distinct(11-13) by auto
    then have "request_path ?req = ascii path" "request_key ?req = None" by (intro client_no_key; simp add: encode_key_eq)+
    then have handled: "handle_request os (cl_session cl) ?req = Some (Inr (cl_session cl, missing_key ?req))"
      using that(1) by (auto simp: handle_request_def paths_distinct)
    have "length path \<le> 100" using that(1) by auto
    from client_call_served [OF laws this key_params [OF _ that(3)] handled, of headers] that(2) show ?thesis by (simp add: reply_of_def missing_key_def respond_def)
  qed
  show "client_get lib cl [] = (cl, Inl (HTTP_error 400))" "length v \<le> 2 ^ 20 \<Longrightarrow> client_set lib cl [] v = (cl, Inl (HTTP_error 400))"
    "client_delete lib cl [] = (cl, Inl (HTTP_error 400))"
    using requests_lawsD(2) [OF laws]
    by (simp_all add: client_get_def client_set_def client_delete_def call client_result_def)
qed

section \<open>The listing\<close>

text \<open>Stripping changes no line that is not empty: the listing holds no white space but line ends.\<close>

definition lines_of :: "bytes \<Rightarrow> bytes list" where
  "lines_of s = filter (\<lambda>l. l \<noteq> []) (py_split s [])"

definition plain_lines :: "bytes \<Rightarrow> bool" where
  "plain_lines s \<longleftrightarrow> (\<forall>c \<in> set s. py_space c \<longrightarrow> c = 10)"

lemma keys_of_lines_filter: "keys_of_lines (filter (\<lambda>l. l \<noteq> []) ls) = keys_of_lines ls"
  by (induction ls) (auto split: option.splits)

lemma py_split_end: "py_split (s @ [10]) line = py_split s line @ [[]]"
  by (induction s arbitrary: line) auto

lemma py_split_line: "10 \<notin> set l \<Longrightarrow> py_split (l @ 10 # s) line = (line @ l) # py_split s []"
  by (induction l arbitrary: line) auto

lemma lines_of_dropWhile: "plain_lines s \<Longrightarrow> lines_of (dropWhile py_space s) = lines_of s"
  by (induction s) (auto simp: plain_lines_def lines_of_def)

lemma lines_of_dropWhile_rev: "plain_lines s \<Longrightarrow> lines_of (rev (dropWhile py_space s)) = lines_of (rev s)"
  by (induction s) (auto simp: plain_lines_def lines_of_def py_split_end)

lemma lines_of_strip: "plain_lines s \<Longrightarrow> lines_of (py_strip s) = lines_of s"
proof -
  assume s: "plain_lines s"
  then have "plain_lines (rev (dropWhile py_space s))" by (auto simp: plain_lines_def dest: set_dropWhileD)
  with s show ?thesis by (simp add: py_strip_def lines_of_dropWhile_rev lines_of_dropWhile plain_lines_def)
qed

lemma lines_of_keys_body: "lines_of (keys_body ks) = filter (\<lambda>l. l \<noteq> []) (map base64url_encode ks)"
proof -
  have "10 \<notin> set (base64url_encode k)" for k using base64url_encode_plain(5) by blast
  then have "py_split (keys_body ks) [] = map base64url_encode ks @ [[]]" by (induction ks) (simp_all add: keys_body_def py_split_line)
  then show ?thesis by (simp add: lines_of_def)
qed

lemma chars_printable: "list_all (\<lambda>c. \<not> py_space c \<and> c < 128) base64url_chars"
  by code_simp

lemma keys_body_chars: "c \<in> set (keys_body ks) \<Longrightarrow> c = 10 \<or> \<not> py_space c \<and> c < 128"
proof -
  assume "c \<in> set (keys_body ks)"
  then consider "c = 10" | k where "c \<in> set (base64url_encode k)" by (auto simp: keys_body_def split: if_splits)
  then show ?thesis using base64url_encode_chars chars_printable by cases (auto simp: list_all_iff)
qed

lemma keys_of_keys_body: "keys_of_lines (py_split (py_strip (keys_body ks)) []) = Inr (filter (\<lambda>k. k \<noteq> []) ks)"
proof -
  have "base64url_encode [] = []" by (simp add: base64url_encode_def encode_rest_def)
  then have "keys_of_lines (map base64url_encode ks) = Inr (filter (\<lambda>k. k \<noteq> []) ks)"
    by (induction ks) (auto simp: decode_key_eq encode_key_nonempty)
  moreover have "plain_lines (keys_body ks)" using keys_body_chars unfolding plain_lines_def by blast
  ultimately show ?thesis
    by (metis keys_of_lines_filter lines_of_def lines_of_keys_body lines_of_strip)
qed

lemma client_keys_spec:
  assumes laws: "requests_laws lib os (cl_base_url cl)" and S: "sh_holds (cl_session cl) m"
  shows "\<exists>db' ks. client_keys lib cl = (cl\<lparr>cl_session := db'\<rparr>, Inr ks) \<and> distinct ks \<and> set ks = dom m - {[]} \<and> sh_holds db' m"
proof -
  have req: "is_request SKeys \<lparr>rq_method = Verb_get, rq_target = ascii ''/keys'', rq_version = 11, rq_body = []\<rparr>"
    by (rule is_request.keys) (simp_all add: request_path_def ascii_def find_byte_def)
  obtain db' a where
    "client_call lib cl Verb_get ''/keys'' [] [] [] = (cl\<lparr>cl_session := db'\<rparr>, Some (reply_of (answer_response SKeys a)))"
    "sh_allows m SKeys a" "sh_holds db' (sh_after m SKeys)"
    by (rule client_call_op [OF laws S, of SKeys "''/keys''" "[]" "[]" Verb_get "[]"]) (use req in \<open>simp_all add: call_fits_def\<close>)
  then obtain ks where
    c: "client_call lib cl Verb_get ''/keys'' [] [] [] = (cl\<lparr>cl_session := db'\<rparr>, Some (reply_of (answer_response SKeys (SList ks))))"
    "distinct ks" "set ks = dom m" "sh_holds db' m" by auto
  have "\<forall>c \<in> set (keys_body ks). c < 128" using keys_body_chars by fastforce
  then have "lib_text lib (reply_of (answer_response SKeys (SList ks))) = keys_body ks"
    using requests_lawsD(3) [OF laws, of "reply_of (answer_response SKeys (SList ks))"] by (simp add: reply_of_def respond_def)
  with c(1) have "client_keys lib cl = (cl\<lparr>cl_session := db'\<rparr>, Inr (filter (\<lambda>k. k \<noteq> []) ks))"
    by (simp add: client_keys_def keys_of_keys_body requests_lawsD(2) [OF laws]) (simp add: reply_of_def respond_def)
  then show ?thesis using c(2-4) by auto
qed

lemma client_health_spec:
  assumes laws: "requests_laws lib os (cl_base_url cl)"
  shows "client_health lib cl = (cl, True)"
proof -
  let ?req = "\<lparr>rq_method = Verb_get, rq_target = ascii ''/health'', rq_version = 11, rq_body = []\<rparr>"
  have "request_path ?req = ascii ''/health''" by (simp add: request_path_def ascii_def find_byte_def)
  then have "handle_request os (cl_session cl) ?req = Some (Inr (cl_session cl, handle_health))" by (simp add: handle_request_def)
  then have "client_call lib cl Verb_get ''/health'' [] [] [] = (cl\<lparr>cl_session := cl_session cl\<rparr>, Some (reply_of handle_health))"
    by (intro client_call_served [OF laws]) (simp_all add: call_fits_def)
  then show ?thesis by (simp add: client_health_def handle_health_def reply_of_def respond_def)
qed

section \<open>A client as a dictionary\<close>

datatype client_op =
    CGet bytes | CSet bytes bytes | CDelete bytes | CKeys | CHealth
  | CGetitem bytes | CSetitem bytes bytes | CDelitem bytes | CContains bytes | CIter | CLen

datatype client_answer =
    CValue "bytes option" | CBool bool | CList "bytes list" | CItem bytes | CUnit | CNat nat | CRaises client_error

definition client_answer :: "('a \<Rightarrow> client_answer) \<Rightarrow> 'c \<times> (client_error + 'a) \<Rightarrow> 'c \<times> client_answer" where
  "client_answer f x = (fst x, case snd x of Inl e \<Rightarrow> CRaises e | Inr y \<Rightarrow> f y)"

fun client_do :: "('s, 't) requests_lib \<Rightarrow> ('s, 't) client \<Rightarrow> client_op \<Rightarrow> ('s, 't) client \<times> client_answer" where
  "client_do lib cl (CGet k) = client_answer CValue (client_get lib cl k)"
| "client_do lib cl (CSet k v) = client_answer CBool (client_set lib cl k v)"
| "client_do lib cl (CDelete k) = client_answer CBool (client_delete lib cl k)"
| "client_do lib cl CKeys = client_answer CList (client_keys lib cl)"
| "client_do lib cl CHealth = map_prod id CBool (client_health lib cl)"
| "client_do lib cl (CGetitem k) = client_answer CItem (client_getitem lib cl k)"
| "client_do lib cl (CSetitem k v) = client_answer (\<lambda>_. CUnit) (client_setitem lib cl k v)"
| "client_do lib cl (CDelitem k) = client_answer (\<lambda>_. CUnit) (client_delitem lib cl k)"
| "client_do lib cl (CContains k) = client_answer CBool (client_contains lib cl k)"
| "client_do lib cl CIter = client_answer CList (client_iter lib cl)"
| "client_do lib cl CLen = client_answer CNat (client_len lib cl)"

fun client_run :: "('s, 't) requests_lib \<Rightarrow> ('s, 't) client \<Rightarrow> client_op list \<Rightarrow> ('s, 't) client \<times> client_answer list" where
  "client_run lib cl [] = (cl, [])"
| "client_run lib cl (x # xs) = (let (cl, a) = client_do lib cl x; (cl, as) = client_run lib cl xs in (cl, a # as))"

fun op_key :: "client_op \<Rightarrow> bytes option" where
  "op_key (CGet k) = Some k"
| "op_key (CSet k v) = Some k"
| "op_key (CDelete k) = Some k"
| "op_key (CGetitem k) = Some k"
| "op_key (CSetitem k v) = Some k"
| "op_key (CDelitem k) = Some k"
| "op_key (CContains k) = Some k"
| "op_key _ = None"

text \<open>The server has the room that the keys set need, and the request is within its limits.\<close>

fun client_room :: "os_env \<Rightarrow> (sharded_hash_map, 't) client \<Rightarrow> client_op \<Rightarrow> bool" where
  "client_room os cl (CSet k v) = (length v \<le> 2 ^ 20 \<and> (k = [] \<or> sh_served os (cl_session cl) (SSet k v)))"
| "client_room os cl (CSetitem k v) = (length v \<le> 2 ^ 20 \<and> (k = [] \<or> sh_served os (cl_session cl) (SSet k v)))"
| "client_room os cl _ = True"

definition client_served :: "os_env \<Rightarrow> (sharded_hash_map, 't) client \<Rightarrow> client_op \<Rightarrow> bool" where
  "client_served os cl x \<longleftrightarrow> pred_option (\<lambda>k. length k \<le> key_limit) (op_key x) \<and> client_room os cl x"

fun client_run_served :: "os_env \<Rightarrow> (sharded_hash_map, 't) requests_lib \<Rightarrow> (sharded_hash_map, 't) client \<Rightarrow> client_op list \<Rightarrow> bool" where
  "client_run_served os lib cl [] = True"
| "client_run_served os lib cl (x # xs) = (client_served os cl x \<and> client_run_served os lib (fst (client_do lib cl x)) xs)"

text \<open>The specification: a dictionary whose \<open>set\<close> does not overwrite. The empty key, which the server refuses, is an error
  of every method with a key, and is not among the keys.\<close>

fun dict_allows :: "key_contents \<Rightarrow> client_op \<Rightarrow> client_answer \<Rightarrow> bool" where
  "dict_allows m (CGet k) a \<longleftrightarrow> a = CValue (m k)"
| "dict_allows m (CSet k v) a \<longleftrightarrow> a = CBool (m k = None)"
| "dict_allows m (CDelete k) a \<longleftrightarrow> a = CBool (m k \<noteq> None)"
| "dict_allows m CKeys a \<longleftrightarrow> (\<exists>ks. a = CList ks \<and> distinct ks \<and> set ks = dom m - {[]})"
| "dict_allows m CHealth a \<longleftrightarrow> a = CBool True"
| "dict_allows m (CGetitem k) a \<longleftrightarrow> a = (case m k of None \<Rightarrow> CRaises (Client_key_error k) | Some v \<Rightarrow> CItem v)"
| "dict_allows m (CSetitem k v) a \<longleftrightarrow> a = (case m k of None \<Rightarrow> CUnit | Some _ \<Rightarrow> CRaises (Client_value_error k))"
| "dict_allows m (CDelitem k) a \<longleftrightarrow> a = (case m k of None \<Rightarrow> CRaises (Client_key_error k) | Some _ \<Rightarrow> CUnit)"
| "dict_allows m (CContains k) a \<longleftrightarrow> a = CBool (m k \<noteq> None)"
| "dict_allows m CIter a \<longleftrightarrow> (\<exists>ks. a = CList ks \<and> distinct ks \<and> set ks = dom m - {[]})"
| "dict_allows m CLen a \<longleftrightarrow> a = CNat (card (dom m - {[]}))"

fun dict_after :: "key_contents \<Rightarrow> client_op \<Rightarrow> key_contents" where
  "dict_after m (CSet k v) = sh_after m (SSet k v)"
| "dict_after m (CSetitem k v) = sh_after m (SSet k v)"
| "dict_after m (CDelete k) = sh_after m (SRemove k)"
| "dict_after m (CDelitem k) = sh_after m (SRemove k)"
| "dict_after m _ = m"

definition keyed_allows :: "key_contents \<Rightarrow> client_op \<Rightarrow> client_answer \<Rightarrow> bool" where
  "keyed_allows m x a \<longleftrightarrow> (if op_key x = Some [] then a = CRaises (HTTP_error 400) else dict_allows m x a)"

definition keyed_after :: "key_contents \<Rightarrow> client_op \<Rightarrow> key_contents" where
  "keyed_after m x = (if op_key x = Some [] then m else dict_after m x)"

fun dict_run_allows :: "key_contents \<Rightarrow> client_op list \<Rightarrow> client_answer list \<Rightarrow> bool" where
  "dict_run_allows m [] as = (as = [])"
| "dict_run_allows m (x # xs) [] = False"
| "dict_run_allows m (x # xs) (a # as) = (keyed_allows m x a \<and> dict_run_allows (keyed_after m x) xs as)"

lemmas client_methods = client_answer_def client_then_def client_getitem_def client_setitem_def client_delitem_def client_contains_def
  client_iter_def client_len_def

lemma client_do_empty_key:
  assumes "requests_laws lib os (cl_base_url cl)" and "op_key x = Some []" and "client_served os cl x"
  shows "client_do lib cl x = (cl, CRaises (HTTP_error 400))"
  using assms(2,3) by (cases x) (simp_all add: client_served_def client_methods client_empty_key [OF assms(1)])

lemma client_do_key:
  assumes laws: "requests_laws lib os (cl_base_url cl)" and S: "sh_holds (cl_session cl) m"
    and x: "client_served os cl x" "op_key x = Some k" "k \<noteq> []"
  shows "\<exists>db' a. client_do lib cl x = (cl\<lparr>cl_session := db'\<rparr>, a) \<and> dict_allows m x a \<and> sh_holds db' (dict_after m x)"
proof -
  have k: "length k \<le> key_limit" using x(1,2) by (simp add: client_served_def)
  from x(2) consider (get) "x = CGet k \<or> x = CGetitem k \<or> x = CContains k" | (set) v where "x = CSet k v \<or> x = CSetitem k v"
    | (del) "x = CDelete k \<or> x = CDelitem k" by (cases x) auto
  then show ?thesis
  proof cases
    case get
    from client_get_spec [OF laws S x(3) k] obtain db' where "client_get lib cl k = (cl\<lparr>cl_session := db'\<rparr>, Inr (m k))" "sh_holds db' m" by blast
    with get show ?thesis by (intro exI [of _ db']) (cases "m k"; auto simp: client_methods)
  next
    case (set v)
    with x(1,3) have "sh_served os (cl_session cl) (SSet k v)" "length v \<le> 2 ^ 20" by (auto simp: client_served_def)
    from client_set_spec [OF laws S x(3) k this] obtain db' where
      "client_set lib cl k v = (cl\<lparr>cl_session := db'\<rparr>, Inr (m k = None))" "sh_holds db' (sh_after m (SSet k v))" by blast
    with set show ?thesis by (intro exI [of _ db']) (cases "m k"; auto simp: client_methods)
  next
    case del
    from client_delete_spec [OF laws S x(3) k] obtain db' where
      "client_delete lib cl k = (cl\<lparr>cl_session := db'\<rparr>, Inr (m k \<noteq> None))" "sh_holds db' (m(k := None))" by blast
    with del show ?thesis by (intro exI [of _ db']) (cases "m k"; auto simp: client_methods)
  qed
qed

lemma client_do_spec:
  assumes laws: "requests_laws lib os (cl_base_url cl)" and S: "sh_holds (cl_session cl) m" and x: "client_served os cl x"
  shows "\<exists>db' a. client_do lib cl x = (cl\<lparr>cl_session := db'\<rparr>, a) \<and> keyed_allows m x a \<and> sh_holds db' (keyed_after m x)"
proof (cases "op_key x")
  case None
  then have keyed: "keyed_allows m x a \<longleftrightarrow> dict_allows m x a" "keyed_after m x = dict_after m x" for a
    by (simp_all add: keyed_allows_def keyed_after_def)
  from client_keys_spec [OF laws S] obtain db' ks where
    k: "client_keys lib cl = (cl\<lparr>cl_session := db'\<rparr>, Inr ks)" "distinct ks" "set ks = dom m - {[]}" "sh_holds db' m" by blast
  then have "length ks = card (dom m - {[]})" by (metis distinct_card)
  show ?thesis
  proof (cases "x = CHealth")
    case True
    have "client_do lib cl CHealth = (cl\<lparr>cl_session := cl_session cl\<rparr>, CBool True)" by (simp add: client_health_spec [OF laws])
    then show ?thesis unfolding keyed using True S by (intro exI [of _ "cl_session cl"] exI [of _ "CBool True"]) simp
  next
    case False
    with None k(1-3) \<open>length ks = card (dom m - {[]})\<close>
    obtain a where "client_do lib cl x = (cl\<lparr>cl_session := db'\<rparr>, a)" "dict_allows m x a" "dict_after m x = m"
      by (cases x) (auto simp: client_methods)
    then show ?thesis unfolding keyed using k(4) by (intro exI [of _ db'] exI [of _ a]) simp
  qed
next
  case (Some k)
  show ?thesis
  proof (cases "k = []")
    case True
    with Some have "client_do lib cl x = (cl\<lparr>cl_session := cl_session cl\<rparr>, CRaises (HTTP_error 400))"
      using client_do_empty_key [OF laws _ x] by simp
    moreover have "keyed_allows m x (CRaises (HTTP_error 400))" "keyed_after m x = m"
      using Some True by (simp_all add: keyed_allows_def keyed_after_def)
    ultimately show ?thesis using S by (intro exI [of _ "cl_session cl"] exI [of _ "CRaises (HTTP_error 400)"]) simp
  next
    case False
    with Some show ?thesis using client_do_key [OF laws S x] by (simp add: keyed_allows_def keyed_after_def)
  qed
qed

lemma client_run_spec:
  "requests_laws lib os (cl_base_url cl) \<Longrightarrow> sh_holds (cl_session cl) m \<Longrightarrow> client_run_served os lib cl xs \<Longrightarrow>
    \<exists>db' as. client_run lib cl xs = (cl\<lparr>cl_session := db'\<rparr>, as) \<and> dict_run_allows m xs as \<and> sh_holds db' (fold (\<lambda>x m. keyed_after m x) xs m)"
proof (induction xs arbitrary: cl m)
  case Nil
  then show ?case by (intro exI [of _ "cl_session cl"]) simp
next
  case (Cons x xs)
  from client_do_spec [OF Cons.prems(1,2)] Cons.prems(3) obtain db1 a where
    d: "client_do lib cl x = (cl\<lparr>cl_session := db1\<rparr>, a)" "keyed_allows m x a" "sh_holds db1 (keyed_after m x)" by force
  with Cons.prems have "\<exists>db' as. client_run lib (cl\<lparr>cl_session := db1\<rparr>) xs = (cl\<lparr>cl_session := db1\<rparr>\<lparr>cl_session := db'\<rparr>, as)
      \<and> dict_run_allows (keyed_after m x) xs as \<and> sh_holds db' (fold (\<lambda>x m. keyed_after m x) xs (keyed_after m x))"
    by (intro Cons.IH) simp_all
  then obtain db' as where "client_run lib (cl\<lparr>cl_session := db1\<rparr>) xs = (cl\<lparr>cl_session := db'\<rparr>, as)"
    "dict_run_allows (keyed_after m x) xs as" "sh_holds db' (fold (\<lambda>x m. keyed_after m x) xs (keyed_after m x))" by auto
  with d(1,2) show ?case by (intro exI [of _ db'] exI [of _ "a # as"]) simp
qed

lemma dict_run_allows_Cons:
  "dict_run_allows m (x # xs) as \<longleftrightarrow> (\<exists>a bs. as = a # bs \<and> keyed_allows m x a \<and> dict_run_allows (keyed_after m x) xs bs)"
  by (cases as) auto

lemma client_run_served_Cons:
  assumes "requests_laws lib os (cl_base_url cl)" and "sh_holds (cl_session cl) m" and "client_served os cl x"
    and "\<And>db'. sh_holds db' (keyed_after m x) \<Longrightarrow> client_run_served os lib (cl\<lparr>cl_session := db'\<rparr>) xs"
  shows "client_run_served os lib cl (x # xs)"
  using client_do_spec [OF assms(1-3)] assms(3,4) by auto

section \<open>Properties\<close>

text \<open>C10. A client of a server that serves its requests is a dictionary: every sequence of calls of its methods, from a server that
  holds \<open>m\<close>, gives the answers that the dictionary \<open>m\<close> allows at each point, the exceptions among them
  (\<open>KeyError\<close> for a missing key, \<open>ValueError\<close> for a key set twice, and the error of status 400 for the empty key), and
  leaves the server holding what the dictionary holds. What is relied on of \<^verbatim>\<open>requests\<close> is the hypothesis
  \<open>requests_laws\<close>; keys and values are within the limits of the server's parser, and the server has room for the keys set
  (\<open>client_run_served\<close>).\<close>

theorem client_refines:
  assumes "requests_laws lib os (cl_base_url cl)" and "sh_holds (cl_session cl) m" and "client_run_served os lib cl xs"
  shows "\<exists>db' as. client_run lib cl xs = (cl\<lparr>cl_session := db'\<rparr>, as) \<and> dict_run_allows m xs as
    \<and> sh_holds db' (fold (\<lambda>x m. keyed_after m x) xs m)"
  by (rule client_run_spec [OF assms])

text \<open>The session that hands each call to \<open>handle_request\<close> directly.\<close>

definition direct_lib :: "os_env \<Rightarrow> string \<Rightarrow> sharded_hash_map \<Rightarrow> (sharded_hash_map, nat) requests_lib" where
  "direct_lib os base db =
     \<lparr>lib_session = db,
      lib_send = (\<lambda>db call. case handle_request os db (request_of (drop (length base) (hc_url call)) call) of
          Some (Inr (db, res)) \<Rightarrow> (db, Some (reply_of res)) | _ \<Rightarrow> (db, None)),
      lib_raises = (\<lambda>s. 400 \<le> s \<and> s < 600), lib_text = hr_content, lib_close = id\<rparr>"

lemma direct_lib_laws: "requests_laws (direct_lib os base db) os base"
  by (simp add: requests_laws_def direct_lib_def)

theorem client_refines_witness:
  "\<exists>s cl. sh_open demo_os ''db'' 4 (\<lambda>_. empty_cat_layout) (\<lambda>_. empty_cont_layout BS) = Inr s
    \<and> client_run (direct_lib demo_os ''http://localhost:8080'' s) (client_new (direct_lib demo_os ''http://localhost:8080'' s) ''localhost'' 8080 30)
        [CSetitem [3] [4], CSet [3] [5], CGet [3], CGetitem [7], CKeys, CLen, CDelete [], CHealth]
      = (cl, [CUnit, CBool False, CValue (Some [4]), CRaises (Client_key_error [7]), CList [[3]], CNat 1, CRaises (HTTP_error 400), CBool True])"
proof -
  obtain s where s: "sh_open demo_os ''db'' 4 (\<lambda>_. empty_cat_layout) (\<lambda>_. empty_cont_layout BS) = Inr s"
    "sh_holds s (\<lambda>_. None)" "sh_room demo_os s [3] [4]" by (rule demo_shards)
  let ?lib = "direct_lib demo_os ''http://localhost:8080'' s"
  let ?cl = "client_new ?lib ''localhost'' 8080 30"
  let ?ys = "[CSet [3] [5], CGet [3], CGetitem [7], CKeys, CLen, CDelete [], CHealth]"
  let ?xs = "CSetitem [3] [4] # ?ys"
  have "char_of (56 :: nat) = CHR ''8''" "char_of (48 :: nat) = CHR ''0''" by code_simp+
  then have cl: "cl_base_url ?cl = ''http://localhost:8080''" "cl_session ?cl = s"
    by (simp_all add: client_new_def direct_lib_def to_string.simps)
  have laws: "requests_laws ?lib demo_os (cl_base_url ?cl)" unfolding cl(1) by (rule direct_lib_laws)
  have S: "sh_holds (cl_session ?cl) (\<lambda>_. None)" using s(2) by (simp only: cl(2))
  have after: "keyed_after (\<lambda>_. None) (CSetitem [3] [4]) = [[3] \<mapsto> [4]]" by (simp add: keyed_after_def)
  have served: "client_run_served demo_os ?lib ?cl ?xs"
  proof (rule client_run_served_Cons [OF laws S], unfold after)
    fix db' assume "sh_holds db' [[3] \<mapsto> [4]]"
    then have "sh_get db' [3] = Some (Inr (Some [4]))" using sh_get_spec [of db' _ "[3]"] by simp
    then show "client_run_served demo_os ?lib (?cl\<lparr>cl_session := db'\<rparr>) ?ys" by (simp add: client_served_def key_limit_def)
  qed (use s(3) cl(2) in \<open>simp add: client_served_def key_limit_def\<close>)
  have one: "distinct ks \<and> set ks = {k} \<longleftrightarrow> ks = [k]" for ks and k :: bytes by (cases ks) (auto dest: subset_singletonD)
  from client_refines [OF laws S served] obtain db' as where
    r: "client_run ?lib ?cl ?xs = (?cl\<lparr>cl_session := db'\<rparr>, as)" "dict_run_allows (\<lambda>_. None) ?xs as" by blast
  from r(2) have "as = [CUnit, CBool False, CValue (Some [4]), CRaises (Client_key_error [7]), CList [[3]], CNat 1, CRaises (HTTP_error 400), CBool True]"
    by (auto simp: dict_run_allows_Cons keyed_allows_def keyed_after_def one)
  with r(1) s(1) show ?thesis by blast
qed

end
