(* ===== verification/Spec2Isabelle.thy ===== *)
theory Spec2Isabelle
  imports Server_Main Py_Module Persistence Wrapped_Hash_Map Http_Concurrent File_Resources Http_Client
begin

text \<open>
  \<^bold>\<open>diskhash: a hash table in memory-mapped files.\<close>

  The program is an extensible hash table kept in two memory-mapped files, with three ways to use it: as
  a C++ class template (plain or typed), as a Python module, and as an HTTP server that spreads keys over
  several tables, with a client in Python. This development models all of it except what is listed at the end, and proves that each
  layer implements a map.

  \<^bold>\<open>The parts and the theories that model them.\<close>

  \<^item> \<^verbatim>\<open>Prelude\<close>: bytes and words, results, byte arrays and chains of indices.
  \<^item> \<^verbatim>\<open>Vbe\<close> (\<^verbatim>\<open>src/src/vbe.h\<close>) and \<^verbatim>\<open>Fnv\<close> (\<^verbatim>\<open>src/src/fnv.h\<close>): the encoding of lengths, with the shifts of an \<^verbatim>\<open>int\<close>
    that the reader performs, and the hash of the keys.
  \<^item> \<^verbatim>\<open>File_Map\<close> (\<^verbatim>\<open>src/src/linux\<close>, \<^verbatim>\<open>macos\<close>, \<^verbatim>\<open>windows/file_map.cpp\<close>): constructor, \<open>resize\<close>, \<open>close\<close> and destructor over
    a record \<open>os_env\<close> of system calls; a mapping knows how many bytes of it may be touched. \<open>resize\<close> on macOS is given with the
    object that an exception leaves (\<open>x_macos_resize\<close>, \<open>x_fm_resize\<close>), which may have lost its mapping.
  \<^item> \<^verbatim>\<open>System_Error\<close> (\<^verbatim>\<open>src/src/linux\<close>, \<^verbatim>\<open>macos\<close>, \<^verbatim>\<open>windows/system_error.h\<close>): the exceptions of system calls, and a kernel that keeps what a
    process holds (descriptors, handles, mappings, message buffers) and the last error number, in a state monad.
    \<^verbatim>\<open>File_Resources\<close>: the file maps again, call by call over that kernel (\<open>k_open\<close>, \<open>k_resize\<close>, \<open>k_close\<close>, \<open>k_destroy\<close>), with the state
    after an exception; the lemma \<open>file_calls_refine\<close> connects it to \<^verbatim>\<open>File_Map\<close>.
  \<^item> \<^verbatim>\<open>Catalogue\<close> (\<^verbatim>\<open>src/src/catalogue.h\<close>, \<^verbatim>\<open>.cpp\<close>): the array of bucket ids indexed by hash prefixes; constructor, \<open>find\<close>,
    \<open>set\<close>, \<open>split\<close>, \<open>close\<close>.
  \<^item> \<^verbatim>\<open>Records\<close>, \<^verbatim>\<open>Container\<close>, \<^verbatim>\<open>Container_Chains\<close>, \<^verbatim>\<open>Container_Split\<close>, \<^verbatim>\<open>Store\<close> (\<^verbatim>\<open>src/src/container.h\<close>, \<^verbatim>\<open>.cpp\<close>): records packed
    into buckets, chains of buckets, the free list, and the four operations \<open>create_record\<close>, \<open>find_record\<close>, \<open>remove_record\<close>
    and \<open>split\<close>, loop by loop. \<^verbatim>\<open>Exception_Safety\<close> and \<^verbatim>\<open>Split_Exceptions\<close> give those that grow the file once more
    with the state an exception leaves (\<open>x_create_bucket\<close>, \<open>x_create_record\<close>, \<open>x_cont_split\<close>, and \<open>x_cat_split\<close> of the catalogue);
    \<^verbatim>\<open>Hash_Map_Exceptions\<close> composes them to \<open>hash_map::get\<close> (\<open>x_hm_get\<close>).
    \<^verbatim>\<open>Records\<close> and \<^verbatim>\<open>Container\<close> hold the definitions, the others the lemmas: from chains of
    buckets to the bag of records of each chain.
  \<^item> \<^verbatim>\<open>Hash_Map\<close>, \<^verbatim>\<open>Hash_Map_Refinement\<close>, \<^verbatim>\<open>Hash_Map_Iterator\<close>, \<^verbatim>\<open>Hash_Map_Traces\<close>, \<^verbatim>\<open>Hash_Map_Views\<close>, \<^verbatim>\<open>Persistence\<close>
    (\<^verbatim>\<open>src/src/hash_map.h\<close>): the class, its refinement to a map from hashes and keys to values, the iterator, sequences of calls,
    writing through the view that \<open>get\<close> returns, and what closing and opening again keeps.
  \<^item> \<^verbatim>\<open>Kv_Store\<close>: the contracts between the hash map and its clients, as locales: \<open>kv_store\<close> for lookup, insertion and removal,
    \<open>keyed_store\<close> for clients that compute the hash from the key, \<open>iterable_store\<close> for iteration. They are interpreted on the hash
    map (\<open>hm_kv\<close>, \<open>hm_it\<close>); the server, the Python module and the wrapper rest on the interpretations. Two more contracts
    are stated where they are used: \<open>resizable_map\<close> for the file maps of the three platforms, \<open>object_repr\<close> for the types of
    the wrapper.
  \<^item> \<^verbatim>\<open>Wrapped_Hash_Map\<close> (\<^verbatim>\<open>src/src/wrapped_hash_map.h\<close>): the typed wrapper, for any types given by their object representation.
  \<^item> \<^verbatim>\<open>Sharded_Hash_Map\<close>, \<^verbatim>\<open>Sharded_Concurrency\<close> (\<^verbatim>\<open>src/src/server/sharded_hash_map.h\<close>): the store of the server, first with one call
    after the other, then as a transition system of threads that take the shared mutexes of the shards.
  \<^item> \<^verbatim>\<open>Base64url\<close>, \<^verbatim>\<open>Url\<close>, \<^verbatim>\<open>Http_Server\<close> (\<^verbatim>\<open>src/src/server/http_server.cpp\<close>, \<^verbatim>\<open>.h\<close>): codecs, routing, handlers, sessions, the
    life cycle of the server, and the sessions that \<open>wait\<close> waits for (\<open>finish_sessions\<close>); \<^verbatim>\<open>Server_Main\<close> (\<^verbatim>\<open>src/src/server/main.cpp\<close>): options, signals and exit status; \<^verbatim>\<open>Http_Concurrent\<close>: the requests of
    many connections as calls of the transition system.
  \<^item> \<^verbatim>\<open>Py_Bindings\<close>, \<^verbatim>\<open>Py_Module\<close> (\<^verbatim>\<open>src/src/bindings.cpp\<close>): \<open>PyDiskHash\<close> and its iterator; the classes as they are registered,
    with the names, arguments, keywords and defaults of their methods, and the statement \<^verbatim>\<open>with\<close>; \<open>__setitem__\<close> with the object an
    exception leaves. What nanobind and Python do with calls that no registered method takes is the parameter \<open>nb_env\<close>.
  \<^item> \<^verbatim>\<open>Python_Base64\<close>, \<^verbatim>\<open>Http_Client\<close> (\<^verbatim>\<open>src/python/diskhash/client.py\<close>): the key codec over the functions of \<^verbatim>\<open>base64\<close>, and \<open>DiskHashClient\<close>, whose
    methods call the package \<^verbatim>\<open>requests\<close>, a parameter (\<open>requests_lib\<close>); \<open>requests_laws\<close> connects it to \<open>handle_request\<close>.

  \<^bold>\<open>How the model reads the code.\<close> A class is a record of its members, with the contents of its file; a member function takes the
  record and returns it updated. A result is \<open>Inr\<close> of the value or \<open>Inl\<close> of an error: an exception, an access outside the
  mapping (\<open>Bad_access\<close>), undefined behaviour (\<open>Undefined\<close>) or a failed assertion. After an error the state is not tracked,
  except where \<open>close\<close> can fail half-way and in \<^verbatim>\<open>File_Resources\<close>, \<^verbatim>\<open>Exception_Safety\<close>, \<^verbatim>\<open>Split_Exceptions\<close> and \<^verbatim>\<open>Hash_Map_Exceptions\<close>, whose subject it is,
  and for \<open>__setitem__\<close> in \<^verbatim>\<open>Py_Module\<close>. Loops that need not end are partial functions into \<open>option\<close>, and \<open>None\<close> means that
  the call does not return; every theorem on what a call does states that it returns. There is no fuel anywhere. Hashes and
  bytes are words, the accumulators of the codecs are 32-bit words; sizes are natural numbers, reduced modulo \<open>2 ^ 64\<close> where the
  code's arithmetic can exceed it. Views into the mapped file are positions, read and written at the time of use.

  \<^bold>\<open>What the theorems assume.\<close> \<open>os_serves\<close>: system calls succeed and a mapping has the length asked for. \<open>hm_room\<close> (with \<open>hm_capacity\<close>):
  the file may grow as far as the next insertion can need, the record fits into a bucket, and the catalogue stays below 32
  bits. The statements of \<^verbatim>\<open>Persistence\<close> and \<^verbatim>\<open>Catalogue\<close> show what happens when the last two fail. For the server, that Asio's
  \<^verbatim>\<open>run\<close> returns when the context is stopped or out of work and the handlers it executes have returned; whether they return is
  computed from the sessions that are open and what their reads report. For the ownership of resources, that the system gives out handles and addresses
  that are not in use (\<open>fresh_files\<close>, \<open>fresh_maps\<close>) and that \<^verbatim>\<open>close\<close>, \<^verbatim>\<open>CloseHandle\<close> and
  \<^verbatim>\<open>UnmapViewOfFile\<close> succeed (\<open>os_releases\<close>). For the client, that calls within the default limits of Beast's parser (a header of 8 KiB, a body of 1 MiB) reach the
  server and its responses come back, that \<open>raise_for_status\<close> raises for statuses from 400 to 599, and that
  \<^verbatim>\<open>text\<close> is the content where that is ASCII (\<open>requests_laws\<close>).

  \<^bold>\<open>What is shown.\<close> Round trips of lengths, records and the key encodings, and their limits; the catalogue after \<open>set\<close> and \<open>split\<close>; the effect of
  each container operation on the set of records; that any sequence of calls on the hash map, the sharded map, the
  Python object, a session of the server and the Python client gives the answers of a map; that the key codecs of client and server agree; that the structural invariant holds in every
  reachable state; that iteration ends and meets every record once; that concurrent calls are linearizable, exclusive where
  they write, and free of deadlock, and that a request takes effect at one moment; that file maps own exactly their handles and
  mapping, and leak nothing when a constructor throws; that storing a record is all or nothing when the file cannot grow and no
  split is needed, and what \<open>get\<close> leaves otherwise, on macOS also without its mapping;
  that the registered Python class is a dictionary that can be read-only and can be closed; that the server program stops when told to
  if and only if every open session has its read returned; and the error behaviour of the
  layers. The faults met on the way are theorems too: a large file opened again faults, an oversized record is never stored, lengths
  from \<open>2 ^ 31\<close> on are read back wrong, a silent client keeps the server from ending, zero shards divide by zero, an early signal is lost, an exception in
  the middle of a split leaves the file inconsistent, so that storing a key can lose others, a failed \<open>resize\<close> on macOS leaves a dangling pointer.

  \<^bold>\<open>Not modelled.\<close> Boost.Asio, Boost.Beast, Boost.Program_options and nanobind: what the code asks of them is an input or a parameter
  (results of reads and writes, \<open>need_eof\<close>, the joining of threads, parsed options, calls that do not fit a registered Python method).
  Python objects other than the ones the methods take and return. The texts of \<^verbatim>\<open>strerror\<close> and \<^verbatim>\<open>FormatMessage\<close> are parameters; outside \<^verbatim>\<open>System_Error\<close> and \<^verbatim>\<open>File_Resources\<close> every throw of a
  system error is the one error \<open>System_error\<close>. Torn writes and
  crashes between the writes of an operation; relaxed memory effects, which the mutexes exclude. The package \<^verbatim>\<open>requests\<close>, and a client whose connection fails while the
  server acts on its call. Calls of the server that fail while they hold a mutex are outside the transition system: its
  steps are the calls that return.
\<close>

end
